(* ===== verification/Prelude.thy ===== *)
theory Prelude
  imports Main "HOL-Library.Word" "HOL-Library.Monad_Syntax"
begin

unbundle bit_operations_syntax

text \<open>
  What every component shares: the fixed-width integers of the C code, the byte-level
  encodings that \<open>htons\<close>, \<open>htonl\<close> and \<open>htobe64\<close> leave in memory, the
  conversion between C characters and bytes, bounds-checked access to a C buffer, and the
  collections of rewrite rules of the development.

  Undefined behaviour of C (an access outside a buffer, \<open>memcpy\<close> on overlapping regions)
  is the value \<open>None\<close> of an option type; the \<open>do\<close> notation of the option monad
  sequences such computations.
\<close>

section \<open>Rule collections\<close>

named_theorems host_invariants \<open>what is assumed of a host, unfolded to its nodes and its allocator\<close>

section \<open>Machine integers\<close>

type_synonym u8 = "8 word"
type_synonym u16 = "16 word"
type_synonym u32 = "32 word"
type_synonym u64 = "64 word"
type_synonym bytes = "u8 list"

lemma unat_u8_less [simp]: "unat (b :: u8) < 256"
  using unsigned_less [of b] by simp

lemma unat_u16_less [simp]: "unat (w :: u16) < 65536"
  using unsigned_less [of w] by simp

lemma unat_u32_less [simp]: "unat (w :: u32) < 4294967296"
  using unsigned_less [of w] by simp

lemma unat_u64_less [simp]: "unat (w :: u64) < 18446744073709551616"
  using unsigned_less [of w] by simp

lemma unat_u8_le: "unat (b :: u8) \<le> 255"
  using unat_u8_less [of b] by linarith

lemma unat_ucast_u8_u64 [simp]: "unat (ucast (b :: u8) :: u64) = unat b"
  by (simp add: unsigned_ucast_eq take_bit_nat_eq_self less_trans [OF unat_u8_less])

lemma unat_of_nat_u8 [simp]: "unat (word_of_nat n :: u8) = n mod 256"
  by (simp add: unat_of_nat)

lemma unat_of_nat_u16 [simp]: "unat (word_of_nat n :: u16) = n mod 65536"
  by (simp add: unat_of_nat)

lemma unat_of_nat_u32 [simp]: "unat (word_of_nat n :: u32) = n mod 4294967296"
  by (simp add: unat_of_nat)

lemma unat_of_nat_u64 [simp]: "unat (word_of_nat n :: u64) = n mod 18446744073709551616"
  by (simp add: unat_of_nat)

text \<open>The conversion of a size or a pointer difference to \<open>int\<close>.\<close>

definition to_int :: "int \<Rightarrow> int" where
  "to_int n = sint (word_of_int n :: 32 word)"

lemma to_int_small: "0 \<le> n \<Longrightarrow> n < 2 ^ 31 \<Longrightarrow> to_int n = n"
  by (simp add: to_int_def sint_word_ariths signed_of_int signed_take_bit_int_eq_self)

section \<open>Big-endian byte strings\<close>

text \<open>
  \<open>be_enc k n\<close> is what the last \<open>k\<close> bytes of the number \<open>n\<close> look like in network
  order, \<open>be_dec\<close> reads such a string back.
\<close>

primrec be_enc :: "nat \<Rightarrow> nat \<Rightarrow> bytes" where
  "be_enc 0 n = []"
| "be_enc (Suc k) n = word_of_nat (n div 256 ^ k) # be_enc k n"

definition be_dec :: "bytes \<Rightarrow> nat" where
  "be_dec bs = foldl (\<lambda>a b. a * 256 + unat b) 0 bs"

lemma length_be_enc [simp]: "length (be_enc k n) = k"
  by (induction k) auto

lemma be_foldl: "foldl (\<lambda>a b. a * 256 + unat (b :: u8)) a bs = a * 256 ^ length bs + be_dec bs"
proof (induction bs arbitrary: a)
  case (Cons b bs)
  show ?case
    using Cons [of "a * 256 + unat b"] Cons [of "unat b"]
    by (simp add: be_dec_def algebra_simps)
qed (simp add: be_dec_def)

lemma be_dec_Nil [simp]: "be_dec [] = 0"
  by (simp add: be_dec_def)

lemma be_dec_Cons [simp]: "be_dec (b # bs) = unat b * 256 ^ length bs + be_dec bs"
  using be_foldl [of "unat b" bs] by (simp add: be_dec_def)

lemma be_dec_enc [simp]: "be_dec (be_enc k n) = n mod 256 ^ k"
proof (induction k)
  case (Suc k)
  have "n mod (256 ^ k * 256) = 256 ^ k * (n div 256 ^ k mod 256) + n mod 256 ^ k"
    by (rule mod_mult2_eq)
  with Suc show ?case by (simp add: algebra_simps)
qed simp

lemma be_dec_less: "be_dec bs < 256 ^ length bs"
proof (induction bs)
  case (Cons b bs)
  have "unat b * 256 ^ length bs \<le> 255 * 256 ^ length bs"
    using unat_u8_le [of b] by (intro mult_right_mono) linarith+
  then have "unat b * 256 ^ length bs + be_dec bs < 256 * 256 ^ length bs"
    using Cons.IH by linarith
  then show ?case by simp
qed simp

lemma be_enc_dec [simp]: "length bs = k \<Longrightarrow> be_enc k (be_dec bs) = bs"
proof (induction bs arbitrary: k)
  case (Cons b bs)
  have "(unat b * 256 ^ length bs + be_dec bs) div 256 ^ length bs = unat b"
    using be_dec_less [of bs] by simp
  moreover have shift: "be_enc j (c * 256 ^ j + m) = be_enc j m" for j c m
  proof (induction j arbitrary: c)
    case (Suc j)
    have eq: "c * 256 ^ Suc j + m = (c * 256) * 256 ^ j + m" by simp
    have "(c * 256 ^ Suc j + m) div 256 ^ j = c * 256 + m div 256 ^ j"
      unfolding eq by simp
    then have "(word_of_nat ((c * 256 ^ Suc j + m) div 256 ^ j) :: u8) = word_of_nat (m div 256 ^ j)"
      by (simp only: word_of_nat_eq_iff) (simp add: take_bit_eq_mod)
    with Suc [of "c * 256"] show ?case unfolding eq by (simp add: mult.assoc)
  qed simp
  ultimately show ?case using Cons by auto
qed simp

lemma be_enc_dec_mod: "length bs = k \<Longrightarrow> m = 256 ^ k \<Longrightarrow> be_enc k (be_dec bs mod m) = bs"
  using be_dec_less [of bs] by simp

section \<open>C characters and strings\<close>

text \<open>
  A C string is kept as the list of its characters up to, and without, the terminating NUL.
  The terminator is what \<open>cstr\<close> stops at when a buffer is read as a string.
\<close>

definition byte_of_char :: "char \<Rightarrow> u8" where
  "byte_of_char c = word_of_nat (of_char c)"

definition char_of_byte :: "u8 \<Rightarrow> char" where
  "char_of_byte b = char_of (unat b)"

abbreviation NUL :: char where
  "NUL \<equiv> CHR 0x00"

definition bytes_of :: "string \<Rightarrow> bytes" where
  "bytes_of s = map byte_of_char s"

definition cstr :: "bytes \<Rightarrow> string" where
  "cstr bs = takeWhile (\<lambda>c. c \<noteq> NUL) (map char_of_byte bs)"

lemma char_of_byte_inverse [simp]: "byte_of_char (char_of_byte b) = b"
  by (simp add: byte_of_char_def char_of_byte_def)

lemma of_char_less: "(of_char c :: nat) < 256"
  by (metis nat_of_char_less_256)

lemma byte_of_char_inverse [simp]: "char_of_byte (byte_of_char c) = c"
  using of_char_less [of c] by (simp add: byte_of_char_def char_of_byte_def)

lemma length_bytes_of [simp]: "length (bytes_of s) = length s"
  by (simp add: bytes_of_def)

lemma cstr_bytes_of: "NUL \<notin> set s \<Longrightarrow> cstr (bytes_of s) = s"
  by (induction s) (auto simp: cstr_def bytes_of_def)

lemma cstr_no_nul [simp]: "NUL \<notin> set (cstr bs)"
  by (auto simp: cstr_def dest: set_takeWhileD)

lemma length_cstr: "length (cstr bs) \<le> length bs"
  using length_takeWhile_le [of "\<lambda>c. c \<noteq> NUL" "map char_of_byte bs"]
  by (simp add: cstr_def)

lemma cstr_append_nul: "NUL \<notin> set s \<Longrightarrow> cstr (bytes_of s @ 0 # bs) = s"
proof (induction s)
  case Nil
  have "char_of_byte 0 = NUL" by (simp add: char_of_byte_def char_of_def)
  then show ?case by (simp add: cstr_def bytes_of_def)
qed (auto simp: cstr_def bytes_of_def)

section \<open>Buffers\<close>

text \<open>
  \<open>mem_ld\<close> reads \<open>n\<close> bytes of a buffer at an offset, \<open>mem_st\<close> overwrites the
  bytes there. Offsets are integers, because the code computes pointers that may lie before
  the buffer; an access that is not wholly inside the buffer is undefined behaviour.
\<close>

definition mem_ld :: "bytes \<Rightarrow> int \<Rightarrow> nat \<Rightarrow> bytes option" where
  "mem_ld m i n = (if 0 \<le> i \<and> nat i + n \<le> length m then Some (take n (drop (nat i) m)) else None)"

definition mem_st :: "bytes \<Rightarrow> int \<Rightarrow> bytes \<Rightarrow> bytes option" where
  "mem_st m i bs =
     (if 0 \<le> i \<and> nat i + length bs \<le> length m
      then Some (take (nat i) m @ bs @ drop (nat i + length bs) m) else None)"

lemma mem_ld_Some: "mem_ld m i n = Some bs \<longleftrightarrow>
    0 \<le> i \<and> nat i + n \<le> length m \<and> bs = take n (drop (nat i) m)"
  by (auto simp: mem_ld_def)

lemma mem_ld_in [simp]: "i + n \<le> length m \<Longrightarrow> mem_ld m (int i) n = Some (take n (drop i m))"
  by (simp add: mem_ld_def)

lemma mem_st_in [simp]: "i + length bs \<le> length m \<Longrightarrow>
    mem_st m (int i) bs = Some (take i m @ bs @ drop (i + length bs) m)"
  by (simp add: mem_st_def)

lemma mem_st_length: "mem_st m i bs = Some m' \<Longrightarrow> length m' = length m"
  by (auto simp: mem_st_def split: if_splits)

lemma nth_splice:
  assumes "i + length bs \<le> length m" "j < length m"
  shows "(take i m @ bs @ drop (i + length bs) m) ! j =
    (if j < i then m ! j else if j < i + length bs then bs ! (j - i) else m ! j)"
  using assms by (auto simp: nth_append min_def)

end
