(* ===== verification/Net.thy ===== *)
theory Net
  imports Prelude
begin

text \<open>
  The TCP layer: \<open>net_send\<close> and \<open>net_recv\<close> of \<open>lib/mininet.h\<close> and the loops
  \<open>net_send_exact\<close> and \<open>net_recv_exact\<close> of \<open>lib/isr.c\<close> over them.

  A socket is the byte stream still to arrive, cut into the segments the kernel will deliver
  (any cutting is possible), how the stream ends, the bytes the kernel has accepted so far
  and a schedule of what the next calls of \<open>send\<close> will do: accept at most so many bytes,
  or fail. After the schedule every call accepts all it is given.

  Two things that a peer can do to the real process are not in this model. \<open>send\<close> is called without
  \<open>MSG_NOSIGNAL\<close> and the program installs no handler, so that writing to a connection that the peer
  has reset raises \<open>SIGPIPE\<close>, whose default action ends the process; a failing \<open>send\<close> of the model
  is any other error, or one of a process that ignores the signal. And every stream ends: a peer that
  stays connected and silent would block \<open>recv\<close> for ever. What is shown here of a run holds of a
  process that neither happens to.
\<close>

section \<open>Sockets\<close>

datatype io_ev = Part nat | IoErr

record sock =
  rx :: "bytes list"
  rx_err :: bool
  tx :: bytes
  tx_sched :: "io_ev list"

definition INT_MAX :: nat where
  "INT_MAX = 2147483647"

text \<open>\<open>send\<close> and \<open>recv\<close> take the length as an \<open>int\<close>, so it is cut at \<open>INT_MAX\<close>.\<close>

definition net_send :: "sock \<Rightarrow> bytes \<Rightarrow> int \<times> sock" where
  "net_send s data =
     (let chunk = min (length data) INT_MAX in
      case tx_sched s of
        [] \<Rightarrow> (int chunk, s\<lparr>tx := tx s @ take chunk data\<rparr>)
      | IoErr # es \<Rightarrow> (- 1, s\<lparr>tx_sched := es\<rparr>)
      | Part k # es \<Rightarrow>
          (int (min k chunk), s\<lparr>tx := tx s @ take (min k chunk) data, tx_sched := es\<rparr>))"

definition net_recv :: "sock \<Rightarrow> nat \<Rightarrow> int \<times> bytes \<times> sock" where
  "net_recv s len =
     (let chunk = min len INT_MAX in
      case rx s of
        [] \<Rightarrow> (if rx_err s then - 1 else 0, [], s)
      | seg # segs \<Rightarrow>
          if length seg \<le> chunk then (int (length seg), seg, s\<lparr>rx := segs\<rparr>)
          else (int chunk, take chunk seg, s\<lparr>rx := drop chunk seg # segs\<rparr>))"

text \<open>
  The two loops. \<open>buf\<close> holds what was received so far (its length is the C variable
  \<open>total\<close>); the result \<open>None\<close> is the return value \<open>-1\<close>.
\<close>

function net_recv_from :: "sock \<Rightarrow> bytes \<Rightarrow> nat \<Rightarrow> bytes option \<times> sock" where
  "net_recv_from s buf len =
     (if length buf < len then
        (case net_recv s (len - length buf) of (r, bs, s') \<Rightarrow>
           if r \<le> 0 then (None, s') else net_recv_from s' (buf @ bs) len)
      else (Some buf, s))"
  by pat_completeness auto
termination
  by (relation "measure (\<lambda>(s, buf, len). len - length buf)")
     (auto simp: net_recv_def Let_def INT_MAX_def split: list.splits if_splits
       intro!: diff_less_mono2)

definition net_recv_exact :: "sock \<Rightarrow> nat \<Rightarrow> bytes option \<times> sock" where
  "net_recv_exact s len = net_recv_from s [] len"

function net_send_exact :: "sock \<Rightarrow> bytes \<Rightarrow> bool \<times> sock" where
  "net_send_exact s data =
     (if data \<noteq> [] then
        (case net_send s data of (r, s') \<Rightarrow>
           if r \<le> 0 then (False, s') else net_send_exact s' (drop (nat r) data))
      else (True, s))"
  by pat_completeness auto
termination
  by (relation "measure (\<lambda>(s, data). length data)")
     (auto simp: net_send_def Let_def INT_MAX_def split: list.splits if_splits io_ev.splits)

declare net_recv_from.simps [simp del] net_send_exact.simps [simp del]

text \<open>The bytes still to arrive, and the sockets that deliver no empty segment.\<close>

definition pending :: "sock \<Rightarrow> bytes" where
  "pending s = concat (rx s)"

definition sock_ok :: "sock \<Rightarrow> bool" where
  "sock_ok s \<longleftrightarrow> [] \<notin> set (rx s)"

text \<open>A schedule under which no \<open>send\<close> fails or accepts nothing.\<close>

definition tx_live :: "sock \<Rightarrow> bool" where
  "tx_live s \<longleftrightarrow> IoErr \<notin> set (tx_sched s) \<and> Part 0 \<notin> set (tx_sched s)"

section \<open>One call\<close>

lemma net_recv_step:
  assumes "sock_ok s" and "0 < n" and "pending s \<noteq> []"
  obtains bs s' where "net_recv s n = (int (length bs), bs, s')" "0 < length bs" "length bs \<le> n"
    "pending s = bs @ pending s'" "sock_ok s'" "tx s' = tx s" "tx_sched s' = tx_sched s"
    "rx_err s' = rx_err s"
proof (cases "rx s")
  case Nil
  with assms(3) show ?thesis by (simp add: pending_def)
next
  case (Cons seg segs)
  with assms(1) have seg: "seg \<noteq> []" "[] \<notin> set segs" by (auto simp: sock_ok_def)
  show ?thesis
  proof (cases "length seg \<le> min n INT_MAX")
    case True
    with Cons seg show ?thesis
      by (intro that [of seg "s\<lparr>rx := segs\<rparr>"])
         (auto simp: net_recv_def Let_def pending_def sock_ok_def)
  next
    case False
    with Cons seg assms(2) show ?thesis
      by (intro that [of "take (min n INT_MAX) seg" "s\<lparr>rx := drop (min n INT_MAX) seg # segs\<rparr>"])
         (auto simp: net_recv_def Let_def pending_def sock_ok_def INT_MAX_def)
  qed
qed

lemma net_recv_end:
  assumes "sock_ok s" and "pending s = []"
  shows "net_recv s n = (if rx_err s then - 1 else 0, [], s)"
proof -
  have "rx s = []"
    using assms by (cases "rx s") (auto simp: sock_ok_def pending_def)
  then show ?thesis by (simp add: net_recv_def)
qed

section \<open>The exact loops\<close>

lemma net_recv_from_Some:
  assumes "sock_ok s" and "length buf \<le> n" and "n - length buf \<le> length (pending s)"
  shows "\<exists>s'. net_recv_from s buf n = (Some (buf @ take (n - length buf) (pending s)), s') \<and>
    pending s' = drop (n - length buf) (pending s) \<and> sock_ok s' \<and> tx s' = tx s \<and>
    tx_sched s' = tx_sched s \<and> rx_err s' = rx_err s"
  using assms
proof (induction s buf n rule: net_recv_from.induct)
  case (1 s buf n)
  show ?case
  proof (cases "length buf < n")
    case True
    with "1.prems" have "0 < n - length buf" "pending s \<noteq> []" by auto
    with "1.prems"(1) obtain bs s1 where r: "net_recv s (n - length buf) = (int (length bs), bs, s1)"
      and bs: "0 < length bs" "length bs \<le> n - length buf" "pending s = bs @ pending s1"
      and s1: "sock_ok s1" "tx s1 = tx s" "tx_sched s1 = tx_sched s" "rx_err s1 = rx_err s"
      by (rule net_recv_step)
    have "\<exists>s'. net_recv_from s1 (buf @ bs) n =
        (Some ((buf @ bs) @ take (n - length (buf @ bs)) (pending s1)), s') \<and>
      pending s' = drop (n - length (buf @ bs)) (pending s1) \<and> sock_ok s' \<and> tx s' = tx s1 \<and>
      tx_sched s' = tx_sched s1 \<and> rx_err s' = rx_err s1"
      using True r bs s1 "1.prems" by (intro "1.IH" [OF True r [symmetric]]) auto
    then show ?thesis
      using True r bs s1 by (subst net_recv_from.simps) (auto simp: min_def)
  next
    case False
    with "1.prems" show ?thesis by (subst net_recv_from.simps) auto
  qed
qed

lemma net_recv_from_None:
  assumes "sock_ok s" and "length (pending s) < n - length buf"
  shows "\<exists>s'. net_recv_from s buf n = (None, s') \<and> pending s' = [] \<and> sock_ok s' \<and>
    tx s' = tx s \<and> tx_sched s' = tx_sched s \<and> rx_err s' = rx_err s"
  using assms
proof (induction s buf n rule: net_recv_from.induct)
  case (1 s buf n)
  then have less: "length buf < n" by simp
  show ?case
  proof (cases "pending s = []")
    case True
    with "1.prems" net_recv_end [OF "1.prems"(1) True] less show ?thesis
      by (subst net_recv_from.simps) auto
  next
    case False
    with "1.prems" less obtain bs s1
      where r: "net_recv s (n - length buf) = (int (length bs), bs, s1)"
        and bs: "0 < length bs" "length bs \<le> n - length buf" "pending s = bs @ pending s1"
        and s1: "sock_ok s1" "tx s1 = tx s" "tx_sched s1 = tx_sched s" "rx_err s1 = rx_err s"
      by (metis net_recv_step zero_less_diff)
    have "\<exists>s'. net_recv_from s1 (buf @ bs) n = (None, s') \<and> pending s' = [] \<and> sock_ok s' \<and>
        tx s' = tx s1 \<and> tx_sched s' = tx_sched s1 \<and> rx_err s' = rx_err s1"
      using less r bs s1 "1.prems" by (intro "1.IH" [OF less r [symmetric]]) auto
    then show ?thesis
      using less r bs s1 by (subst net_recv_from.simps) auto
  qed
qed

text \<open>
  What the rest of the program relies on. \<open>net_recv_exact\<close> succeeds exactly when enough
  bytes will arrive, whatever their segmentation; on failure it has drained the stream.
\<close>

lemma net_recv_exact_Some:
  assumes "sock_ok s" and "n \<le> length (pending s)"
  obtains s' where "net_recv_exact s n = (Some (take n (pending s)), s')"
    "pending s' = drop n (pending s)" "sock_ok s'" "tx s' = tx s" "tx_sched s' = tx_sched s"
    "rx_err s' = rx_err s"
  using net_recv_from_Some [of s "[]" n] assms by (auto simp: net_recv_exact_def)

lemma net_recv_exact_None:
  assumes "sock_ok s" and "length (pending s) < n"
  obtains s' where "net_recv_exact s n = (None, s')"
    "pending s' = []" "sock_ok s'" "tx s' = tx s" "tx_sched s' = tx_sched s"
    "rx_err s' = rx_err s"
  using net_recv_from_None [of s n "[]"] assms by (auto simp: net_recv_exact_def)

lemma net_recv_exact_zero: "net_recv_exact s 0 = (Some [], s)"
  by (simp add: net_recv_exact_def net_recv_from.simps)

lemma net_recv_exact_inv:
  assumes "sock_ok s" and "net_recv_exact s n = (r, s')"
  shows "sock_ok s'" "tx s' = tx s" "tx_sched s' = tx_sched s" "rx_err s' = rx_err s"
    "r = (if n \<le> length (pending s) then Some (take n (pending s)) else None)"
    "pending s' = drop n (pending s)"
proof -
  consider "n \<le> length (pending s)" | "length (pending s) < n" by linarith
  then have "sock_ok s' \<and> tx s' = tx s \<and> tx_sched s' = tx_sched s \<and> rx_err s' = rx_err s \<and>
    r = (if n \<le> length (pending s) then Some (take n (pending s)) else None) \<and>
    pending s' = drop n (pending s)"
  proof cases
    case 1
    show ?thesis
      using net_recv_exact_Some [OF assms(1) 1] assms(2) 1 by (metis Pair_inject)
  next
    case 2
    show ?thesis
      using net_recv_exact_None [OF assms(1) 2] assms(2) 2
      by (metis Pair_inject drop_all less_imp_le not_less)
  qed
  then show "sock_ok s'" "tx s' = tx s" "tx_sched s' = tx_sched s" "rx_err s' = rx_err s"
    "r = (if n \<le> length (pending s) then Some (take n (pending s)) else None)"
    "pending s' = drop n (pending s)"
    by blast+
qed

text \<open>Whatever the socket, the bytes returned are the ones consumed.\<close>

lemma net_recv_consumes:
  assumes "net_recv s n = (r, bs, s')"
  shows "pending s = bs @ pending s'" "r = int (length bs) \<or> r \<le> 0 \<and> bs = []"
  using assms
  by (auto simp: net_recv_def Let_def pending_def INT_MAX_def split: list.splits if_splits)

lemma net_recv_from_consumes:
  assumes "net_recv_from s buf n = (Some bs, s')" "length buf \<le> n"
  shows "\<exists>ext. bs = buf @ ext \<and> pending s = ext @ pending s' \<and> length bs = n"
  using assms
proof (induction s buf n rule: net_recv_from.induct)
  case (1 s buf n)
  show ?case
  proof (cases "length buf < n")
    case True
    obtain r xs s1 where r: "net_recv s (n - length buf) = (r, xs, s1)" by (metis prod_cases3)
    have pos: "\<not> r \<le> 0"
      using "1.prems"(1) True r by (auto simp: net_recv_from.simps [of s buf n])
    then have rest: "net_recv_from s1 (buf @ xs) n = (Some bs, s')"
      using "1.prems"(1) True r by (simp add: net_recv_from.simps [of s buf n])
    have "length xs \<le> n - length buf"
      using r by (auto simp: net_recv_def Let_def split: list.splits if_splits)
    then have "length (buf @ xs) \<le> n" using True by simp
    then obtain ext where "bs = (buf @ xs) @ ext" "pending s1 = ext @ pending s'" "length bs = n"
      using "1.IH" [OF True r [symmetric] refl pos rest] by blast
    with net_recv_consumes(1) [OF r] show ?thesis by auto
  next
    case False
    with "1.prems" show ?thesis by (auto simp: net_recv_from.simps [of s buf n])
  qed
qed

lemma net_recv_exact_consumes:
  "net_recv_exact s n = (Some bs, s') \<Longrightarrow> pending s = bs @ pending s' \<and> length bs = n"
  using net_recv_from_consumes [of s "[]" n bs s'] by (auto simp: net_recv_exact_def)

text \<open>
  \<open>net_send_exact\<close> never invents, drops or reorders a byte: it appends to the stream a
  prefix of its argument, all of it when it returns success, and it succeeds whenever the
  kernel accepts something at each call.
\<close>

lemma net_send_cases:
  assumes "net_send s data = (r, s')"
  shows "rx s' = rx s" "rx_err s' = rx_err s" "tx s' = tx s @ take (nat r) data"
    "nat r \<le> length data" "tx_live s \<Longrightarrow> tx_live s'"
    "tx_live s \<Longrightarrow> data \<noteq> [] \<Longrightarrow> 0 < r"
  using assms
  by (auto simp: net_send_def Let_def tx_live_def INT_MAX_def split: list.splits io_ev.splits)

lemma net_send_exact_inv:
  assumes "net_send_exact s data = (b, s')"
  shows "rx s' = rx s \<and> rx_err s' = rx_err s \<and> (tx_live s \<longrightarrow> b \<and> tx_live s') \<and>
    (\<exists>n \<le> length data. tx s' = tx s @ take n data \<and> (b \<longrightarrow> n = length data))"
  using assms
proof (induction s data arbitrary: b s' rule: net_send_exact.induct)
  case (1 s data)
  show ?case
  proof (cases "data = []")
    case True
    with "1.prems" show ?thesis by (auto simp: net_send_exact.simps)
  next
    case False
    obtain r s1 where r: "net_send s data = (r, s1)" by force
    note step = net_send_cases [OF r]
    show ?thesis
    proof (cases "r \<le> 0")
      case True
      with "1.prems" False r have "b = False" "s' = s1"
        by (auto simp: net_send_exact.simps [of s data])
      with True step False show ?thesis by force
    next
      case pos: False
      with "1.prems" False r have rest: "net_send_exact s1 (drop (nat r) data) = (b, s')"
        by (simp add: net_send_exact.simps [of s data])
      obtain n where n: "n \<le> length data - nat r" "b \<longrightarrow> n = length data - nat r"
        and tx: "tx s' = tx s1 @ take n (drop (nat r) data)"
        and keep: "rx s' = rx s1" "rx_err s' = rx_err s1" "tx_live s1 \<longrightarrow> b \<and> tx_live s'"
        using "1.IH" [OF False r [symmetric] pos rest] by auto
      have "tx s' = tx s @ take (nat r + n) data"
        using tx step(3) by (simp add: take_add)
      with n keep step show ?thesis
        by (intro conjI exI [of _ "nat r + n"]) auto
    qed
  qed
qed

lemma net_send_exact_live:
  assumes "tx_live s"
  obtains s' where "net_send_exact s data = (True, s')" "tx s' = tx s @ data" "rx s' = rx s"
    "rx_err s' = rx_err s" "tx_live s'"
proof -
  obtain b s' where e: "net_send_exact s data = (b, s')" by force
  from net_send_exact_inv [OF e] assms that [of s'] e show ?thesis by auto
qed

section \<open>The stream interface\<close>

text \<open>
  The contract the transfer code is written against: a stream that delivers a fixed sequence
  of bytes in full reads and appends what is sent. The clients of the loops above only use
  these laws.
\<close>

locale byte_stream =
  fixes recv :: "'s \<Rightarrow> nat \<Rightarrow> bytes option \<times> 's"
    and send :: "'s \<Rightarrow> bytes \<Rightarrow> bool \<times> 's"
    and avail :: "'s \<Rightarrow> bytes"
    and sent :: "'s \<Rightarrow> bytes"
    and good :: "'s \<Rightarrow> bool"
    and live :: "'s \<Rightarrow> bool"
  assumes recv_result: "good s \<Longrightarrow> recv s n = (r, s') \<Longrightarrow>
      r = (if n \<le> length (avail s) then Some (take n (avail s)) else None)"
    and recv_avail: "good s \<Longrightarrow> recv s n = (r, s') \<Longrightarrow> avail s' = drop n (avail s)"
    and recv_keeps: "good s \<Longrightarrow> recv s n = (r, s') \<Longrightarrow>
      good s' \<and> sent s' = sent s \<and> live s' = live s"
    and send_sent: "send s bs = (b, s') \<Longrightarrow>
      \<exists>k \<le> length bs. sent s' = sent s @ take k bs \<and> (b \<longrightarrow> k = length bs)"
    and send_keeps: "send s bs = (b, s') \<Longrightarrow>
      avail s' = avail s \<and> good s' = good s \<and> (live s \<longrightarrow> b \<and> live s')"
begin

lemma recv_exact:
  assumes "good s" and "avail s = xs @ ys" and "length xs = n"
  obtains s' where "recv s n = (Some xs, s')" "avail s' = ys" "good s'" "sent s' = sent s"
    "live s' = live s"
proof -
  obtain r s' where e: "recv s n = (r, s')" by force
  from recv_result [OF assms(1) e] assms(2,3) have "r = Some xs" by simp
  with recv_avail [OF assms(1) e] recv_keeps [OF assms(1) e] assms(2,3) e that show ?thesis
    by simp
qed

lemma recv_short:
  assumes "good s" and "length (avail s) < n"
  obtains s' where "recv s n = (None, s')" "avail s' = []" "good s'" "sent s' = sent s"
    "live s' = live s"
proof -
  obtain r s' where e: "recv s n = (r, s')" by force
  from recv_result [OF assms(1) e] assms(2) have "r = None" by simp
  with recv_avail [OF assms(1) e] recv_keeps [OF assms(1) e] assms(2) e that show ?thesis
    by simp
qed

lemma send_live:
  assumes "live s"
  obtains s' where "send s bs = (True, s')" "sent s' = sent s @ bs" "avail s' = avail s"
    "good s' = good s" "live s'"
proof -
  obtain b s' where e: "send s bs = (b, s')" by force
  with send_keeps [OF e] send_sent [OF e] assms that [of s'] show ?thesis by auto
qed

lemma send_prefix: "send s bs = (b, s') \<Longrightarrow> \<exists>ext. sent s' = sent s @ ext"
  using send_sent by blast

end

interpretation tcp: byte_stream net_recv_exact net_send_exact pending tx sock_ok tx_live
proof unfold_locales
  fix s n r s'
  assume a: "sock_ok s" "net_recv_exact s n = (r, s')"
  show "r = (if n \<le> length (pending s) then Some (take n (pending s)) else None)"
    "pending s' = drop n (pending s)"
    "sock_ok s' \<and> tx s' = tx s \<and> tx_live s' = tx_live s"
    using net_recv_exact_inv [OF a] by (simp_all add: tx_live_def)
next
  fix s bs b s'
  assume a: "net_send_exact s bs = (b, s')"
  show "\<exists>k \<le> length bs. tx s' = tx s @ take k bs \<and> (b \<longrightarrow> k = length bs)"
    "pending s' = pending s \<and> sock_ok s' = sock_ok s \<and> (tx_live s \<longrightarrow> b \<and> tx_live s')"
    using net_send_exact_inv [OF a] by (simp_all add: pending_def sock_ok_def)
qed

section \<open>Properties\<close>

text \<open>
  C36. The result of \<open>net_recv_exact\<close> does not depend on how the stream is cut into segments:
  two sockets with the same bytes to come give the same result and are left with the same bytes.
\<close>

theorem net_recv_exact_segmentation:
  assumes "sock_ok s" "sock_ok t" "concat (rx s) = concat (rx t)"
  shows "fst (net_recv_exact s n) = fst (net_recv_exact t n) \<and>
    concat (rx (snd (net_recv_exact s n))) = concat (rx (snd (net_recv_exact t n)))"
proof -
  obtain r s' r' t' where e: "net_recv_exact s n = (r, s')" "net_recv_exact t n = (r', t')"
    by fastforce
  with net_recv_exact_inv [OF assms(1) e(1)] net_recv_exact_inv [OF assms(2) e(2)] assms(3)
  show ?thesis by (simp add: pending_def)
qed

theorem net_recv_exact_segmentation_witness:
  "fst (net_recv_exact \<lparr>rx = [[1], [2, 3]], rx_err = False, tx = [], tx_sched = []\<rparr> 2) =
   fst (net_recv_exact \<lparr>rx = [[1, 2, 3]], rx_err = True, tx = [], tx_sched = []\<rparr> 2)"
  using net_recv_exact_segmentation [of "\<lparr>rx = [[1], [2, 3]], rx_err = False, tx = [], tx_sched = []\<rparr>"
    "\<lparr>rx = [[1, 2, 3]], rx_err = True, tx = [], tx_sched = []\<rparr>" 2]
  by (simp add: sock_ok_def)

text \<open>
  \<open>net_send_exact\<close> puts on the stream a prefix of its argument and nothing else, the whole
  of it when it reports success, and never touches the receiving side.
\<close>

theorem net_send_exact_prefix:
  "rx (snd (net_send_exact s data)) = rx s \<and>
   (if fst (net_send_exact s data) then tx (snd (net_send_exact s data)) = tx s @ data
    else \<exists>k. tx (snd (net_send_exact s data)) = tx s @ take k data)"
proof -
  obtain b s' where e: "net_send_exact s data = (b, s')" by force
  from net_send_exact_inv [OF e] e show ?thesis by auto
qed

end
