(* ===== verification/Cstr.thy ===== *)
theory Cstr
  imports Prelude
begin

text \<open>
  The string handling: the \<open>string.h\<close> functions the code calls, the path checks
  \<open>isr_validate_path\<close> and \<open>isr_parent_dir\<close> of \<open>lib/isr.c\<close>, the basename
  computation of \<open>lib/isr-cli.c\<close>, and \<open>parse_host_port\<close> of \<open>lib/hostport.h\<close>.
  The code is taken as compiled for POSIX (no \<open>_WIN32\<close>).
\<close>

section \<open>string.h\<close>

definition ISR_PATH_MAX :: nat where
  "ISR_PATH_MAX = 4096"

text \<open>
  \<open>strncpy(d, s, n - 1); d[n - 1] = 0\<close> and \<open>snprintf(d, n, "%s", s)\<close> both leave
  the first \<open>n - 1\<close> characters of \<open>s\<close> in \<open>d\<close>.
\<close>

definition copy_n :: "nat \<Rightarrow> string \<Rightarrow> string" where
  "copy_n n s = take (n - 1) s"

text \<open>\<open>strrchr\<close>: the index of the last occurrence.\<close>

fun strrchr :: "string \<Rightarrow> char \<Rightarrow> nat option" where
  "strrchr [] c = None"
| "strrchr (x # xs) c =
     (case strrchr xs c of Some i \<Rightarrow> Some (Suc i) | None \<Rightarrow> if x = c then Some 0 else None)"

text \<open>\<open>snprintf(d, n, "%s/%s", a, b)\<close>: what is stored, and the returned length.\<close>

definition join_path :: "string \<Rightarrow> string \<Rightarrow> string" where
  "join_path a b = a @ CHR ''/'' # b"

definition snprintf_path :: "nat \<Rightarrow> string \<Rightarrow> string \<Rightarrow> string \<times> nat" where
  "snprintf_path n a b = (copy_n n (join_path a b), length (join_path a b))"

definition backslash :: char where
  "backslash = CHR 0x5C"

definition is_sep :: "char \<Rightarrow> bool" where
  "is_sep c \<longleftrightarrow> c = CHR ''/'' \<or> c = backslash"

section \<open>isr_validate_path\<close>

text \<open>
  The scan for a \<open>..\<close> component. \<open>prev\<close> is \<open>p[-1]\<close>, absent at the start; a read at
  the end of the list sees the terminating NUL.
\<close>

fun scan_dotdot :: "char option \<Rightarrow> string \<Rightarrow> bool" where
  "scan_dotdot prev [] = False"
| "scan_dotdot prev (c # cs) =
     ((c = CHR ''.'' \<and>
       (case cs of
          d # rest \<Rightarrow> d = CHR ''.'' \<and>
            (case prev of None \<Rightarrow> True | Some b \<Rightarrow> is_sep b) \<and>
            (case rest of [] \<Rightarrow> True | e # _ \<Rightarrow> is_sep e)
        | [] \<Rightarrow> False))
      \<or> scan_dotdot (Some c) cs)"

definition isr_validate_path :: "string \<Rightarrow> int" where
  "isr_validate_path path =
     (case path of
        [] \<Rightarrow> - 1
      | c # _ \<Rightarrow> if is_sep c then - 1 else if scan_dotdot None path then - 1 else 0)"

section \<open>Components of a path\<close>

text \<open>The specification side: a path cut at its separators.\<close>

fun split_on :: "(char \<Rightarrow> bool) \<Rightarrow> string \<Rightarrow> string list" where
  "split_on P [] = [[]]"
| "split_on P (c # cs) =
     (if P c then [] # split_on P cs else (c # hd (split_on P cs)) # tl (split_on P cs))"

lemma split_on_not_Nil [simp]: "split_on P s \<noteq> []"
  by (induction s) auto

lemma split_on_append_sep:
  "P c \<Longrightarrow> split_on P (a @ c # b) = split_on P a @ split_on P b"
  by (induction a) auto

lemma split_on_no_sep: "\<forall>c \<in> set s. \<not> P c \<Longrightarrow> split_on P s = [s]"
  by (induction s) auto

lemma split_on_parts: "w \<in> set (split_on P s) \<Longrightarrow> c \<in> set w \<Longrightarrow> c \<in> set s \<and> \<not> P c"
proof (induction s arbitrary: w)
  case (Cons x s)
  obtain v vs where "split_on P s = v # vs"
    by (cases "split_on P s") auto
  with Cons show ?case by (fastforce split: if_splits)
qed simp

text \<open>Splitting after one separator has been turned into another.\<close>

lemma split_on_map:
  assumes "\<And>c. P (f c) \<longleftrightarrow> Q c" and "\<And>c. \<not> Q c \<Longrightarrow> f c = c"
  shows "split_on P (map f s) = split_on Q s"
  using assms by (induction s) auto

lemma scan_dotdot_iff:
  "scan_dotdot prev s \<longleftrightarrow>
     (if (case prev of None \<Rightarrow> True | Some b \<Rightarrow> is_sep b)
      then ''..'' \<in> set (split_on is_sep s) else ''..'' \<in> set (tl (split_on is_sep s)))"
proof (induction prev s rule: scan_dotdot.induct)
  case (1 prev)
  then show ?case by simp
next
  case (2 prev c cs)
  have dot: "\<not> is_sep CHR ''.''" by (simp add: is_sep_def backslash_def)
  have ne: "split_on is_sep cs = hd (split_on is_sep cs) # tl (split_on is_sep cs)" by simp
  have two: "hd (split_on is_sep cs) = ''.'' \<longleftrightarrow>
      (case cs of d # rest \<Rightarrow> d = CHR ''.'' \<and> (case rest of [] \<Rightarrow> True | e # _ \<Rightarrow> is_sep e) | [] \<Rightarrow> False)"
    using dot by (auto split: list.splits)
  show ?case
  proof (cases "is_sep c")
    case True
    then have "c \<noteq> CHR ''.''" using dot by auto
    with True 2 show ?thesis by auto
  next
    case False
    then have tl: "scan_dotdot (Some c) cs \<longleftrightarrow> ''..'' \<in> set (tl (split_on is_sep cs))"
      using 2 by simp
    show ?thesis
      using False two by (subst scan_dotdot.simps(2), subst tl) (auto split: list.splits option.splits)
  qed
qed

lemma isr_validate_path_range: "isr_validate_path p = 0 \<or> isr_validate_path p = - 1"
  by (auto simp: isr_validate_path_def split: list.splits)

lemma isr_validate_path_cases:
  "isr_validate_path p = 0 \<longleftrightarrow> p \<noteq> [] \<and> \<not> is_sep (hd p) \<and> ''..'' \<notin> set (split_on is_sep p)"
  by (auto simp: isr_validate_path_def scan_dotdot_iff simp del: split_on.simps scan_dotdot.simps
    split: list.splits)

section \<open>Parent directory and base name\<close>

text \<open>\<open>isr_parent_dir\<close>: \<open>None\<close> is the return value \<open>-1\<close>.\<close>

definition isr_parent_dir :: "string \<Rightarrow> nat \<Rightarrow> string option" where
  "isr_parent_dir path out_size =
     (let len = (if out_size \<le> length path then out_size - 1 else length path);
          out = take len path
      in case strrchr out CHR ''/'' of Some i \<Rightarrow> Some (take i out) | None \<Rightarrow> None)"

text \<open>The expression \<open>basename = strrchr(p, '/'); basename ? basename + 1 : p\<close>.\<close>

definition base_name :: "string \<Rightarrow> string" where
  "base_name p = (case strrchr p CHR ''/'' of Some i \<Rightarrow> drop (Suc i) p | None \<Rightarrow> p)"

lemma strrchr_None: "strrchr s c = None \<longleftrightarrow> c \<notin> set s"
proof (induction s)
  case (Cons x s)
  then show ?case by (cases "strrchr s c") auto
qed simp

lemma strrchr_Some:
  "strrchr s c = Some i \<longleftrightarrow> i < length s \<and> s ! i = c \<and> c \<notin> set (drop (Suc i) s)"
proof (induction s arbitrary: i)
  case (Cons x s)
  show ?case
  proof (cases "strrchr s c")
    case None
    then have "c \<notin> set s" by (simp add: strrchr_None)
    with None show ?thesis by (cases i) (auto dest: nth_mem)
  next
    case (Some j)
    then have "c \<in> set s" using Cons.IH [of j] by auto
    with Some Cons.IH [of "i - 1"] show ?thesis by (cases i) simp_all
  qed
qed simp

lemma strrchr_last: "c \<notin> set b \<Longrightarrow> strrchr (a @ c # b) c = Some (length a)"
  by (simp add: strrchr_Some)

lemma strrchr_split:
  assumes "strrchr s c = Some i"
  shows "s = take i s @ c # drop (Suc i) s"
  using assms by (auto simp: strrchr_Some intro: id_take_nth_drop)

lemma isr_parent_dir_join:
  assumes "length (join_path a b) < n" and "CHR ''/'' \<notin> set b"
  shows "isr_parent_dir (join_path a b) n = Some a"
  using assms by (simp add: isr_parent_dir_def join_path_def strrchr_last Let_def)

lemma base_name_join: "CHR ''/'' \<notin> set b \<Longrightarrow> base_name (join_path a b) = b"
  by (simp add: base_name_def join_path_def strrchr_last)

lemma base_name_no_slash: "CHR ''/'' \<notin> set (base_name p)"
  by (auto simp: base_name_def strrchr_None strrchr_Some split: option.splits)

section \<open>host:port\<close>

definition parse_host_port :: "string \<Rightarrow> nat \<Rightarrow> nat \<Rightarrow> (string \<times> string) option" where
  "parse_host_port input host_len port_len =
     (case strrchr input CHR '':'' of
        None \<Rightarrow> None
      | Some colon \<Rightarrow>
          if colon = 0 then None
          else if host_len \<le> colon then None
          else
            (let host = take colon input; p = drop (Suc colon) input in
             if length p = 0 \<or> port_len \<le> length p then None else Some (host, p)))"

lemma parse_host_port_Some:
  "parse_host_port input hl pl = Some (host, port) \<longleftrightarrow>
     input = host @ CHR '':'' # port \<and> host \<noteq> [] \<and> length host < hl \<and>
     port \<noteq> [] \<and> length port < pl \<and> CHR '':'' \<notin> set port"
proof
  assume "parse_host_port input hl pl = Some (host, port)"
  then obtain i where i: "strrchr input CHR '':'' = Some i"
    and r: "0 < i" "i < hl" "host = take i input" "port = drop (Suc i) input"
      "port \<noteq> []" "length port < pl"
    by (auto simp: parse_host_port_def Let_def split: option.splits if_splits)
  from i have "i < length input" "CHR '':'' \<notin> set port"
    by (simp_all add: strrchr_Some r(4))
  with strrchr_split [OF i] r show "input = host @ CHR '':'' # port \<and> host \<noteq> [] \<and>
      length host < hl \<and> port \<noteq> [] \<and> length port < pl \<and> CHR '':'' \<notin> set port"
    by auto
next
  assume "input = host @ CHR '':'' # port \<and> host \<noteq> [] \<and> length host < hl \<and>
     port \<noteq> [] \<and> length port < pl \<and> CHR '':'' \<notin> set port"
  then show "parse_host_port input hl pl = Some (host, port)"
    by (simp add: parse_host_port_def strrchr_last Let_def)
qed

section \<open>Properties\<close>

text \<open>
  C34. \<open>isr_validate_path\<close> accepts exactly the non-empty relative paths without a \<open>..\<close>
  component, whether the components are separated by slashes or backslashes.
\<close>

theorem validate_path_exact:
  "isr_validate_path p = 0 \<longleftrightarrow>
     p \<noteq> [] \<and> hd p \<noteq> CHR ''/'' \<and> hd p \<noteq> backslash \<and> ''..'' \<notin> set (split_on is_sep p)"
  by (auto simp: isr_validate_path_cases is_sep_def)

text \<open>
  C35. \<open>parse_host_port\<close> succeeds exactly on \<open>host:port\<close> with both parts non-empty and
  smaller than their buffers, and splits at the last colon.
\<close>

theorem parse_host_port_exact:
  "parse_host_port input host_len port_len = Some (host, port) \<longleftrightarrow>
     input = host @ CHR '':'' # port \<and> host \<noteq> [] \<and> length host < host_len \<and>
     port \<noteq> [] \<and> length port < port_len \<and> CHR '':'' \<notin> set port"
  by (rule parse_host_port_Some)

end
