(* ===== verification/Wire.thy ===== *)
theory Wire
  imports Net Cstr
begin

text \<open>
  The wire format of \<open>lib/isr.h\<close>: the packed structs, the constants, the checksum, and the
  functions of \<open>lib/isr.c\<close> that transmit commands, responses and confirmations. A struct
  whose fields went through \<open>htons\<close>, \<open>htonl\<close> and \<open>htobe64\<close> is sent as its raw
  bytes, which are the big-endian encodings of the fields in order.
\<close>

section \<open>Constants\<close>

definition ISR_RECV_GO :: u8 where "ISR_RECV_GO = 0x01"
definition ISR_RECV_UNABLE :: u8 where "ISR_RECV_UNABLE = 0x00"
definition ISR_RESULT_OK :: u8 where "ISR_RESULT_OK = 0x00"
definition ISR_RESULT_CHECKSUM_BAD :: u8 where "ISR_RESULT_CHECKSUM_BAD = 0x01"
definition ISR_RESULT_OTHER_FAILURE :: u8 where "ISR_RESULT_OTHER_FAILURE = 0xFF"
definition ISR_FLAG_USE_COMPRESSION :: u8 where "ISR_FLAG_USE_COMPRESSION = 0x01"
definition ISR_FLAG_OVERWRITE :: u8 where "ISR_FLAG_OVERWRITE = 0x02"
definition ISR_FLAG_CREATE_DIRECTORY :: u8 where "ISR_FLAG_CREATE_DIRECTORY = 0x04"
definition ISR_COMMAND_SEND :: u8 where "ISR_COMMAND_SEND = 0x01"
definition ISR_COMMAND_RECV :: u8 where "ISR_COMMAND_RECV = 0x00"
definition ISR_SEND_RESPONSE_CREATING :: u8 where "ISR_SEND_RESPONSE_CREATING = 0x00"
definition ISR_SEND_RESPONSE_OVERWRITING :: u8 where "ISR_SEND_RESPONSE_OVERWRITING = 0x01"
definition ISR_RECV_TYPE_FILE :: u8 where "ISR_RECV_TYPE_FILE = 0x00"
definition ISR_RECV_TYPE_DIRECTORY :: u8 where "ISR_RECV_TYPE_DIRECTORY = 0x01"
definition ISR_RECV_TYPE_NOT_FOUND :: u8 where "ISR_RECV_TYPE_NOT_FOUND = 0x03"

lemmas isr_consts =
  ISR_RECV_GO_def ISR_RECV_UNABLE_def ISR_RESULT_OK_def ISR_RESULT_CHECKSUM_BAD_def
  ISR_RESULT_OTHER_FAILURE_def ISR_FLAG_USE_COMPRESSION_def ISR_FLAG_OVERWRITE_def
  ISR_FLAG_CREATE_DIRECTORY_def ISR_COMMAND_SEND_def ISR_COMMAND_RECV_def
  ISR_SEND_RESPONSE_CREATING_def ISR_SEND_RESPONSE_OVERWRITING_def ISR_RECV_TYPE_FILE_def
  ISR_RECV_TYPE_DIRECTORY_def ISR_RECV_TYPE_NOT_FOUND_def

definition has_flag :: "u8 \<Rightarrow> u8 \<Rightarrow> bool" where
  "has_flag flags f \<longleftrightarrow> flags AND f \<noteq> 0"

section \<open>Structs\<close>

record isr_send_command_header =
  sh_flags :: u8
  sh_path_length :: u16
  sh_block_size :: u32
  sh_effective_length :: u64

record isr_recv_command_header =
  rh_flags :: u8
  rh_path_length :: u16
  rh_block_size :: u32

record isr_response =
  response_type :: u8
  response_data :: bytes

record isr_recv_confirmation =
  conf_type :: u8
  conf_length :: u64

definition enc_u64 :: "u64 \<Rightarrow> bytes" where
  "enc_u64 w = be_enc 8 (unat w)"

definition dec_u64 :: "bytes \<Rightarrow> u64" where
  "dec_u64 bs = word_of_nat (be_dec bs)"

definition enc_u32 :: "u32 \<Rightarrow> bytes" where
  "enc_u32 w = be_enc 4 (unat w)"

definition dec_u32 :: "bytes \<Rightarrow> u32" where
  "dec_u32 bs = word_of_nat (be_dec bs)"

definition enc_u16 :: "u16 \<Rightarrow> bytes" where
  "enc_u16 w = be_enc 2 (unat w)"

definition dec_u16 :: "bytes \<Rightarrow> u16" where
  "dec_u16 bs = word_of_nat (be_dec bs)"

definition enc_send_header :: "isr_send_command_header \<Rightarrow> bytes" where
  "enc_send_header h =
     sh_flags h # enc_u16 (sh_path_length h) @ enc_u32 (sh_block_size h) @
     enc_u64 (sh_effective_length h)"

definition dec_send_header :: "bytes \<Rightarrow> isr_send_command_header" where
  "dec_send_header bs =
     \<lparr>sh_flags = hd bs, sh_path_length = dec_u16 (take 2 (drop 1 bs)),
      sh_block_size = dec_u32 (take 4 (drop 3 bs)),
      sh_effective_length = dec_u64 (take 8 (drop 7 bs))\<rparr>"

definition enc_recv_header :: "isr_recv_command_header \<Rightarrow> bytes" where
  "enc_recv_header h = rh_flags h # enc_u16 (rh_path_length h) @ enc_u32 (rh_block_size h)"

definition dec_recv_header :: "bytes \<Rightarrow> isr_recv_command_header" where
  "dec_recv_header bs =
     \<lparr>rh_flags = hd bs, rh_path_length = dec_u16 (take 2 (drop 1 bs)),
      rh_block_size = dec_u32 (take 4 (drop 3 bs))\<rparr>"

definition enc_response :: "isr_response \<Rightarrow> bytes" where
  "enc_response r = response_type r # response_data r"

definition dec_response :: "bytes \<Rightarrow> isr_response" where
  "dec_response bs = \<lparr>response_type = hd bs, response_data = take 254 (tl bs)\<rparr>"

definition enc_confirmation :: "isr_recv_confirmation \<Rightarrow> bytes" where
  "enc_confirmation c = conf_type c # enc_u64 (conf_length c)"

definition dec_confirmation :: "bytes \<Rightarrow> isr_recv_confirmation" where
  "dec_confirmation bs = \<lparr>conf_type = hd bs, conf_length = dec_u64 (take 8 (drop 1 bs))\<rparr>"

section \<open>Fixed-size encodings\<close>

text \<open>
  The contract of an encoding: a fixed number of bytes, read back exactly. \<open>wf\<close> says which
  values of the type the struct can hold.
\<close>

locale fixed_codec =
  fixes enc :: "'a \<Rightarrow> bytes" and dec :: "bytes \<Rightarrow> 'a" and size :: nat and wf :: "'a \<Rightarrow> bool"
  assumes enc_length: "wf x \<Longrightarrow> length (enc x) = size"
    and dec_enc: "wf x \<Longrightarrow> dec (enc x) = x"
    and enc_dec: "length bs = size \<Longrightarrow> enc (dec bs) = bs \<and> wf (dec bs)"
begin

lemma enc_inject: "wf x \<Longrightarrow> wf y \<Longrightarrow> enc x = enc y \<longleftrightarrow> x = y"
  using dec_enc by metis

lemma dec_take: "wf x \<Longrightarrow> dec (take size (enc x @ bs)) = x"
  by (simp add: dec_enc enc_length)

lemma enc_prefix_unique:
  "wf x \<Longrightarrow> wf y \<Longrightarrow> enc x @ xs = enc y @ ys \<Longrightarrow> x = y \<and> xs = ys"
  by (metis append_eq_append_conv enc_length enc_inject)

end

text \<open>An encoding read from a stream.\<close>

locale framed = byte_stream + fixed_codec
begin

lemma recv_frame:
  assumes "good s" and "avail s = enc x @ ys" and "wf x"
  obtains s' where "recv s size = (Some (enc x), s')" "dec (enc x) = x" "avail s' = ys"
    "good s'" "sent s' = sent s" "live s' = live s"
  using recv_exact [OF assms(1,2) enc_length [OF assms(3)]] dec_enc [OF assms(3)] that by metis

end

interpretation u64: fixed_codec enc_u64 dec_u64 8 "\<lambda>_. True"
  by unfold_locales (auto simp: enc_u64_def dec_u64_def be_enc_dec_mod)

interpretation u32: fixed_codec enc_u32 dec_u32 4 "\<lambda>_. True"
  by unfold_locales (auto simp: enc_u32_def dec_u32_def be_enc_dec_mod)

interpretation u16: fixed_codec enc_u16 dec_u16 2 "\<lambda>_. True"
  by unfold_locales (auto simp: enc_u16_def dec_u16_def be_enc_dec_mod)

lemmas uint_codec [simp] =
  u64.enc_length [OF TrueI] u32.enc_length [OF TrueI] u16.enc_length [OF TrueI]
  u64.dec_enc [OF TrueI] u32.dec_enc [OF TrueI] u16.dec_enc [OF TrueI]

lemma enc_dec_uint [simp]:
  "length bs = 8 \<Longrightarrow> enc_u64 (dec_u64 bs) = bs"
  "length bs = 4 \<Longrightarrow> enc_u32 (dec_u32 bs) = bs"
  "length bs = 2 \<Longrightarrow> enc_u16 (dec_u16 bs) = bs"
  using u64.enc_dec u32.enc_dec u16.enc_dec by blast+

text \<open>Cutting a byte string of known length at the field boundaries.\<close>

lemma hd_Cons_take_drop: "length bs = Suc n \<Longrightarrow> hd bs # take n (drop (Suc 0) bs) = bs"
  by (cases bs) auto

lemma take_drop_pieces: "i + n = j \<Longrightarrow> take n (drop i bs) @ drop j bs = drop i bs"
  by (metis add.commute append_take_drop_id drop_drop)

interpretation send_header: fixed_codec enc_send_header dec_send_header 15 "\<lambda>_. True"
proof unfold_locales
  fix bs :: bytes
  assume len: "length bs = 15"
  have "take 2 (drop 1 bs) @ take 4 (drop 3 bs) @ take 8 (drop 7 bs) = drop 1 bs"
    using len take_drop_pieces [of 1 2 3 bs] take_drop_pieces [of 3 4 7 bs] by simp
  with len show "enc_send_header (dec_send_header bs) = bs \<and> True"
    by (cases bs) (auto simp: enc_send_header_def dec_send_header_def)
qed (auto simp: enc_send_header_def dec_send_header_def)

interpretation recv_header: fixed_codec enc_recv_header dec_recv_header 7 "\<lambda>_. True"
proof unfold_locales
  fix bs :: bytes
  assume len: "length bs = 7"
  have "take 2 (drop 1 bs) @ take 4 (drop 3 bs) = drop 1 bs"
    using len take_drop_pieces [of 1 2 3 bs] by simp
  with len show "enc_recv_header (dec_recv_header bs) = bs \<and> True"
    by (cases bs) (auto simp: enc_recv_header_def dec_recv_header_def)
qed (auto simp: enc_recv_header_def dec_recv_header_def)

interpretation response: fixed_codec enc_response dec_response 255
  "\<lambda>r. length (response_data r) = 254"
proof unfold_locales
  fix bs :: bytes
  assume "length bs = 255"
  then show "enc_response (dec_response bs) = bs \<and> length (response_data (dec_response bs)) = 254"
    by (cases bs) (auto simp: enc_response_def dec_response_def)
qed (auto simp: enc_response_def dec_response_def)

interpretation confirmation: fixed_codec enc_confirmation dec_confirmation 9 "\<lambda>_. True"
proof unfold_locales
  fix bs :: bytes
  assume "length bs = 9"
  then show "enc_confirmation (dec_confirmation bs) = bs \<and> True"
    by (cases bs) (auto simp: enc_confirmation_def dec_confirmation_def)
qed (auto simp: enc_confirmation_def dec_confirmation_def)

text \<open>Every struct can be read whole from a TCP stream.\<close>

interpretation tcp_u64: framed net_recv_exact net_send_exact pending tx sock_ok tx_live
  enc_u64 dec_u64 8 "\<lambda>_. True" ..

interpretation tcp_u32: framed net_recv_exact net_send_exact pending tx sock_ok tx_live
  enc_u32 dec_u32 4 "\<lambda>_. True" ..

interpretation tcp_send_header: framed net_recv_exact net_send_exact pending tx sock_ok tx_live
  enc_send_header dec_send_header 15 "\<lambda>_. True" ..

interpretation tcp_recv_header: framed net_recv_exact net_send_exact pending tx sock_ok tx_live
  enc_recv_header dec_recv_header 7 "\<lambda>_. True" ..

interpretation tcp_response: framed net_recv_exact net_send_exact pending tx sock_ok tx_live
  enc_response dec_response 255 "\<lambda>r. length (response_data r) = 254" ..

interpretation tcp_confirmation: framed net_recv_exact net_send_exact pending tx sock_ok tx_live
  enc_confirmation dec_confirmation 9 "\<lambda>_. True" ..

section \<open>The checksum\<close>

text \<open>\<open>_isr_count_byte_values\<close>: the sum of the bytes in a 64-bit counter.\<close>

definition isr_count_byte_values :: "bytes \<Rightarrow> u64" where
  "isr_count_byte_values data = foldl (\<lambda>count b. count + ucast b) 0 data"

lemma foldl_count: "foldl (\<lambda>count b. count + ucast (b :: u8)) c bs = c + isr_count_byte_values bs"
proof (induction bs arbitrary: c)
  case (Cons b bs)
  show ?case
    using Cons [of "c + ucast b"] Cons [of "ucast b"] by (simp add: isr_count_byte_values_def)
qed (simp add: isr_count_byte_values_def)

lemma count_Nil [simp]: "isr_count_byte_values [] = 0"
  by (simp add: isr_count_byte_values_def)

lemma count_Cons [simp]: "isr_count_byte_values (b # bs) = ucast b + isr_count_byte_values bs"
  using foldl_count [of "ucast b" bs] by (simp add: isr_count_byte_values_def)

lemma count_append [simp]:
  "isr_count_byte_values (as @ bs) = isr_count_byte_values as + isr_count_byte_values bs"
  by (induction as) auto

text \<open>The counter never wraps on fewer than $2^{56}$ bytes.\<close>

lemma count_unat: "length bs < 2 ^ 56 \<Longrightarrow> unat (isr_count_byte_values bs) = sum_list (map unat bs)"
proof (induction bs)
  case (Cons b bs)
  have "sum_list (map unat bs) \<le> 255 * length bs"
  proof (induction bs)
    case (Cons c cs)
    then show ?case using unat_u8_le [of c] by simp
  qed simp
  with Cons unat_u8_le [of b] show ?case
    by (simp add: unat_word_ariths)
qed simp

section \<open>Responses\<close>

text \<open>
  \<open>isr_response_from_error\<close> copies the message with \<open>strncpy\<close>, which pads with NULs, and
  \<open>isr_response_from_result\<close> zeroes the struct.
\<close>

definition isr_response_from_error :: "string \<Rightarrow> isr_response" where
  "isr_response_from_error msg =
     (let m = take 253 (bytes_of msg)
      in \<lparr>response_type = ISR_RESULT_OTHER_FAILURE,
          response_data = m @ replicate (253 - length m) 0 @ [0]\<rparr>)"

definition isr_response_from_result :: "u8 \<Rightarrow> isr_response" where
  "isr_response_from_result t = \<lparr>response_type = t, response_data = replicate 254 0\<rparr>"

lemma response_wf [simp]:
  "length (response_data (isr_response_from_error msg)) = 254"
  "length (response_data (isr_response_from_result t)) = 254"
  by (auto simp: isr_response_from_error_def isr_response_from_result_def Let_def)

lemma response_types [simp]:
  "response_type (isr_response_from_error msg) = ISR_RESULT_OTHER_FAILURE"
  "response_type (isr_response_from_result t) = t"
  by (simp_all add: isr_response_from_error_def isr_response_from_result_def Let_def)

section \<open>Transmitting commands, responses and confirmations\<close>

text \<open>
  The functions return \<open>True\<close> for 0 and \<open>False\<close> for \<open>-1\<close>. The path length goes
  through \<open>(uint16_t)strlen(path)\<close>, and that many bytes of the path are sent.
\<close>

definition isr_transmit_send_command ::
    "sock \<Rightarrow> string \<Rightarrow> u8 \<Rightarrow> u32 \<Rightarrow> u64 \<Rightarrow> bool \<times> sock" where
  "isr_transmit_send_command s path flags block_size effective_length =
     (case net_send_exact s [ISR_COMMAND_SEND] of
        (False, s1) \<Rightarrow> (False, s1)
      | (True, s1) \<Rightarrow>
          (let path_len = (word_of_nat (length path) :: u16);
               header = \<lparr>sh_flags = flags, sh_path_length = path_len,
                 sh_block_size = block_size, sh_effective_length = effective_length\<rparr>
           in case net_send_exact s1 (enc_send_header header) of
                (False, s2) \<Rightarrow> (False, s2)
              | (True, s2) \<Rightarrow> net_send_exact s2 (take (unat path_len) (bytes_of path))))"

definition isr_transmit_recv_command ::
    "sock \<Rightarrow> string \<Rightarrow> u8 \<Rightarrow> u32 \<Rightarrow> bool \<times> sock" where
  "isr_transmit_recv_command s path flags block_size =
     (case net_send_exact s [ISR_COMMAND_RECV] of
        (False, s1) \<Rightarrow> (False, s1)
      | (True, s1) \<Rightarrow>
          (let path_len = (word_of_nat (length path) :: u16);
               header = \<lparr>rh_flags = flags, rh_path_length = path_len, rh_block_size = block_size\<rparr>
           in case net_send_exact s1 (enc_recv_header header) of
                (False, s2) \<Rightarrow> (False, s2)
              | (True, s2) \<Rightarrow> net_send_exact s2 (take (unat path_len) (bytes_of path))))"

definition isr_transmit_send_response :: "sock \<Rightarrow> u8 \<Rightarrow> string option \<Rightarrow> bool \<times> sock" where
  "isr_transmit_send_response s type data =
     (let response =
        (case data of
           Some msg \<Rightarrow>
             if type = ISR_RESULT_OTHER_FAILURE then isr_response_from_error msg
             else isr_response_from_result type
         | None \<Rightarrow> isr_response_from_result type)
      in net_send_exact s (enc_response response))"

definition isr_transmit_send_result :: "sock \<Rightarrow> u8 \<Rightarrow> bool \<times> sock" where
  "isr_transmit_send_result s type = isr_transmit_send_response s type None"

definition isr_send_recv_confirmation :: "sock \<Rightarrow> u8 \<Rightarrow> u64 \<Rightarrow> bool \<times> sock" where
  "isr_send_recv_confirmation s type len =
     net_send_exact s (enc_confirmation \<lparr>conf_type = type, conf_length = len\<rparr>)"

text \<open>What a live socket carries afterwards.\<close>

definition send_request :: "string \<Rightarrow> u8 \<Rightarrow> u32 \<Rightarrow> u64 \<Rightarrow> bytes" where
  "send_request path flags block_size len =
     ISR_COMMAND_SEND #
     enc_send_header \<lparr>sh_flags = flags, sh_path_length = word_of_nat (length path),
       sh_block_size = block_size, sh_effective_length = len\<rparr> @ bytes_of path"

definition recv_request :: "string \<Rightarrow> u8 \<Rightarrow> u32 \<Rightarrow> bytes" where
  "recv_request path flags block_size =
     ISR_COMMAND_RECV #
     enc_recv_header \<lparr>rh_flags = flags, rh_path_length = word_of_nat (length path),
       rh_block_size = block_size\<rparr> @ bytes_of path"

lemma isr_transmit_send_command_live:
  assumes "tx_live s" and "length path < 65536"
  obtains s' where "isr_transmit_send_command s path flags bs len = (True, s')"
    "tx s' = tx s @ send_request path flags bs len" "pending s' = pending s"
    "sock_ok s' = sock_ok s" "tx_live s'"
proof -
  let ?h = "\<lparr>sh_flags = flags, sh_path_length = word_of_nat (length path), sh_block_size = bs,
    sh_effective_length = len\<rparr>"
  obtain s1 where 1: "net_send_exact s [ISR_COMMAND_SEND] = (True, s1)"
    "tx s1 = tx s @ [ISR_COMMAND_SEND]" "pending s1 = pending s" "sock_ok s1 = sock_ok s" "tx_live s1"
    using tcp.send_live [OF assms(1)] .
  obtain s2 where 2: "net_send_exact s1 (enc_send_header ?h) = (True, s2)"
    "tx s2 = tx s1 @ enc_send_header ?h" "pending s2 = pending s1" "sock_ok s2 = sock_ok s1" "tx_live s2"
    using tcp.send_live [OF 1(5)] .
  obtain s3 where 3: "net_send_exact s2 (bytes_of path) = (True, s3)"
    "tx s3 = tx s2 @ bytes_of path" "pending s3 = pending s2" "sock_ok s3 = sock_ok s2" "tx_live s3"
    using tcp.send_live [OF 2(5)] .
  show ?thesis
    using 1 2 3 assms(2)
    by (intro that [of s3])
       (auto simp: isr_transmit_send_command_def send_request_def Let_def)
qed

lemma isr_transmit_recv_command_live:
  assumes "tx_live s" and "length path < 65536"
  obtains s' where "isr_transmit_recv_command s path flags bs = (True, s')"
    "tx s' = tx s @ recv_request path flags bs" "pending s' = pending s"
    "sock_ok s' = sock_ok s" "tx_live s'"
proof -
  let ?h = "\<lparr>rh_flags = flags, rh_path_length = word_of_nat (length path), rh_block_size = bs\<rparr>"
  obtain s1 where 1: "net_send_exact s [ISR_COMMAND_RECV] = (True, s1)"
    "tx s1 = tx s @ [ISR_COMMAND_RECV]" "pending s1 = pending s" "sock_ok s1 = sock_ok s" "tx_live s1"
    using tcp.send_live [OF assms(1)] .
  obtain s2 where 2: "net_send_exact s1 (enc_recv_header ?h) = (True, s2)"
    "tx s2 = tx s1 @ enc_recv_header ?h" "pending s2 = pending s1" "sock_ok s2 = sock_ok s1" "tx_live s2"
    using tcp.send_live [OF 1(5)] .
  obtain s3 where 3: "net_send_exact s2 (bytes_of path) = (True, s3)"
    "tx s3 = tx s2 @ bytes_of path" "pending s3 = pending s2" "sock_ok s3 = sock_ok s2" "tx_live s3"
    using tcp.send_live [OF 2(5)] .
  show ?thesis
    using 1 2 3 assms(2)
    by (intro that [of s3])
       (auto simp: isr_transmit_recv_command_def recv_request_def Let_def)
qed

end
