(* ===== verification/Fs.thy ===== *)
theory Fs
  imports Cstr Net "HOL-Library.AList" "HOL-Library.Sublist"
begin

text \<open>
  The host a process runs on: the file system, the open file, the allocator and the console,
  with the system calls the program makes, and the wrappers \<open>isr_open_read\<close>,
  \<open>isr_open_write\<close>, \<open>isr_read\<close>, \<open>isr_write\<close>, \<open>isr_stat\<close>,
  \<open>isr_write_all\<close> and \<open>isr_mkdir_recursive\<close> of \<open>lib/isr.c\<close>.

  The tree is a list of nodes keyed by their canonical path (the list of components from the
  root); a directory is read in the order of that list, which can be any. Path resolution
  follows symbolic links, up to the forty that Linux allows. \<open>deny\<close> says which paths
  cannot be opened or created (permissions, a full disk), the schedules say how much each
  \<open>read\<close> and \<open>write\<close> transfers, \<open>heap_at n\<close> is the address \<open>malloc(n)\<close> returns,
  \<open>None\<close> for \<open>NULL\<close>. A name longer than \<open>NAME_MAX\<close> is refused by no call of its own accord;
  \<open>deny\<close> can say so for each path. Mode bits, owners and hard links are not modelled.
\<close>

section \<open>The tree\<close>

datatype node = File bytes | Dir | Symlink string

type_synonym fpath = "string list"

record host =
  nodes :: "(fpath \<times> node) list"
  cwd :: fpath
  deny :: "fpath \<Rightarrow> bool"
  dir_size :: "fpath \<Rightarrow> nat"
  rd_sched :: "io_ev list"
  wr_sched :: "io_ev list"
  heap_at :: "nat \<Rightarrow> nat option"
  console :: "string list"

definition node_at :: "host \<Rightarrow> fpath \<Rightarrow> node option" where
  "node_at h p = map_of (nodes h) p"

definition put_node :: "fpath \<Rightarrow> node \<Rightarrow> host \<Rightarrow> host" where
  "put_node p n h = h\<lparr>nodes := AList.update p n (nodes h)\<rparr>"

lemma node_at_put [simp]: "node_at (put_node p n h) q = (if q = p then Some n else node_at h q)"
  by (simp add: node_at_def put_node_def update_conv')

lemma put_node_simps [simp]:
  "cwd (put_node p n h) = cwd h" "deny (put_node p n h) = deny h"
  "dir_size (put_node p n h) = dir_size h"
  "rd_sched (put_node p n h) = rd_sched h" "wr_sched (put_node p n h) = wr_sched h"
  "heap_at (put_node p n h) = heap_at h" "console (put_node p n h) = console h"
  by (simp_all add: put_node_def)

lemma node_at_other [simp]:
  "node_at (h\<lparr>rd_sched := a\<rparr>) = node_at h" "node_at (h\<lparr>wr_sched := a\<rparr>) = node_at h"
  "node_at (h\<lparr>console := b\<rparr>) = node_at h"
  by (simp_all add: node_at_def fun_eq_iff)

section \<open>Path resolution\<close>

abbreviation split_path :: "string \<Rightarrow> string list" where
  "split_path s \<equiv> split_on (\<lambda>c. c = CHR ''/'') s"

datatype place = Found fpath | Absent fpath | Unresolved

text \<open>
  \<open>walk t n cur cs fl\<close> resolves the components \<open>cs\<close> from directory \<open>cur\<close>, through at
  most \<open>n\<close> more links; \<open>fl\<close> says whether a link in last position is followed.
  \<open>Absent p\<close>: the parent of \<open>p\<close> exists, \<open>p\<close> does not.
\<close>

fun walk :: "(fpath \<Rightarrow> node option) \<Rightarrow> nat \<Rightarrow> fpath \<Rightarrow> string list \<Rightarrow> bool \<Rightarrow> place" where
  "walk t n cur [] fl = Found cur"
| "walk t n cur (c # cs) fl =
     (if t cur \<noteq> Some Dir then Unresolved
      else if c = [] \<or> c = ''.'' then walk t n cur cs fl
      else if c = ''..'' then walk t n (butlast cur) cs fl
      else case t (cur @ [c]) of
          None \<Rightarrow> if cs = [] then Absent (cur @ [c]) else Unresolved
        | Some (Symlink target) \<Rightarrow>
            if cs = [] \<and> \<not> fl then Found (cur @ [c])
            else (case n of
                0 \<Rightarrow> Unresolved
              | Suc m \<Rightarrow>
                  walk t m (if target \<noteq> [] \<and> hd target = CHR ''/'' then [] else cur)
                    (split_path target @ cs) fl)
        | Some _ \<Rightarrow> walk t n (cur @ [c]) cs fl)"

definition lookup :: "host \<Rightarrow> string \<Rightarrow> bool \<Rightarrow> place" where
  "lookup h s fl =
     (case s of
        [] \<Rightarrow> Unresolved
      | c # _ \<Rightarrow> walk (node_at h) 40 (if c = CHR ''/'' then [] else cwd h) (split_path s) fl)"

text \<open>The path string of a canonical path, and \<open>realpath\<close>.\<close>

definition canon :: "fpath \<Rightarrow> string" where
  "canon p = (if p = [] then ''/'' else concat (map (\<lambda>c. CHR ''/'' # c) p))"

definition realpath :: "host \<Rightarrow> string \<Rightarrow> string option" where
  "realpath h s =
     (case lookup h s True of
        Found p \<Rightarrow> if length (canon p) < ISR_PATH_MAX then Some (canon p) else None
      | _ \<Rightarrow> None)"

section \<open>System calls and their wrappers\<close>

text \<open>\<open>isr_stat\<close>: whether the path is a directory, and its size; \<open>None\<close> is \<open>-1\<close>.\<close>

definition isr_stat :: "host \<Rightarrow> string \<Rightarrow> (bool \<times> u64) option" where
  "isr_stat h s =
     (case lookup h s True of
        Found p \<Rightarrow>
          (case node_at h p of
             Some (File bs) \<Rightarrow> Some (False, word_of_nat (length bs))
           | Some Dir \<Rightarrow> Some (True, word_of_nat (dir_size h p))
           | _ \<Rightarrow> None)
      | _ \<Rightarrow> None)"

record fd =
  fd_path :: fpath
  fd_pos :: nat

definition isr_open_read :: "host \<Rightarrow> string \<Rightarrow> fd option" where
  "isr_open_read h s =
     (case lookup h s True of
        Found p \<Rightarrow> if deny h p then None else Some \<lparr>fd_path = p, fd_pos = 0\<rparr>
      | _ \<Rightarrow> None)"

text \<open>\<open>open(path, O_WRONLY | O_CREAT | O_TRUNC, 0644)\<close>\<close>

definition isr_open_write :: "host \<Rightarrow> string \<Rightarrow> fd option \<times> host" where
  "isr_open_write h s =
     (case lookup h s True of
        Found p \<Rightarrow>
          (case node_at h p of
             Some (File _) \<Rightarrow>
               if deny h p then (None, h)
               else (Some \<lparr>fd_path = p, fd_pos = 0\<rparr>, put_node p (File []) h)
           | _ \<Rightarrow> (None, h))
      | Absent p \<Rightarrow>
          if deny h p then (None, h)
          else (Some \<lparr>fd_path = p, fd_pos = 0\<rparr>, put_node p (File []) h)
      | Unresolved \<Rightarrow> (None, h))"

definition isr_read :: "host \<Rightarrow> fd \<Rightarrow> nat \<Rightarrow> int \<times> bytes \<times> fd \<times> host" where
  "isr_read h f len =
     (case node_at h (fd_path f) of
        Some (File bs) \<Rightarrow>
          (case rd_sched h of
             IoErr # es \<Rightarrow> (- 1, [], f, h\<lparr>rd_sched := es\<rparr>)
           | Part k # es \<Rightarrow>
               (let got = take (min k len) (drop (fd_pos f) bs)
                in (int (length got), got, f\<lparr>fd_pos := fd_pos f + length got\<rparr>, h\<lparr>rd_sched := es\<rparr>))
           | [] \<Rightarrow>
               (let got = take len (drop (fd_pos f) bs)
                in (int (length got), got, f\<lparr>fd_pos := fd_pos f + length got\<rparr>, h)))
      | _ \<Rightarrow> (- 1, [], f, h))"

text \<open>A write at the position of the open file, which is the end of what was written.\<close>

definition store_at :: "host \<Rightarrow> fd \<Rightarrow> bytes \<Rightarrow> fd \<times> host" where
  "store_at h f data =
     (case node_at h (fd_path f) of
        Some (File bs) \<Rightarrow>
          (f\<lparr>fd_pos := fd_pos f + length data\<rparr>,
           put_node (fd_path f)
             (File (take (fd_pos f) bs @ data @ drop (fd_pos f + length data) bs)) h)
      | _ \<Rightarrow> (f, h))"

definition isr_write :: "host \<Rightarrow> fd \<Rightarrow> bytes \<Rightarrow> int \<times> fd \<times> host" where
  "isr_write h f data =
     (case wr_sched h of
        IoErr # es \<Rightarrow> (- 1, f, h\<lparr>wr_sched := es\<rparr>)
      | Part k # es \<Rightarrow>
          (int (min k (length data)), store_at (h\<lparr>wr_sched := es\<rparr>) f (take k data))
      | [] \<Rightarrow> (int (length data), store_at h f data))"

function isr_write_all :: "host \<Rightarrow> fd \<Rightarrow> bytes \<Rightarrow> bool \<times> fd \<times> host" where
  "isr_write_all h f data =
     (if data \<noteq> [] then
        (case isr_write h f data of (w, f', h') \<Rightarrow>
           if w \<le> 0 then (False, f', h') else isr_write_all h' f' (drop (nat w) data))
      else (True, f, h))"
  by pat_completeness auto
termination
  by (relation "measure (\<lambda>(h, f, data). length data)")
     (auto simp: isr_write_def split: list.splits io_ev.splits)

declare isr_write_all.simps [simp del]

text \<open>
  \<open>opendir\<close> and the successive results of \<open>readdir\<close>, the dot entries included: every name
  once, in the order of the list of nodes.
\<close>

definition dir_entries :: "host \<Rightarrow> fpath \<Rightarrow> string list" where
  "dir_entries h p = map last (filter (\<lambda>q. q \<noteq> [] \<and> butlast q = p) (remdups (map fst (nodes h))))"

lemma dir_entries_iff: "c \<in> set (dir_entries h p) \<longleftrightarrow> node_at h (p @ [c]) \<noteq> None"
proof -
  have "q \<noteq> [] \<and> butlast q = p \<and> last q = c \<longleftrightarrow> q = p @ [c]" for q :: fpath
    by (cases q rule: rev_cases) auto
  then have "c \<in> set (dir_entries h p) \<longleftrightarrow> p @ [c] \<in> fst ` set (nodes h)"
    by (force simp: dir_entries_def image_iff)
  then show ?thesis by (simp add: node_at_def map_of_eq_None_iff)
qed

lemma distinct_dir_entries: "distinct (dir_entries h p)"
  unfolding dir_entries_def by (auto simp: distinct_map inj_on_def) (metis append_butlast_last_id)

definition opendir :: "host \<Rightarrow> string \<Rightarrow> string list option" where
  "opendir h s =
     (case lookup h s True of
        Found p \<Rightarrow>
          if node_at h p = Some Dir \<and> \<not> deny h p then Some (''.'' # ''..'' # dir_entries h p)
          else None
      | _ \<Rightarrow> None)"

text \<open>\<open>mkdir\<close>: 0, or the two kinds of \<open>errno\<close> the caller tells apart.\<close>

datatype mkdir_res = MkOk | MkExist | MkFail

definition os_mkdir :: "host \<Rightarrow> string \<Rightarrow> mkdir_res \<times> host" where
  "os_mkdir h s =
     (case lookup h s False of
        Found _ \<Rightarrow> (MkExist, h)
      | Absent p \<Rightarrow> if deny h p then (MkFail, h) else (MkOk, put_node p Dir h)
      | Unresolved \<Rightarrow> (MkFail, h))"

text \<open>
  \<open>isr_mkdir_recursive\<close>: the loop replaces every separator after the first character by NUL,
  makes the directory named so far, and puts a slash there (also where a backslash was).
\<close>

fun mkdir_loop :: "host \<Rightarrow> string \<Rightarrow> string \<Rightarrow> host \<times> string" where
  "mkdir_loop h pre [] = (h, pre)"
| "mkdir_loop h pre (c # cs) =
     (if is_sep c then mkdir_loop (snd (os_mkdir h pre)) (pre @ ''/'') cs
      else mkdir_loop h (pre @ [c]) cs)"

definition isr_mkdir_recursive :: "host \<Rightarrow> string \<Rightarrow> int \<times> host" where
  "isr_mkdir_recursive h path =
     (case mkdir_loop h (take 1 (copy_n ISR_PATH_MAX path)) (drop 1 (copy_n ISR_PATH_MAX path)) of
        (h1, tmp) \<Rightarrow>
          (case os_mkdir h1 tmp of
             (MkOk, h2) \<Rightarrow> (0, h2) | (MkExist, h2) \<Rightarrow> (0, h2) | (MkFail, h2) \<Rightarrow> (- 1, h2)))"

definition say :: "string \<Rightarrow> host \<Rightarrow> host" where
  "say line h = h\<lparr>console := console h @ [line]\<rparr>"

definition malloc :: "host \<Rightarrow> nat \<Rightarrow> nat option" where
  "malloc h n = heap_at h n"

end
