(* ===== verification/Lz4_Mem.thy ===== *)
theory Lz4_Mem
  imports Prelude
begin

text \<open>
  The memory routines of \<open>lib/lz4.c\<close> that both directions of the codec use, as they are
  compiled for x86-64 (little endian, 64-bit words, \<open>LZ4_FAST_DEC_LOOP\<close> on).

  A destination buffer is a byte list. A copy is undefined behaviour (\<open>None\<close>) when it leaves
  a buffer, or when a \<open>memcpy\<close> inside the destination overlaps itself; the \<open>wildCopy\<close>
  routines deliberately write past the end they are given, and that overshoot is modelled.
\<close>

section \<open>Constants\<close>

abbreviation (input) MINMATCH :: nat where "MINMATCH \<equiv> 4"
abbreviation (input) WILDCOPYLENGTH :: nat where "WILDCOPYLENGTH \<equiv> 8"
abbreviation (input) LASTLITERALS :: nat where "LASTLITERALS \<equiv> 5"
abbreviation (input) MFLIMIT :: nat where "MFLIMIT \<equiv> 12"
abbreviation (input) MATCH_SAFEGUARD_DISTANCE :: nat where "MATCH_SAFEGUARD_DISTANCE \<equiv> 12"
abbreviation (input) FASTLOOP_SAFE_DISTANCE :: nat where "FASTLOOP_SAFE_DISTANCE \<equiv> 64"
abbreviation (input) ML_BITS :: nat where "ML_BITS \<equiv> 4"
abbreviation (input) ML_MASK :: nat where "ML_MASK \<equiv> 15"
abbreviation (input) RUN_MASK :: nat where "RUN_MASK \<equiv> 15"

section \<open>Loads and copies\<close>

definition byte_at :: "bytes \<Rightarrow> nat \<Rightarrow> u8 option" where
  "byte_at m i = (if i < length m then Some (m ! i) else None)"

definition LZ4_readLE16 :: "bytes \<Rightarrow> nat \<Rightarrow> nat option" where
  "LZ4_readLE16 m i =
     do { bs \<leftarrow> mem_ld m (int i) 2; Some (unat (bs ! 0) + 256 * unat (bs ! 1)) }"

text \<open>A copier moves \<open>n\<close> bytes from offset \<open>s\<close> of its source to offset \<open>d\<close> of the buffer.\<close>

type_synonym copier = "bytes \<Rightarrow> nat \<Rightarrow> int \<Rightarrow> nat \<Rightarrow> bytes option"

definition copy_lit :: "bytes \<Rightarrow> copier" where
  "copy_lit source m d s n = do { bs \<leftarrow> mem_ld source s n; mem_st m (int d) bs }"

definition copy_self :: copier where
  "copy_self m d s n =
     (if 0 < n \<and> s < int (d + n) \<and> int d < s + int n then None
      else do { bs \<leftarrow> mem_ld m s n; mem_st m (int d) bs })"

definition copy_byte :: "bytes \<Rightarrow> nat \<Rightarrow> int \<Rightarrow> bytes option" where
  "copy_byte m d s = do { bs \<leftarrow> mem_ld m s 1; mem_st m (int d) bs }"

function LZ4_wildCopy8 :: "copier \<Rightarrow> bytes \<Rightarrow> nat \<Rightarrow> int \<Rightarrow> nat \<Rightarrow> bytes option" where
  "LZ4_wildCopy8 cp m d s e =
     (case cp m d s 8 of
        None \<Rightarrow> None
      | Some m' \<Rightarrow> if d + 8 < e then LZ4_wildCopy8 cp m' (d + 8) (s + 8) e else Some m')"
  by pat_completeness auto
termination by (relation "measure (\<lambda>(cp, m, d, s, e). e - d)") auto

function LZ4_wildCopy32 :: "copier \<Rightarrow> bytes \<Rightarrow> nat \<Rightarrow> int \<Rightarrow> nat \<Rightarrow> bytes option" where
  "LZ4_wildCopy32 cp m d s e =
     (case cp m d s 16 of
        None \<Rightarrow> None
      | Some m1 \<Rightarrow>
          (case cp m1 (d + 16) (s + 16) 16 of
             None \<Rightarrow> None
           | Some m2 \<Rightarrow> if d + 32 < e then LZ4_wildCopy32 cp m2 (d + 32) (s + 32) e else Some m2))"
  by pat_completeness auto
termination by (relation "measure (\<lambda>(cp, m, d, s, e). e - d)") auto

declare LZ4_wildCopy8.simps [simp del] LZ4_wildCopy32.simps [simp del]

definition inc32table :: "int list" where
  "inc32table = [0, 1, 2, 1, 0, 4, 4, 4]"

definition dec64table :: "int list" where
  "dec64table = [0, 0, 0, - 1, - 4, 1, 2, 3]"

text \<open>
  The first eight bytes of a match at a distance below eight, and the source position after
  them: the statements that \<open>LZ4_memcpy_using_offset_base\<close> and the safe decoding loop share.
\<close>

definition copy_first8 :: "bytes \<Rightarrow> nat \<Rightarrow> int \<Rightarrow> nat \<Rightarrow> (bytes \<times> int) option" where
  "copy_first8 m d s offset =
     (if offset < 8 then
        do {
          m \<leftarrow> mem_st m (int d) [0, 0, 0, 0];
          m \<leftarrow> copy_byte m d s;
          m \<leftarrow> copy_byte m (d + 1) (s + 1);
          m \<leftarrow> copy_byte m (d + 2) (s + 2);
          m \<leftarrow> copy_byte m (d + 3) (s + 3);
          m \<leftarrow> copy_self m (d + 4) (s + inc32table ! offset) 4;
          Some (m, s + inc32table ! offset - dec64table ! offset)
        }
      else do { m \<leftarrow> copy_self m d s 8; Some (m, s + 8) })"

definition LZ4_memcpy_using_offset_base ::
    "bytes \<Rightarrow> nat \<Rightarrow> int \<Rightarrow> nat \<Rightarrow> nat \<Rightarrow> bytes option" where
  "LZ4_memcpy_using_offset_base m d s e offset =
     do { (m, s) \<leftarrow> copy_first8 m d s offset; LZ4_wildCopy8 copy_self m (d + 8) s e }"

text \<open>The loop that stores the eight-byte pattern \<open>v\<close> until the end is reached.\<close>

function store_pattern :: "bytes \<Rightarrow> nat \<Rightarrow> bytes \<Rightarrow> nat \<Rightarrow> bytes option" where
  "store_pattern m d v e =
     (if d < e then
        (case mem_st m (int d) v of None \<Rightarrow> None | Some m' \<Rightarrow> store_pattern m' (d + 8) v e)
      else Some m)"
  by pat_completeness auto
termination by (relation "measure (\<lambda>(m, d, v, e). e - d)") auto

declare store_pattern.simps [simp del]

definition LZ4_memcpy_using_offset ::
    "bytes \<Rightarrow> nat \<Rightarrow> int \<Rightarrow> nat \<Rightarrow> nat \<Rightarrow> bytes option" where
  "LZ4_memcpy_using_offset m d s e offset =
     (let with_pattern = (\<lambda>n k. do {
            x \<leftarrow> mem_ld m s n;
            let v = concat (replicate k x);
            m \<leftarrow> mem_st m (int d) v;
            store_pattern m (d + 8) v e })
      in if offset = 1 then with_pattern 1 8
         else if offset = 2 then with_pattern 2 4
         else if offset = 4 then with_pattern 4 2
         else LZ4_memcpy_using_offset_base m d s e offset)"

text \<open>\<open>while (op < cpy) { *op++ = *match++; }\<close>\<close>

function copy_bytes_to :: "bytes \<Rightarrow> nat \<Rightarrow> int \<Rightarrow> nat \<Rightarrow> bytes option" where
  "copy_bytes_to m d s e =
     (if d < e then
        (case copy_byte m d s of None \<Rightarrow> None | Some m' \<Rightarrow> copy_bytes_to m' (d + 1) (s + 1) e)
      else Some m)"
  by pat_completeness auto
termination by (relation "measure (\<lambda>(m, d, s, e). e - d)") auto

declare copy_bytes_to.simps [simp del]

section \<open>What a match copy computes\<close>

text \<open>
  The format's meaning of a match at distance \<open>off\<close>: byte \<open>j\<close> after position \<open>d\<close> is the byte
  \<open>off\<close> before it, itself possibly part of the match. Distance 0, which the format forbids,
  decodes to zero bytes in this implementation.
\<close>

definition lz_byte :: "bytes \<Rightarrow> nat \<Rightarrow> nat \<Rightarrow> nat \<Rightarrow> u8" where
  "lz_byte m d off j = (if off = 0 then 0 else m ! (d - off + (j - d) mod off))"

text \<open>
  \<open>filled m d g k m'\<close>: \<open>m'\<close> is \<open>m\<close> with the bytes \<open>g\<close> stored from \<open>d\<close> up to \<open>k\<close>; what
  lies beyond is not constrained, which is how the overshoot of the wild copies is absorbed.
\<close>

definition filled :: "bytes \<Rightarrow> nat \<Rightarrow> (nat \<Rightarrow> u8) \<Rightarrow> nat \<Rightarrow> bytes \<Rightarrow> bool" where
  "filled m d g k m' \<longleftrightarrow> length m' = length m \<and> (\<forall>j < d. m' ! j = m ! j) \<and>
     (\<forall>j. d \<le> j \<and> j < k \<longrightarrow> m' ! j = g j)"

abbreviation rep :: "bytes \<Rightarrow> nat \<Rightarrow> nat \<Rightarrow> nat \<Rightarrow> bytes \<Rightarrow> bool" where
  "rep m d off \<equiv> filled m d (lz_byte m d off)"

abbreviation lit_rep :: "bytes \<Rightarrow> nat \<Rightarrow> bytes \<Rightarrow> nat \<Rightarrow> nat \<Rightarrow> bytes \<Rightarrow> bool" where
  "lit_rep m d source i \<equiv> filled m d (\<lambda>j. source ! (i + (j - d)))"

text \<open>A source position from which a copy to \<open>k\<close> continues the pattern.\<close>

definition src_ok :: "nat \<Rightarrow> nat \<Rightarrow> nat \<Rightarrow> int \<Rightarrow> bool" where
  "src_ok d off k s \<longleftrightarrow> s \<le> int k \<and>
     (if off = 0 then int d \<le> s else int d - int off \<le> s \<and> int off dvd int k - s)"

lemma filled_mono: "filled m d g k m' \<Longrightarrow> k' \<le> k \<Longrightarrow> filled m d g k' m'"
  by (auto simp: filled_def)

lemma filled_self: "filled m d g d m"
  by (auto simp: filled_def)

lemma filled_length: "filled m d g k m' \<Longrightarrow> length m' = length m"
  by (simp add: filled_def)

lemma src_ok_shift: "src_ok d off k s \<Longrightarrow> src_ok d off (k + n) (s + int n)"
  by (auto simp: src_ok_def algebra_simps)

lemma rep_read:
  assumes "rep m d off k m'" "off \<le> d" "src_ok d off k (int i)" "i + t < k"
  shows "m' ! (i + t) = lz_byte m d off (k + t)"
proof (cases "off = 0")
  case True
  with assms show ?thesis by (auto simp: filled_def src_ok_def lz_byte_def)
next
  case False
  with assms(3) have low: "d - off \<le> i" and dv: "int off dvd int k - int i" and ik: "i \<le> k"
    by (auto simp: src_ok_def)
  from dv ik have "off dvd k - i"
    by (metis of_nat_diff of_nat_dvd_iff)
  then obtain c where c: "k - i = off * c" by auto
  show ?thesis
  proof (cases "i + t < d")
    case True
    then have "m' ! (i + t) = m ! (i + t)" using assms(1) by (simp add: filled_def)
    moreover obtain c' where "c = Suc c'"
      using c assms(4) by (cases c) auto
    with c ik have k: "k = i + off + off * c'" by simp
    moreover have "d \<le> i + t + off" using low by simp
    then obtain u where u: "i + t + off = d + u" by (metis le_add_diff_inverse)
    have "k + t = d + (u + off * c')" using k u by (metis add.assoc add.commute add.left_commute)
    then have "k + t - d = u + off * c'" by simp
    moreover have "u < off" using u True by simp
    moreover have "i + t = d - off + u" using u assms(2) by simp
    ultimately show ?thesis using False by (simp add: lz_byte_def)
  next
    case False': False
    then have "m' ! (i + t) = lz_byte m d off (i + t)"
      using assms(1,4) by (simp add: filled_def)
    moreover have "k + t - d = (i + t - d) + off * c"
      using c ik False' by linarith
    ultimately show ?thesis using False by (simp add: lz_byte_def)
  qed
qed

lemma filled_store:
  assumes "filled m d g k m'" "d \<le> k" "k + length bs \<le> length m"
    and "\<And>t. t < length bs \<Longrightarrow> bs ! t = g (k + t)"
  shows "mem_st m' (int k) bs = Some (take k m' @ bs @ drop (k + length bs) m') \<and>
    filled m d g (k + length bs) (take k m' @ bs @ drop (k + length bs) m')"
proof -
  have len: "length m' = length m" using assms(1) by (simp add: filled_def)
  have "filled m d g (k + length bs) (take k m' @ bs @ drop (k + length bs) m')"
    unfolding filled_def
  proof (intro conjI allI impI)
    show "length (take k m' @ bs @ drop (k + length bs) m') = length m"
      using assms(3) len by simp
    fix j
    show "j < d \<Longrightarrow> (take k m' @ bs @ drop (k + length bs) m') ! j = m ! j"
      using assms len by (subst nth_splice) (auto simp: filled_def)
    assume j: "d \<le> j \<and> j < k + length bs"
    show "(take k m' @ bs @ drop (k + length bs) m') ! j = g j"
    proof (cases "j < k")
      case True
      with assms len j show ?thesis by (subst nth_splice) (auto simp: filled_def)
    next
      case False
      with assms(3) assms(4) [of "j - k"] len j show ?thesis
        by (subst nth_splice) auto
    qed
  qed
  with assms(3) len show ?thesis by simp
qed

lemma copy_self_rep:
  assumes "rep m d off k m'" "off \<le> d" "d \<le> k" "src_ok d off k s" "s + int n \<le> int k"
    "k + n \<le> length m"
  shows "\<exists>m''. copy_self m' k s n = Some m'' \<and> rep m d off (k + n) m''"
proof -
  from assms(2,4) have "0 \<le> s" by (auto simp: src_ok_def split: if_splits)
  then obtain i where s: "s = int i" using nonneg_int_cases by blast
  have len: "length m' = length m" using assms(1) by (simp add: filled_def)
  define bs where "bs = take n (drop i m')"
  have bs: "length bs = n" "\<And>t. t < n \<Longrightarrow> bs ! t = m' ! (i + t)"
    using assms(5,6) len s by (auto simp: bs_def)
  have ld: "mem_ld m' s n = Some bs"
    using assms(5,6) len s by (simp add: bs_def)
  have "\<And>t. t < length bs \<Longrightarrow> bs ! t = lz_byte m d off (k + t)"
    using bs rep_read [OF assms(1,2)] assms(4,5) s by auto
  from filled_store [OF assms(1,3) _ this] ld bs(1) assms(5,6) s show ?thesis
    by (auto simp: copy_self_def)
qed

lemma copy_byte_rep:
  assumes "rep m d off k m'" "off \<le> d" "d \<le> k" "src_ok d off k s" "s < int k"
    "k < length m"
  shows "\<exists>m''. copy_byte m' k s = Some m'' \<and> rep m d off (k + 1) m''"
  using copy_self_rep [OF assms(1-4), of 1] assms(5,6)
  by (simp add: copy_byte_def copy_self_def)

lemma copy_lit_rep:
  assumes "lit_rep m d source i k m'" "d \<le> k" "i + (k - d) + n \<le> length source" "k + n \<le> length m"
  shows "\<exists>m''. copy_lit source m' k (int i + int (k - d)) n = Some m'' \<and>
    lit_rep m d source i (k + n) m''"
proof -
  define bs where "bs = take n (drop (i + (k - d)) source)"
  have s: "int i + int (k - d) = int (i + (k - d))" by simp
  have ld: "mem_ld source (int i + int (k - d)) n = Some bs"
    unfolding s bs_def using assms(3) by (intro mem_ld_in) simp
  have bs: "length bs = n" "\<And>t. t < length bs \<Longrightarrow> bs ! t = source ! (i + (k + t - d))"
    using assms(2,3) by (auto simp: bs_def add.assoc)
  from filled_store [OF assms(1,2) _ bs(2)] ld bs(1) assms(4) show ?thesis
    by (auto simp: copy_lit_def)
qed

section \<open>The copying loops\<close>

text \<open>
  A wild copy to \<open>e\<close> fills at least up to \<open>e\<close>, if every block it writes lies below \<open>L\<close>, where
  one step of the copier extends the filled part.
\<close>

lemma wildCopy8_filled:
  assumes "\<And>k m'. k0 \<le> k \<Longrightarrow> k + 8 \<le> L \<Longrightarrow> filled m d g k m' \<Longrightarrow>
      \<exists>m''. cp m' k (int k + D) 8 = Some m'' \<and> filled m d g (k + 8) m''"
    and "filled m d g k m0" "k0 \<le> k" "k + 8 \<le> L" "e + 7 \<le> L"
  shows "\<exists>m'' K. LZ4_wildCopy8 cp m0 k (int k + D) e = Some m'' \<and> filled m d g K m'' \<and>
    e \<le> K \<and> k + 8 \<le> K"
  using assms(2-5)
proof (induction "e - k" arbitrary: k m0 rule: less_induct)
  case less
  obtain m1 where m1: "cp m0 k (int k + D) 8 = Some m1" "filled m d g (k + 8) m1"
    using assms(1) less.prems by blast
  show ?case
  proof (cases "k + 8 < e")
    case True
    then have "\<exists>m'' K. LZ4_wildCopy8 cp m1 (k + 8) (int (k + 8) + D) e = Some m'' \<and>
        filled m d g K m'' \<and> e \<le> K \<and> k + 8 + 8 \<le> K"
      using less.prems m1 by (intro less.hyps) auto
    then obtain m'' K where "LZ4_wildCopy8 cp m1 (k + 8) (int (k + 8) + D) e = Some m''"
      "filled m d g K m''" "e \<le> K" "k + 8 + 8 \<le> K" by blast
    with m1 True show ?thesis
      by (subst LZ4_wildCopy8.simps) (auto simp: algebra_simps intro!: exI [of _ K])
  next
    case False
    with m1 show ?thesis
      by (subst LZ4_wildCopy8.simps) (auto intro!: exI [of _ "k + 8"])
  qed
qed

lemma wildCopy32_filled:
  assumes "\<And>k m'. k0 \<le> k \<Longrightarrow> k + 16 \<le> L \<Longrightarrow> filled m d g k m' \<Longrightarrow>
      \<exists>m''. cp m' k (int k + D) 16 = Some m'' \<and> filled m d g (k + 16) m''"
    and "filled m d g k m0" "k0 \<le> k" "k + 32 \<le> L" "e + 31 \<le> L"
  shows "\<exists>m'' K. LZ4_wildCopy32 cp m0 k (int k + D) e = Some m'' \<and> filled m d g K m'' \<and> e \<le> K"
  using assms(2-5)
proof (induction "e - k" arbitrary: k m0 rule: less_induct)
  case less
  obtain m1 where m1: "cp m0 k (int k + D) 16 = Some m1" "filled m d g (k + 16) m1"
    using assms(1) [of k m0] less.prems by auto
  obtain m2 where m2: "cp m1 (k + 16) (int (k + 16) + D) 16 = Some m2" "filled m d g (k + 32) m2"
    using assms(1) [of "k + 16" m1] less.prems m1 by (auto simp: add.assoc)
  show ?case
  proof (cases "k + 32 < e")
    case True
    then have "\<exists>m'' K. LZ4_wildCopy32 cp m2 (k + 32) (int (k + 32) + D) e = Some m'' \<and>
        filled m d g K m'' \<and> e \<le> K"
      using less.prems m2 by (intro less.hyps) auto
    then obtain m'' K where "LZ4_wildCopy32 cp m2 (k + 32) (int (k + 32) + D) e = Some m''"
      "filled m d g K m''" "e \<le> K" by blast
    with m1 m2 True show ?thesis
      by (subst LZ4_wildCopy32.simps) (auto simp: algebra_simps intro!: exI [of _ K])
  next
    case False
    with m1 m2 show ?thesis
      by (subst LZ4_wildCopy32.simps) (auto simp: algebra_simps intro!: exI [of _ "k + 32"])
  qed
qed

lemma store_pattern_filled:
  assumes "filled m d g k m0" "d \<le> k" "e + 7 \<le> length m" "length v = 8"
    and "\<And>t q. t < 8 \<Longrightarrow> v ! t = g (d + 8 * q + t)" "8 dvd k - d"
  shows "\<exists>m'' K. store_pattern m0 k v e = Some m'' \<and> filled m d g K m'' \<and> e \<le> K"
  using assms(1,2,6)
proof (induction "e - k" arbitrary: k m0 rule: less_induct)
  case less
  show ?case
  proof (cases "k < e")
    case True
    from less.prems(2,3) obtain q where "k = d + 8 * q"
      by (metis dvd_def le_add_diff_inverse)
    then have "\<And>t. t < length v \<Longrightarrow> v ! t = g (k + t)"
      using assms(4,5) by simp
    from filled_store [OF less.prems(1,2) _ this] assms(3,4) True
    have st: "mem_st m0 (int k) v = Some (take k m0 @ v @ drop (k + 8) m0)"
      "filled m d g (k + 8) (take k m0 @ v @ drop (k + 8) m0)" by auto
    have "8 dvd k + 8 - d" using less.prems(2,3) by (metis Nat.add_diff_assoc2 dvd_add dvd_refl)
    then have "\<exists>m'' K. store_pattern (take k m0 @ v @ drop (k + 8) m0) (k + 8) v e = Some m'' \<and>
        filled m d g K m'' \<and> e \<le> K"
      using True less.prems st by (intro less.hyps) auto
    with st True show ?thesis by (subst store_pattern.simps) auto
  next
    case False
    with less.prems show ?thesis
      by (subst store_pattern.simps) (auto intro!: exI [of _ k])
  qed
qed

section \<open>The match copies\<close>

lemma src_ok_start: "off \<le> d \<Longrightarrow> src_ok d off d (int d - int off)"
  by (simp add: src_ok_def)

lemma src_ok_step: "src_ok d off k s \<Longrightarrow> k \<le> k' \<Longrightarrow> src_ok d off k' (int k' + (s - int k))"
  by (auto simp: src_ok_def)

lemma copy_byte_same:
  assumes "k < length m"
  shows "copy_byte m k (int k) = Some m"
proof -
  have "take 1 (drop k m) = [m ! k]"
    using assms by (simp add: take_Suc hd_drop_conv_nth)
  then show ?thesis
    using assms id_take_nth_drop [OF assms]
    by (simp add: copy_byte_def mem_ld_def mem_st_def)
qed

lemma rep_zeros:
  assumes "d + 4 \<le> length m"
  obtains m' where "mem_st m (int d) [0, 0, 0, 0] = Some m'" "rep m d 0 (d + 4) m'"
    "rep m d off d m'"
proof -
  define bs where "bs = [0, 0, 0, 0 :: u8]"
  have len: "length bs = 4" by (simp add: bs_def)
  have bs: "t < length bs \<Longrightarrow> bs ! t = lz_byte m d 0 (d + t)" for t
    by (auto simp: bs_def lz_byte_def less_Suc_eq)
  define m' where "m' = take d m @ bs @ drop (d + 4) m"
  have "mem_st m (int d) bs = Some m'" "rep m d 0 (d + 4) m'"
    using filled_store [OF filled_self order_refl _ bs] assms unfolding len m'_def by auto
  moreover have "rep m d off d m'"
    using \<open>rep m d 0 (d + 4) m'\<close> by (auto simp: filled_def)
  ultimately show ?thesis using that unfolding bs_def by blast
qed

lemma copy_first8_rep:
  assumes "off \<le> d" "d + 8 \<le> length m"
  obtains m' s' where "copy_first8 m d (int d - int off) off = Some (m', s')"
    "rep m d off (d + 8) m'" "src_ok d off (d + 8) s'" "s' \<le> int d"
proof (cases "off < 8")
  case False
  have "\<exists>m''. copy_self m d (int d - int off) 8 = Some m'' \<and> rep m d off (d + 8) m''"
    using assms False by (intro copy_self_rep filled_self src_ok_start) auto
  with that [of _ "int d - int off + 8"] src_ok_shift [OF src_ok_start [OF assms(1)], of 8] False
  show ?thesis by (auto simp: copy_first8_def)
next
  case True
  obtain m1 where m1: "mem_st m (int d) [0, 0, 0, 0] = Some m1" "rep m d 0 (d + 4) m1"
    "rep m d off d m1"
    using rep_zeros [of d m off] assms(2) by auto
  define s where "s = int d - int off"
  have "\<exists>m5. do { m \<leftarrow> copy_byte m1 d s; m \<leftarrow> copy_byte m (d + 1) (s + 1);
      m \<leftarrow> copy_byte m (d + 2) (s + 2); copy_byte m (d + 3) (s + 3) } = Some m5 \<and>
      rep m d off (d + 4) m5"
  proof (cases "off = 0")
    case True
    then have "s = int d" by (simp add: s_def)
    moreover have "d + 4 \<le> length m1" using assms(2) m1(2) by (simp add: filled_def)
    ultimately have same: "i < 4 \<Longrightarrow> copy_byte m1 (d + i) (s + int i) = Some m1" for i
      using copy_byte_same [of "d + i" m1] by simp
    show ?thesis
      using m1(2) True same [of 0] same [of 1] same [of 2] same [of 3] by simp
  next
    case False
    have ok: "src_ok d off (d + i) (s + int i)" for i
      unfolding s_def by (intro src_ok_shift src_ok_start assms(1))
    have step: "\<exists>m''. copy_byte m' (d + i) (s + int i) = Some m'' \<and> rep m d off (d + i + 1) m''"
      if "rep m d off (d + i) m'" "i < 4" for m' i
      using that assms False ok [of i] by (intro copy_byte_rep) (auto simp: s_def)
    obtain m2 where m2: "copy_byte m1 d s = Some m2" "rep m d off (d + 1) m2"
      using step [of 0 m1] m1(3) by (auto simp: eval_nat_numeral)
    obtain m3 where m3: "copy_byte m2 (d + 1) (s + 1) = Some m3" "rep m d off (d + 2) m3"
      using step [of 1 m2] m2(2) by (auto simp: eval_nat_numeral)
    obtain m4 where m4: "copy_byte m3 (d + 2) (s + 2) = Some m4" "rep m d off (d + 3) m4"
      using step [of 2 m3] m3(2) by (auto simp: eval_nat_numeral)
    obtain m5 where m5: "copy_byte m4 (d + 3) (s + 3) = Some m5" "rep m d off (d + 4) m5"
      using step [of 3 m4] m4(2) by (auto simp: eval_nat_numeral)
    from m2 m3 m4 m5 show ?thesis by simp
  qed
  then obtain m5 where m5: "do { m \<leftarrow> copy_byte m1 d s; m \<leftarrow> copy_byte m (d + 1) (s + 1);
      m \<leftarrow> copy_byte m (d + 2) (s + 2); copy_byte m (d + 3) (s + 3) } = Some m5"
    "rep m d off (d + 4) m5" by blast
  have "off \<in> {0, 1, 2, 3, 4, 5, 6, 7}" using True by auto
  then have tables: "src_ok d off (d + 4) (s + inc32table ! off)" "s + inc32table ! off \<le> int d"
    "src_ok d off (d + 8) (s + inc32table ! off - dec64table ! off)"
    "s + inc32table ! off - dec64table ! off \<le> int d"
    using assms(1) by (auto simp: s_def src_ok_def inc32table_def dec64table_def)
  obtain m6 where m6: "copy_self m5 (d + 4) (s + inc32table ! off) 4 = Some m6"
    "rep m d off (d + 8) m6"
    using copy_self_rep [OF m5(2) assms(1) _ tables(1), of 4] tables(2) assms(2)
    by (auto simp: add.commute)
  have "copy_first8 m d s off = Some (m6, s + inc32table ! off - dec64table ! off)"
    using True m1(1) m5(1) m6(1) by (auto simp: copy_first8_def bind_eq_Some_conv)
  with that m6(2) tables show ?thesis by (simp add: s_def)
qed

lemma wildCopy8_self_rep:
  assumes "rep m d off k m'" "off \<le> d" "d \<le> k" "src_ok d off k s" "s + 8 \<le> int k"
    "k + 8 \<le> length m" "e + 7 \<le> length m"
  shows "\<exists>m'' K. LZ4_wildCopy8 copy_self m' k s e = Some m'' \<and> rep m d off K m'' \<and>
    e \<le> K \<and> k + 8 \<le> K"
proof -
  have "\<exists>m'' K. LZ4_wildCopy8 copy_self m' k (int k + (s - int k)) e = Some m'' \<and>
      rep m d off K m'' \<and> e \<le> K \<and> k + 8 \<le> K"
  proof (rule wildCopy8_filled [OF _ assms(1) order_refl assms(6,7)])
    fix k' m'
    assume a: "k \<le> k'" "k' + 8 \<le> length m" "rep m d off k' m'"
    then show "\<exists>m''. copy_self m' k' (int k' + (s - int k)) 8 = Some m'' \<and> rep m d off (k' + 8) m''"
      using assms by (intro copy_self_rep src_ok_step [OF assms(4)]) auto
  qed
  then show ?thesis by simp
qed

lemma LZ4_memcpy_using_offset_base_rep:
  assumes "off \<le> d" "d + 16 \<le> length m" "e + 7 \<le> length m"
  shows "\<exists>m' K. LZ4_memcpy_using_offset_base m d (int d - int off) e off = Some m' \<and>
    rep m d off K m' \<and> e \<le> K"
proof -
  obtain m1 s1 where 1: "copy_first8 m d (int d - int off) off = Some (m1, s1)"
    "rep m d off (d + 8) m1" "src_ok d off (d + 8) s1" "s1 \<le> int d"
    using copy_first8_rep [OF assms(1)] assms(2) by (metis add_leD1 add.assoc numeral_Bit0)
  obtain m2 K where "LZ4_wildCopy8 copy_self m1 (d + 8) s1 e = Some m2" "rep m d off K m2" "e \<le> K"
    using wildCopy8_self_rep [OF 1(2) assms(1) _ 1(3), of e] 1(4) assms(2,3) by auto
  with 1(1) show ?thesis by (auto simp: LZ4_memcpy_using_offset_base_def)
qed

lemma pattern_rep:
  assumes "off \<in> {1, 2, 4}" "off \<le> d" "d + 8 \<le> length m" "e + 7 \<le> length m"
  shows "\<exists>m' K. do {
      x \<leftarrow> mem_ld m (int d - int off) off;
      let v = concat (replicate (8 div off) x);
      m \<leftarrow> mem_st m (int d) v;
      store_pattern m (d + 8) v e } = Some m' \<and> rep m d off K m' \<and> e \<le> K"
proof -
  define x where "x = take off (drop (d - off) m)"
  define v where "v = concat (replicate (8 div off) x)"
  have x: "length x = off" "\<And>t. t < off \<Longrightarrow> x ! t = m ! (d - off + t)"
    using assms(2,3) by (auto simp: x_def)
  have ld: "mem_ld m (int d - int off) off = Some x"
    using assms(2,3) mem_ld_in [of "d - off" off m] by (simp add: x_def of_nat_diff)
  have len: "length v = 8"
    using assms(1) x(1) by (auto simp: v_def length_concat sum_list_replicate)
  have "v = map (\<lambda>t. x ! (t mod off)) [0..<8]"
  proof -
    have up: "[0..<8] = [0, 1, 2, 3, 4, 5, 6, 7 :: nat]" by code_simp
    have "off = 1 \<and> (\<exists>a. x = [a]) \<or> off = 2 \<and> (\<exists>a b. x = [a, b]) \<or>
        off = 4 \<and> (\<exists>a b c e. x = [a, b, c, e])"
      using assms(1) x(1) by (auto simp: length_Suc_conv eval_nat_numeral)
    moreover have "concat (replicate 8 [a]) = [a, a, a, a, a, a, a, a]"
      "concat (replicate 4 [a, b]) = [a, b, a, b, a, b, a, b]"
      "concat (replicate 2 [a, b, c, e]) = [a, b, c, e, a, b, c, e]" for a b c e :: u8
      by (simp_all add: numeral_eq_Suc)
    ultimately show ?thesis unfolding v_def up by (elim disjE exE conjE) simp_all
  qed
  then have vt: "t < 8 \<Longrightarrow> v ! t = m ! (d - off + t mod off)" for t
    using x(2) [of "t mod off"] assms(1) by auto
  have pat: "t < 8 \<Longrightarrow> v ! t = lz_byte m d off (d + 8 * q + t)" for t q
  proof -
    assume "t < 8"
    have "(8 * q + t) mod 2 = t mod 2" "(8 * q + t) mod 4 = t mod 4" by presburger+
    then have "(8 * q + t) mod off = t mod off" using assms(1) by auto
    with vt [OF \<open>t < 8\<close>] assms(1) show "v ! t = lz_byte m d off (d + 8 * q + t)"
      by (auto simp: lz_byte_def add.assoc)
  qed
  have "\<And>t. t < length v \<Longrightarrow> v ! t = lz_byte m d off (d + t)"
    using pat [of _ 0] len by simp
  from filled_store [OF filled_self order_refl _ this] assms(3) len
  obtain m1 where m1: "mem_st m (int d) v = Some m1" "rep m d off (d + 8) m1" by auto
  have "\<exists>m'' K. store_pattern m1 (d + 8) v e = Some m'' \<and> rep m d off K m'' \<and> e \<le> K"
    using store_pattern_filled [OF m1(2) _ assms(4) len pat] by auto
  with ld m1(1) show ?thesis by (auto simp: v_def Let_def)
qed

lemma LZ4_memcpy_using_offset_rep:
  assumes "off \<le> d" "d + 16 \<le> length m" "e + 7 \<le> length m"
  shows "\<exists>m' K. LZ4_memcpy_using_offset m d (int d - int off) e off = Some m' \<and>
    rep m d off K m' \<and> e \<le> K"
proof (cases "off \<in> {1, 2, 4}")
  case True
  then show ?thesis
    using pattern_rep [OF True assms(1) _ assms(3)] assms(2)
    by (auto simp: LZ4_memcpy_using_offset_def Let_def)
next
  case False
  then show ?thesis
    using LZ4_memcpy_using_offset_base_rep [OF assms]
    by (auto simp: LZ4_memcpy_using_offset_def Let_def)
qed

lemma wildCopy32_self_rep:
  assumes "16 \<le> off" "off \<le> d" "d + 32 \<le> length m" "e + 31 \<le> length m"
  shows "\<exists>m' K. LZ4_wildCopy32 copy_self m d (int d - int off) e = Some m' \<and>
    rep m d off K m' \<and> e \<le> K"
proof -
  have "\<exists>m' K. LZ4_wildCopy32 copy_self m d (int d + - int off) e = Some m' \<and>
      rep m d off K m' \<and> e \<le> K"
  proof (rule wildCopy32_filled [OF _ filled_self order_refl assms(3,4)])
    fix k m'
    assume a: "d \<le> k" "k + 16 \<le> length m" "rep m d off k m'"
    have "src_ok d off k (int k + - int off)"
      using src_ok_step [OF src_ok_start [OF assms(2)] a(1)] by simp
    with a assms show "\<exists>m''. copy_self m' k (int k + - int off) 16 = Some m'' \<and>
        rep m d off (k + 16) m''"
      by (intro copy_self_rep) auto
  qed
  then show ?thesis by simp
qed

text \<open>The copy of 18 bytes in three pieces that the shortcuts use.\<close>

lemma copy18_rep:
  assumes "8 \<le> off" "off \<le> d" "d + 18 \<le> length m"
  shows "\<exists>m'. do {
      m \<leftarrow> copy_self m d (int d - int off) 8;
      m \<leftarrow> copy_self m (d + 8) (int d - int off + 8) 8;
      copy_self m (d + 16) (int d - int off + 16) 2 } = Some m' \<and> rep m d off (d + 18) m'"
proof -
  have ok: "src_ok d off (d + i) (int d - int off + int i)" for i
    by (intro src_ok_shift src_ok_start assms(2))
  obtain m1 where 1: "copy_self m d (int d - int off) 8 = Some m1" "rep m d off (d + 8) m1"
    using copy_self_rep [OF filled_self assms(2) order_refl, where n = 8 and s = "int d - int off" and m = m] ok [of 0] assms by auto
  obtain m2 where 2: "copy_self m1 (d + 8) (int d - int off + 8) 8 = Some m2" "rep m d off (d + 16) m2"
    using copy_self_rep [OF 1(2) assms(2), of "int d - int off + 8" 8] ok [of 8] assms
    by (auto simp: add.assoc)
  obtain m3 where 3: "copy_self m2 (d + 16) (int d - int off + 16) 2 = Some m3" "rep m d off (d + 18) m3"
    using copy_self_rep [OF 2(2) assms(2), of "int d - int off + 16" 2] ok [of 16] assms
    by (auto simp: add.commute)
  from 1 2 3 show ?thesis by simp
qed

lemma copy_bytes_to_rep:
  assumes "rep m d off k m'" "off \<le> d" "d \<le> k" "src_ok d off k s" "s < int k" "e \<le> length m"
  shows "\<exists>m'' K. copy_bytes_to m' k s e = Some m'' \<and> rep m d off K m'' \<and> e \<le> K \<and> k \<le> K"
  using assms(1,3-5)
proof (induction "e - k" arbitrary: k m' s rule: less_induct)
  case less
  show ?case
  proof (cases "k < e")
    case True
    then obtain m1 where m1: "copy_byte m' k s = Some m1" "rep m d off (k + 1) m1"
      using copy_byte_rep [OF less.prems(1) assms(2) less.prems(2-4)] assms(6) by auto
    have "\<exists>m'' K. copy_bytes_to m1 (k + 1) (s + 1) e = Some m'' \<and> rep m d off K m'' \<and>
        e \<le> K \<and> k + 1 \<le> K"
      using True less.prems m1 src_ok_shift [OF less.prems(3), of 1] by (intro less.hyps) auto
    then obtain m'' K where "copy_bytes_to m1 (k + 1) (s + 1) e = Some m''" "rep m d off K m''"
      "e \<le> K" "k + 1 \<le> K" by blast
    with m1 True show ?thesis
      by (subst copy_bytes_to.simps) (auto intro!: exI [of _ K])
  next
    case False
    with less.prems show ?thesis
      by (subst copy_bytes_to.simps) (auto intro!: exI [of _ k])
  qed
qed

section \<open>The literal copies\<close>

lemma copy_lit_direct:
  assumes "i + n \<le> length source" "d + n \<le> length m"
  shows "\<exists>m'. copy_lit source m d (int i) n = Some m' \<and> lit_rep m d source i (d + n) m'"
  using copy_lit_rep [OF filled_self order_refl, of i d n source m] assms
  by (simp add: filled_self)

lemma wildCopy8_lit_rep:
  assumes "i + (e - d) + 7 \<le> length source" "i + 8 \<le> length source" "d \<le> e"
    "d + 8 \<le> length m" "e + 7 \<le> length m"
  shows "\<exists>m' K. LZ4_wildCopy8 (copy_lit source) m d (int i) e = Some m' \<and>
    lit_rep m d source i K m' \<and> e \<le> K"
proof -
  define L where "L = min (length m) (d + (length source - i))"
  have "\<exists>m'' K. LZ4_wildCopy8 (copy_lit source) m d (int d + (int i - int d)) e = Some m'' \<and>
      lit_rep m d source i K m'' \<and> e \<le> K \<and> d + 8 \<le> K"
  proof (rule wildCopy8_filled [OF _ filled_self order_refl, where L = L])
    show "d + 8 \<le> L" "e + 7 \<le> L" using assms by (auto simp: L_def)
    fix k m'
    assume a: "d \<le> k" "k + 8 \<le> L" "lit_rep m d source i k m'"
    have eq: "int k + (int i - int d) = int i + int (k - d)" using a(1) by simp
    from a show "\<exists>m''. copy_lit source m' k (int k + (int i - int d)) 8 = Some m'' \<and>
        lit_rep m d source i (k + 8) m''"
      unfolding eq by (intro copy_lit_rep) (auto simp: L_def)
  qed
  then show ?thesis by auto
qed

lemma wildCopy32_lit_rep:
  assumes "i + (e - d) + 31 \<le> length source" "i + 32 \<le> length source" "d \<le> e"
    "d + 32 \<le> length m" "e + 31 \<le> length m"
  shows "\<exists>m' K. LZ4_wildCopy32 (copy_lit source) m d (int i) e = Some m' \<and>
    lit_rep m d source i K m' \<and> e \<le> K"
proof -
  define L where "L = min (length m) (d + (length source - i))"
  have "\<exists>m'' K. LZ4_wildCopy32 (copy_lit source) m d (int d + (int i - int d)) e = Some m'' \<and>
      lit_rep m d source i K m'' \<and> e \<le> K"
  proof (rule wildCopy32_filled [OF _ filled_self order_refl, where L = L])
    show "d + 32 \<le> L" "e + 31 \<le> L" using assms by (auto simp: L_def)
    fix k m'
    assume a: "d \<le> k" "k + 16 \<le> L" "lit_rep m d source i k m'"
    have eq: "int k + (int i - int d) = int i + int (k - d)" using a(1) by simp
    from a show "\<exists>m''. copy_lit source m' k (int k + (int i - int d)) 16 = Some m'' \<and>
        lit_rep m d source i (k + 16) m''"
      unfolding eq by (intro copy_lit_rep) (auto simp: L_def)
  qed
  then show ?thesis by auto
qed

end
