(* ===== verification/Lz4_Enc.thy ===== *)
theory Lz4_Enc
  imports Lz4_Mem
begin

text \<open>
  \<open>LZ4_compress_default\<close> of \<open>lib/lz4.c\<close>: the instances of \<open>LZ4_compress_generic\<close> it reaches
  on a 64-bit machine, that is a fresh context (\<open>currentOffset == 0\<close>, hash table zeroed), no
  dictionary (\<open>noDict\<close>, \<open>noDictIssue\<close>), a table of 16-bit or 32-bit indices (\<open>byU16\<close>,
  \<open>byU32\<close>), and an output that is \<open>notLimited\<close> or \<open>limitedOutput\<close>. Pointers are offsets
  into the source (\<open>ip\<close>, \<open>match\<close>, \<open>anchor\<close>) and the destination (\<open>op\<close>, \<open>token\<close>).

  Every load, store and table access is checked: \<open>None\<close> is undefined behaviour. The
  destination buffer can be larger than \<open>maxOutputSize\<close>, which is only a budget.
\<close>

section \<open>Loads and stores\<close>

definition le_dec :: "bytes \<Rightarrow> nat" where
  "le_dec bs = be_dec (rev bs)"

definition LZ4_read16 :: "bytes \<Rightarrow> nat \<Rightarrow> u16 option" where
  "LZ4_read16 m i = do { bs \<leftarrow> mem_ld m (int i) 2; Some (word_of_nat (le_dec bs)) }"

definition LZ4_read32 :: "bytes \<Rightarrow> nat \<Rightarrow> u32 option" where
  "LZ4_read32 m i = do { bs \<leftarrow> mem_ld m (int i) 4; Some (word_of_nat (le_dec bs)) }"

definition LZ4_read_ARCH :: "bytes \<Rightarrow> nat \<Rightarrow> u64 option" where
  "LZ4_read_ARCH m i = do { bs \<leftarrow> mem_ld m (int i) 8; Some (word_of_nat (le_dec bs)) }"

definition LZ4_writeLE16 :: "bytes \<Rightarrow> nat \<Rightarrow> u16 \<Rightarrow> bytes option" where
  "LZ4_writeLE16 m i v = mem_st m (int i) [ucast v, ucast (drop_bit 8 v)]"

definition LZ4_write32 :: "bytes \<Rightarrow> nat \<Rightarrow> u32 \<Rightarrow> bytes option" where
  "LZ4_write32 m i v =
     mem_st m (int i) [ucast v, ucast (drop_bit 8 v), ucast (drop_bit 16 v), ucast (drop_bit 24 v)]"

section \<open>Counting common bytes\<close>

text \<open>\<open>__builtin_ctzll\<close> on a value that is not 0\<close>

fun ctz :: "nat \<Rightarrow> nat" where
  "ctz n = (if n = 0 \<or> odd n then 0 else Suc (ctz (n div 2)))"

declare ctz.simps [simp del]

definition LZ4_NbCommonBytes :: "u64 \<Rightarrow> nat" where
  "LZ4_NbCommonBytes val = ctz (unat val) div 8"

text \<open>
  The loop over whole words; \<open>Inl\<close> is a return from inside it. The first comparison, which
  the code has before the loop, is the loop's body.
\<close>

function count_loop :: "bytes \<Rightarrow> nat \<Rightarrow> nat \<Rightarrow> nat \<Rightarrow> (nat + nat \<times> nat) option" where
  "count_loop source pIn pMatch pInLimit =
     (if pIn + 7 < pInLimit then
        do {
          a \<leftarrow> LZ4_read_ARCH source pMatch;
          b \<leftarrow> LZ4_read_ARCH source pIn;
          let diff = a XOR b;
          if diff = 0 then count_loop source (pIn + 8) (pMatch + 8) pInLimit
          else Some (Inl (pIn + LZ4_NbCommonBytes diff)) }
      else Some (Inr (pIn, pMatch)))"
  by pat_completeness auto
termination by (relation "measure (\<lambda>(source, pIn, pMatch, limit). limit - pIn)") auto

declare count_loop.simps [simp del]

definition LZ4_count :: "bytes \<Rightarrow> nat \<Rightarrow> nat \<Rightarrow> nat \<Rightarrow> nat option" where
  "LZ4_count source pStart pMatch pInLimit =
     do {
       r \<leftarrow> count_loop source pStart pMatch pInLimit;
       case r of
         Inl pIn \<Rightarrow> Some (pIn - pStart)
       | Inr (pIn, pMatch) \<Rightarrow>
           do {
             (pIn, pMatch) \<leftarrow>
               (if pIn + 3 < pInLimit then
                  do {
                    a \<leftarrow> LZ4_read32 source pMatch;
                    b \<leftarrow> LZ4_read32 source pIn;
                    Some (if a = b then (pIn + 4, pMatch + 4) else (pIn, pMatch)) }
                else Some (pIn, pMatch));
             (pIn, pMatch) \<leftarrow>
               (if pIn + 1 < pInLimit then
                  do {
                    a \<leftarrow> LZ4_read16 source pMatch;
                    b \<leftarrow> LZ4_read16 source pIn;
                    Some (if a = b then (pIn + 2, pMatch + 2) else (pIn, pMatch)) }
                else Some (pIn, pMatch));
             pIn \<leftarrow>
               (if pIn < pInLimit then
                  do {
                    a \<leftarrow> byte_at source pMatch;
                    b \<leftarrow> byte_at source pIn;
                    Some (if a = b then pIn + 1 else pIn) }
                else Some pIn);
             Some (pIn - pStart) } }"

section \<open>The bound\<close>

abbreviation (input) LZ4_MAX_INPUT_SIZE :: int where "LZ4_MAX_INPUT_SIZE \<equiv> 0x7E000000"

text \<open>A negative \<open>int\<close> is above the maximum once converted to \<open>unsigned\<close>.\<close>

definition LZ4_compressBound :: "int \<Rightarrow> int" where
  "LZ4_compressBound isize =
     (if isize < 0 \<or> LZ4_MAX_INPUT_SIZE < isize then 0 else isize + isize div 255 + 16)"

section \<open>The hash table\<close>

datatype tableType = byU32 | byU16

datatype limitedOutput_directive = notLimited | limitedOutput

type_synonym hash_table = "nat \<Rightarrow> nat"

abbreviation (input) LZ4_HASHLOG :: nat where "LZ4_HASHLOG \<equiv> 12"
abbreviation (input) LZ4_DISTANCE_MAX :: nat where "LZ4_DISTANCE_MAX \<equiv> 65535"
abbreviation (input) LZ4_minLength :: nat where "LZ4_minLength \<equiv> 13"
abbreviation (input) LZ4_64Klimit :: int where "LZ4_64Klimit \<equiv> 65547"

definition LZ4_hash4 :: "u32 \<Rightarrow> tableType \<Rightarrow> nat" where
  "LZ4_hash4 s tableType =
     (if tableType = byU16 then unat (drop_bit (MINMATCH * 8 - (LZ4_HASHLOG + 1)) (s * 2654435761))
      else unat (drop_bit (MINMATCH * 8 - LZ4_HASHLOG) (s * 2654435761)))"

definition LZ4_hash5 :: "u64 \<Rightarrow> tableType \<Rightarrow> nat" where
  "LZ4_hash5 s tableType =
     (let hashLog = (if tableType = byU16 then LZ4_HASHLOG + 1 else LZ4_HASHLOG)
      in unat (drop_bit (64 - hashLog) (push_bit 24 s * 889523592379)))"

definition LZ4_hashPosition :: "bytes \<Rightarrow> nat \<Rightarrow> tableType \<Rightarrow> nat option" where
  "LZ4_hashPosition source p tableType =
     (if tableType \<noteq> byU16 then do { s \<leftarrow> LZ4_read_ARCH source p; Some (LZ4_hash5 s tableType) }
      else do { s \<leftarrow> LZ4_read32 source p; Some (LZ4_hash4 s tableType) })"

text \<open>The table has \<open>1 << LZ4_MEMORY_USAGE\<close> bytes.\<close>

definition table_size :: "tableType \<Rightarrow> nat" where
  "table_size tableType = (case tableType of byU32 \<Rightarrow> 4096 | byU16 \<Rightarrow> 8192)"

definition LZ4_putIndexOnHash :: "nat \<Rightarrow> nat \<Rightarrow> hash_table \<Rightarrow> tableType \<Rightarrow> hash_table option" where
  "LZ4_putIndexOnHash idx h hashTable tableType =
     (if h < table_size tableType then
        Some (hashTable(h := (case tableType of byU32 \<Rightarrow> idx mod 2 ^ 32 | byU16 \<Rightarrow> idx mod 2 ^ 16)))
      else None)"

definition LZ4_getIndexOnHash :: "nat \<Rightarrow> hash_table \<Rightarrow> tableType \<Rightarrow> nat option" where
  "LZ4_getIndexOnHash h hashTable tableType =
     (if h < table_size tableType then Some (hashTable h) else None)"

section \<open>The context and the variables\<close>

record lz4_job =
  e_src :: bytes
  e_directive :: limitedOutput_directive
  e_olimit :: nat
  e_type :: tableType
  e_accel :: nat

record lz4_enc =
  e_ip :: nat
  e_match :: nat
  e_anchor :: nat
  e_op :: nat
  e_token :: nat
  e_dst :: bytes
  e_table :: hash_table
  e_forwardH :: nat

abbreviation inputSize :: "lz4_job \<Rightarrow> nat" where
  "inputSize c \<equiv> length (e_src c)"

text \<open>\<open>mflimitPlusOne\<close> and \<open>matchlimit\<close>, used only on inputs of at least \<open>LZ4_minLength\<close>\<close>

abbreviation mflimitPlusOne :: "lz4_job \<Rightarrow> nat" where
  "mflimitPlusOne c \<equiv> inputSize c - MFLIMIT + 1"

abbreviation matchlimit :: "lz4_job \<Rightarrow> nat" where
  "matchlimit c \<equiv> inputSize c - LASTLITERALS"

text \<open>Where the code goes next: the three labels, or \<open>return 0\<close>.\<close>

datatype enc_step =
    FindMatch lz4_enc
  | NextMatch lz4_enc
  | LastLiterals lz4_enc
  | ReturnZero

section \<open>Finding a match\<close>

datatype search = NotFound hash_table | FoundAt nat nat hash_table

text \<open>
  The search loop. \<open>searchMatchNb\<close> grows by one per probe and the step is its 64th part.
  The candidate at distance above \<open>LZ4_DISTANCE_MAX\<close> is skipped without being read.
\<close>

function find_match ::
    "lz4_job \<Rightarrow> nat \<Rightarrow> nat \<Rightarrow> nat \<Rightarrow> nat \<Rightarrow> hash_table \<Rightarrow> search option" where
  "find_match c forwardIp step searchMatchNb h table =
     do {
       let current = forwardIp;
       matchIndex \<leftarrow> LZ4_getIndexOnHash h table (e_type c);
       let ip = forwardIp;
       let forwardIp' = forwardIp + step;
       let step' = searchMatchNb div 64;
       if mflimitPlusOne c < forwardIp' then Some (NotFound table)
       else do {
         forwardH \<leftarrow> LZ4_hashPosition (e_src c) forwardIp' (e_type c);
         table' \<leftarrow> LZ4_putIndexOnHash current h table (e_type c);
         if e_type c \<noteq> byU16 \<and> matchIndex + LZ4_DISTANCE_MAX < current
         then find_match c forwardIp' step' (searchMatchNb + 1) forwardH table'
         else do {
           a \<leftarrow> LZ4_read32 (e_src c) matchIndex;
           b \<leftarrow> LZ4_read32 (e_src c) ip;
           if a = b then Some (FoundAt ip matchIndex table')
           else find_match c forwardIp' step' (searchMatchNb + 1) forwardH table' } } }"
  by pat_completeness auto
termination
  by (relation "inv_image (less_than <*lex*> less_than <*lex*> less_than)
      (\<lambda>(c, fwd, step, nb, h, table).
        (mflimitPlusOne c + 1 - fwd, if step = 0 then 1 else (0 :: nat), 64 - nb))")
    (auto simp: div_eq_0_iff)

declare find_match.simps [simp del]

text \<open>The bytes before the match that agree as well; the second function is the \<open>do\<close> loop's test.\<close>

function catch_up_loop :: "bytes \<Rightarrow> nat \<Rightarrow> nat \<Rightarrow> nat \<Rightarrow> (nat \<times> nat) option" where
  "catch_up_loop source anchor ip match =
     (if anchor < ip \<and> 0 < match then
        do {
          a \<leftarrow> byte_at source (ip - 1);
          b \<leftarrow> byte_at source (match - 1);
          if a = b then catch_up_loop source anchor (ip - 1) (match - 1) else Some (ip, match) }
      else Some (ip, match))"
  by pat_completeness auto
termination by (relation "measure (\<lambda>(source, anchor, ip, match). ip)") auto

declare catch_up_loop.simps [simp del]

definition catch_up :: "bytes \<Rightarrow> nat \<Rightarrow> nat \<Rightarrow> nat \<Rightarrow> (nat \<times> nat) option" where
  "catch_up source anchor ip match =
     (if 0 < match then
        do {
          bs \<leftarrow> mem_ld source (int ip - 1) 1;
          b \<leftarrow> byte_at source (match - 1);
          if bs ! 0 = b then catch_up_loop source anchor (ip - 1) (match - 1) else Some (ip, match) }
      else Some (ip, match))"

section \<open>Encoding\<close>

text \<open>\<open>for(; len >= 255 ; len-=255) *op++ = 255; *op++ = (BYTE)len;\<close>\<close>

function put_run :: "bytes \<Rightarrow> nat \<Rightarrow> nat \<Rightarrow> (bytes \<times> nat) option" where
  "put_run m op len =
     (if 255 \<le> len then do { m \<leftarrow> mem_st m (int op) [255]; put_run m (op + 1) (len - 255) }
      else do { m \<leftarrow> mem_st m (int op) [word_of_nat len]; Some (m, op + 1) })"
  by pat_completeness auto
termination by (relation "measure (\<lambda>(m, op, len). len)") auto

declare put_run.simps [simp del]

text \<open>From \<open>Encode Literals\<close> to the label \<open>_next_match\<close>.\<close>

definition encode_literals :: "lz4_job \<Rightarrow> lz4_enc \<Rightarrow> enc_step option" where
  "encode_literals c s =
     (let litLength = e_ip s - e_anchor s; token = e_op s; op = e_op s + 1 in
      if e_directive c = limitedOutput \<and>
         e_olimit c < op + litLength + (2 + 1 + LASTLITERALS) + litLength div 255
      then Some ReturnZero
      else do {
        (m, op) \<leftarrow>
          (if RUN_MASK \<le> litLength then
             do {
               m \<leftarrow> mem_st (e_dst s) (int token) [word_of_nat (RUN_MASK * 16)];
               put_run m op (litLength - RUN_MASK) }
           else do {
             m \<leftarrow> mem_st (e_dst s) (int token) [word_of_nat (litLength * 16)];
             Some (m, op) });
        m \<leftarrow> LZ4_wildCopy8 (copy_lit (e_src c)) m op (int (e_anchor s)) (op + litLength);
        Some (NextMatch (s\<lparr>e_dst := m, e_token := token, e_op := op + litLength\<rparr>)) })"

text \<open>One pass of the main loop up to the label \<open>_next_match\<close>.\<close>

definition enc_find :: "lz4_job \<Rightarrow> lz4_enc \<Rightarrow> enc_step option" where
  "enc_find c s =
     do {
       r \<leftarrow> find_match c (e_ip s) 1 (e_accel c * 64) (e_forwardH s) (e_table s);
       case r of
         NotFound table \<Rightarrow> Some (LastLiterals (s\<lparr>e_table := table\<rparr>))
       | FoundAt ip match table \<Rightarrow>
           do {
             (ip, match) \<leftarrow> catch_up (e_src c) (e_anchor s) ip match;
             encode_literals c (s\<lparr>e_ip := ip, e_match := match, e_table := table\<rparr>) } }"

text \<open>\<open>while (matchCode >= 4*255) { op+=4; LZ4_write32(op, 0xFFFFFFFF); matchCode -= 4*255; }\<close>\<close>

function fill_run :: "bytes \<Rightarrow> nat \<Rightarrow> nat \<Rightarrow> (bytes \<times> nat \<times> nat) option" where
  "fill_run m op matchCode =
     (if 4 * 255 \<le> matchCode then
        do { m \<leftarrow> LZ4_write32 m (op + 4) 0xFFFFFFFF; fill_run m (op + 4) (matchCode - 4 * 255) }
      else Some (m, op, matchCode))"
  by pat_completeness auto
termination by (relation "measure (\<lambda>(m, op, matchCode). matchCode)") auto

declare fill_run.simps [simp del]

text \<open>The rest of the match length, and the token it is added to.\<close>

definition put_match_length :: "bytes \<Rightarrow> nat \<Rightarrow> nat \<Rightarrow> nat \<Rightarrow> (bytes \<times> nat) option" where
  "put_match_length m token op matchCode =
     do {
       t \<leftarrow> byte_at m token;
       if ML_MASK \<le> matchCode then
         do {
           m \<leftarrow> mem_st m (int token) [t + word_of_nat ML_MASK];
           let matchCode = matchCode - ML_MASK;
           m \<leftarrow> LZ4_write32 m op 0xFFFFFFFF;
           (m, op, matchCode) \<leftarrow> fill_run m op matchCode;
           let op = op + matchCode div 255;
           m \<leftarrow> mem_st m (int op) [word_of_nat (matchCode mod 255)];
           Some (m, op + 1) }
       else do {
         m \<leftarrow> mem_st m (int token) [t + word_of_nat matchCode];
         Some (m, op) } }"

text \<open>From the label \<open>_next_match\<close> to the end of chunk test.\<close>

definition encode_match :: "lz4_job \<Rightarrow> lz4_enc \<Rightarrow> lz4_enc option option" where
  "encode_match c s =
     do {
       m \<leftarrow> LZ4_writeLE16 (e_dst s) (e_op s) (word_of_nat (e_ip s - e_match s));
       let op = e_op s + 2;
       matchCode \<leftarrow> LZ4_count (e_src c) (e_ip s + MINMATCH) (e_match s + MINMATCH) (matchlimit c);
       let ip = e_ip s + matchCode + MINMATCH;
       if e_directive c = limitedOutput \<and>
          e_olimit c < op + (1 + LASTLITERALS) + (matchCode + 240) div 255
       then Some None
       else do {
         (m, op) \<leftarrow> put_match_length m (e_token s) op matchCode;
         Some (Some (s\<lparr>e_ip := ip, e_anchor := ip, e_op := op, e_dst := m\<rparr>)) } }"

text \<open>The rest of the loop's body: filling the table and testing the next position.\<close>

definition test_next :: "lz4_job \<Rightarrow> lz4_enc \<Rightarrow> enc_step option" where
  "test_next c s =
     (if mflimitPlusOne c \<le> e_ip s then Some (LastLiterals s)
      else do {
        let ip = e_ip s;
        h \<leftarrow> LZ4_hashPosition (e_src c) (ip - 2) (e_type c);
        table \<leftarrow> LZ4_putIndexOnHash (ip - 2) h (e_table s) (e_type c);
        h \<leftarrow> LZ4_hashPosition (e_src c) ip (e_type c);
        matchIndex \<leftarrow> LZ4_getIndexOnHash h table (e_type c);
        table \<leftarrow> LZ4_putIndexOnHash ip h table (e_type c);
        found \<leftarrow>
          (if e_type c = byU16 \<or> ip \<le> matchIndex + LZ4_DISTANCE_MAX then
             do {
               a \<leftarrow> LZ4_read32 (e_src c) matchIndex;
               b \<leftarrow> LZ4_read32 (e_src c) ip;
               Some (a = b) }
           else Some False);
        if found then
          do {
            m \<leftarrow> mem_st (e_dst s) (int (e_op s)) [0];
            Some (NextMatch (s\<lparr>e_match := matchIndex, e_token := e_op s, e_op := e_op s + 1,
              e_dst := m, e_table := table\<rparr>)) }
        else do {
          h \<leftarrow> LZ4_hashPosition (e_src c) (ip + 1) (e_type c);
          Some (FindMatch (s\<lparr>e_ip := ip + 1, e_forwardH := h, e_table := table\<rparr>)) } })"

definition enc_next :: "lz4_job \<Rightarrow> lz4_enc \<Rightarrow> enc_step option" where
  "enc_next c s =
     do {
       r \<leftarrow> encode_match c s;
       case r of None \<Rightarrow> Some ReturnZero | Some s' \<Rightarrow> test_next c s' }"

text \<open>From the label \<open>_last_literals\<close>: the result, 0 or the size of the block.\<close>

definition last_literals :: "lz4_job \<Rightarrow> lz4_enc \<Rightarrow> (int \<times> bytes) option" where
  "last_literals c s =
     (let lastRun = inputSize c - e_anchor s; op = e_op s in
      if e_directive c = limitedOutput \<and>
         e_olimit c < op + lastRun + 1 + (lastRun + 255 - RUN_MASK) div 255
      then Some (0, e_dst s)
      else do {
        (m, op) \<leftarrow>
          (if RUN_MASK \<le> lastRun then
             do {
               m \<leftarrow> mem_st (e_dst s) (int op) [word_of_nat (RUN_MASK * 16)];
               put_run m (op + 1) (lastRun - RUN_MASK) }
           else do {
             m \<leftarrow> mem_st (e_dst s) (int op) [word_of_nat (lastRun * 16)];
             Some (m, op + 1) });
        m \<leftarrow> copy_lit (e_src c) m op (int (e_anchor s)) lastRun;
        Some (int (op + lastRun), m) })"

section \<open>The main loop\<close>

text \<open>
  The loop with its jumps. That it ends is a theorem about it (it never returns \<open>None\<close> on the
  buffers the code gives it), because an iteration need not move \<open>ip\<close> forward on a state that
  breaks the invariant.
\<close>

partial_function (option) enc_loop :: "lz4_job \<Rightarrow> bytes \<Rightarrow> enc_step \<Rightarrow> (int \<times> bytes) option" where
  "enc_loop c m step =
     (case step of
        ReturnZero \<Rightarrow> Some (0, m)
      | LastLiterals s \<Rightarrow> last_literals c s
      | FindMatch s \<Rightarrow> Option.bind (enc_find c s) (enc_loop c (e_dst s))
      | NextMatch s \<Rightarrow> Option.bind (enc_next c s) (enc_loop c (e_dst s)))"

declare enc_loop.simps [code]

definition LZ4_compress_generic_validated :: "lz4_job \<Rightarrow> bytes \<Rightarrow> (int \<times> bytes) option" where
  "LZ4_compress_generic_validated c dst =
     (let s = \<lparr>e_ip = 0, e_match = 0, e_anchor = 0, e_op = 0, e_token = 0, e_dst = dst,
                e_table = (\<lambda>_. 0), e_forwardH = 0\<rparr>
      in if inputSize c < LZ4_minLength then last_literals c s
         else do {
           h \<leftarrow> LZ4_hashPosition (e_src c) 0 (e_type c);
           table \<leftarrow> LZ4_putIndexOnHash 0 h (e_table s) (e_type c);
           forwardH \<leftarrow> LZ4_hashPosition (e_src c) 1 (e_type c);
           enc_loop c dst (FindMatch (s\<lparr>e_ip := 1, e_table := table, e_forwardH := forwardH\<rparr>)) })"

text \<open>
  The wrappers. \<open>source\<close> holds the \<open>srcSize\<close> bytes to compress when \<open>srcSize\<close> is a size the
  codec accepts.
\<close>

definition LZ4_compress_generic ::
    "bytes \<Rightarrow> bytes \<Rightarrow> int \<Rightarrow> int \<Rightarrow> limitedOutput_directive \<Rightarrow> tableType \<Rightarrow> nat \<Rightarrow> (int \<times> bytes) option" where
  "LZ4_compress_generic source dst srcSize dstCapacity outputDirective tableType acceleration =
     (if srcSize < 0 \<or> LZ4_MAX_INPUT_SIZE < srcSize then Some (0, dst)
      else if srcSize = 0 then
        if outputDirective \<noteq> notLimited \<and> dstCapacity \<le> 0 then Some (0, dst)
        else do { m \<leftarrow> mem_st dst 0 [0]; Some (1, m) }
      else
        LZ4_compress_generic_validated
          \<lparr>e_src = take (nat srcSize) source, e_directive = outputDirective,
           e_olimit = nat dstCapacity, e_type = tableType, e_accel = acceleration\<rparr> dst)"

definition LZ4_compress_fast_extState ::
    "bytes \<Rightarrow> bytes \<Rightarrow> int \<Rightarrow> int \<Rightarrow> int \<Rightarrow> (int \<times> bytes) option" where
  "LZ4_compress_fast_extState source dest srcSize maxOutputSize acceleration =
     (let acceleration = (if acceleration < 1 then 1 else acceleration);
          acceleration = nat (if 65537 < acceleration then 65537 else acceleration)
      in if LZ4_compressBound srcSize \<le> maxOutputSize then
           if srcSize < LZ4_64Klimit
           then LZ4_compress_generic source dest srcSize 0 notLimited byU16 acceleration
           else LZ4_compress_generic source dest srcSize 0 notLimited byU32 acceleration
         else
           if srcSize < LZ4_64Klimit
           then LZ4_compress_generic source dest srcSize maxOutputSize limitedOutput byU16 acceleration
           else LZ4_compress_generic source dest srcSize maxOutputSize limitedOutput byU32 acceleration)"

definition LZ4_compress_fast ::
    "bytes \<Rightarrow> bytes \<Rightarrow> int \<Rightarrow> int \<Rightarrow> int \<Rightarrow> (int \<times> bytes) option" where
  "LZ4_compress_fast src dest srcSize dstCapacity acceleration =
     LZ4_compress_fast_extState src dest srcSize dstCapacity acceleration"

definition LZ4_compress_default :: "bytes \<Rightarrow> bytes \<Rightarrow> int \<Rightarrow> int \<Rightarrow> (int \<times> bytes) option" where
  "LZ4_compress_default src dst srcSize dstCapacity =
     LZ4_compress_fast src dst srcSize dstCapacity 1"

end
