(* ===== verification/Lz4_Dec.thy ===== *)
theory Lz4_Dec
  imports Lz4_Mem
begin

text \<open>
  \<open>LZ4_decompress_safe\<close> of \<open>lib/lz4.c\<close>: the instance of \<open>LZ4_decompress_generic\<close> for a
  full block without dictionary (\<open>decode_full_block\<close>, \<open>noDict\<close>, \<open>lowPrefix == dst\<close>,
  \<open>dictSize == 0\<close>), which is the one the program calls. Both loops are here: the fast loop,
  which runs while 64 bytes of output are left, and the safe loop it falls into, at the label
  the code jumps to.

  \<open>ip\<close> and \<open>op\<close> are offsets into the source and the destination. A comparison of pointers
  such as \<open>ip <= iend - 17\<close> is written \<open>ip + 17 \<le> iend\<close>. \<open>match\<close> is \<open>op - offset\<close>; it is
  below \<open>lowPrefix\<close> when \<open>op < offset\<close>. \<open>dsrc_at\<close> and \<open>ddst_at\<close> are the addresses of the two
  buffers, which only the overflow checks look at.
\<close>

section \<open>The context and the registers\<close>

record lz4_ctx =
  dsrc :: bytes
  oend :: nat
  dsrc_at :: nat
  ddst_at :: nat

record lz4_dec =
  d_ip :: nat
  d_op :: nat
  d_dst :: bytes
  d_tok :: u8
  d_len :: nat
  d_off :: nat

abbreviation iend :: "lz4_ctx \<Rightarrow> nat" where
  "iend c \<equiv> length (dsrc c)"

definition lit_nibble :: "u8 \<Rightarrow> nat" where
  "lit_nibble token = unat (drop_bit ML_BITS token)"

definition match_nibble :: "u8 \<Rightarrow> nat" where
  "match_nibble token = unat (token AND word_of_nat ML_MASK)"

text \<open>\<open>(uptrval)(p) + length < (uptrval)(p)\<close> for \<open>p\<close> at an offset from an address\<close>

definition ptr_overflow :: "nat \<Rightarrow> nat \<Rightarrow> nat \<Rightarrow> bool" where
  "ptr_overflow base off len \<longleftrightarrow>
     ((word_of_nat (base + off) :: u64) + word_of_nat len < word_of_nat (base + off))"

section \<open>read_variable_length\<close>

text \<open>
  The outer option is undefined behaviour, the inner one is \<open>rvl_error\<close>; the second component
  is the advanced \<open>ip\<close>. The statements before the \<open>do\<close> loop are its body, so both are one
  recursion. \<open>ilimit\<close> may lie before the buffer. The branches guarded by
  \<open>sizeof(length) < 8\<close> are dead on the modelled platform.
\<close>

function rvl_loop :: "bytes \<Rightarrow> nat \<Rightarrow> int \<Rightarrow> nat \<Rightarrow> (nat option \<times> nat) option" where
  "rvl_loop source ip ilimit len =
     (if ip < length source then
        (let s = unat (source ! ip) in
         if ilimit < int (ip + 1) then Some (None, ip + 1)
         else if s \<noteq> 255 then Some (Some (len + s), ip + 1)
         else rvl_loop source (ip + 1) ilimit (len + s))
      else None)"
  by pat_completeness auto
termination by (relation "measure (\<lambda>(source, ip, ilimit, len). length source - ip)") auto

declare rvl_loop.simps [simp del]

definition read_variable_length ::
    "bytes \<Rightarrow> nat \<Rightarrow> int \<Rightarrow> bool \<Rightarrow> (nat option \<times> nat) option" where
  "read_variable_length source ip ilimit initial_check =
     (if initial_check \<and> ilimit \<le> int ip then Some (None, ip)
      else rvl_loop source ip ilimit 0)"

section \<open>The safe loop\<close>

text \<open>How one iteration of the safe loop ends; \<open>OutputError\<close> keeps \<open>ip\<close> for the return value.\<close>

datatype dec_step = Continue lz4_dec | Break lz4_dec | OutputError nat

text \<open>
  The rest of a match after its first eight bytes: near the end of the output, where the last
  bytes are copied one by one, and elsewhere.
\<close>

definition copy_match_near :: "nat \<Rightarrow> bytes \<Rightarrow> nat \<Rightarrow> int \<Rightarrow> nat \<Rightarrow> bytes option" where
  "copy_match_near out_end m op match cpy =
     (let oCopyLimit = out_end - (WILDCOPYLENGTH - 1) in
      if op < oCopyLimit then
        do {
          m \<leftarrow> LZ4_wildCopy8 copy_self m op match oCopyLimit;
          copy_bytes_to m oCopyLimit (match + (int oCopyLimit - int op)) cpy }
      else copy_bytes_to m op match cpy)"

definition copy_match_far :: "bytes \<Rightarrow> nat \<Rightarrow> int \<Rightarrow> nat \<Rightarrow> nat \<Rightarrow> bytes option" where
  "copy_match_far m op match len cpy =
     do {
       m \<leftarrow> copy_self m op match 8;
       if 16 < len then LZ4_wildCopy8 copy_self m (op + 8) (match + 8) cpy else Some m }"

text \<open>From the label \<open>safe_match_copy\<close>: \<open>length\<close> includes \<open>MINMATCH\<close>.\<close>

definition safe_match_copy :: "lz4_ctx \<Rightarrow> lz4_dec \<Rightarrow> dec_step option" where
  "safe_match_copy c d =
     (let op = d_op d; len = d_len d; off = d_off d; cpy = op + len; match = int op - int off in
      if op < off then Some (OutputError (d_ip d))
      else do {
        (m, match) \<leftarrow> copy_first8 (d_dst d) op match off;
        if oend c < cpy + MATCH_SAFEGUARD_DISTANCE then
          if oend c < cpy + LASTLITERALS then Some (OutputError (d_ip d))
          else do {
            m \<leftarrow> copy_match_near (oend c) m (op + 8) match cpy;
            Some (Continue (d\<lparr>d_dst := m, d_op := cpy\<rparr>)) }
        else do {
          m \<leftarrow> copy_match_far m (op + 8) match len cpy;
          Some (Continue (d\<lparr>d_dst := m, d_op := cpy\<rparr>)) } })"

text \<open>From the label \<open>_copy_match\<close>: \<open>length\<close> is the low nibble of the token.\<close>

definition copy_match :: "lz4_ctx \<Rightarrow> lz4_dec \<Rightarrow> dec_step option" where
  "copy_match c d =
     (if d_len d = ML_MASK then
        do {
          (r, ip) \<leftarrow> read_variable_length (dsrc c) (d_ip d) (int (iend c) - int LASTLITERALS + 1) False;
          case r of
            None \<Rightarrow> Some (OutputError ip)
          | Some addl \<Rightarrow>
              if ptr_overflow (ddst_at c) (d_op d) (d_len d + addl) then Some (OutputError ip)
              else safe_match_copy c (d\<lparr>d_ip := ip, d_len := d_len d + addl + MINMATCH\<rparr>) }
      else safe_match_copy c (d\<lparr>d_len := d_len d + MINMATCH\<rparr>))"

text \<open>From the label \<open>safe_literal_copy\<close>: \<open>length\<close> is the literal length.\<close>

definition safe_literal_copy :: "lz4_ctx \<Rightarrow> lz4_dec \<Rightarrow> dec_step option" where
  "safe_literal_copy c d =
     (let ip = d_ip d; op = d_op d; len = d_len d; cpy = op + len in
      if oend c < cpy + MFLIMIT \<or> iend c < ip + len + (2 + 1 + LASTLITERALS) then
        if ip + len \<noteq> iend c \<or> oend c < cpy then Some (OutputError ip)
        else do {
          m \<leftarrow> copy_lit (dsrc c) (d_dst d) op (int ip) len;
          Some (Break (d\<lparr>d_dst := m, d_ip := ip + len, d_op := op + len\<rparr>)) }
      else do {
        m \<leftarrow> LZ4_wildCopy8 (copy_lit (dsrc c)) (d_dst d) op (int ip) cpy;
        off \<leftarrow> LZ4_readLE16 (dsrc c) (ip + len);
        copy_match c (d\<lparr>d_dst := m, d_ip := ip + len + 2, d_op := cpy, d_off := off,
          d_len := match_nibble (d_tok d)\<rparr>) })"

text \<open>One iteration of the safe loop, with its shortcut for short sequences.\<close>

definition safe_iter :: "lz4_ctx \<Rightarrow> lz4_dec \<Rightarrow> dec_step option" where
  "safe_iter c d =
     do {
       token \<leftarrow> byte_at (dsrc c) (d_ip d);
       let ip = d_ip d + 1;
       let op = d_op d;
       let len = lit_nibble token;
       let d = d\<lparr>d_ip := ip, d_tok := token, d_len := len\<rparr>;
       if len \<noteq> RUN_MASK \<and> ip + 14 + 2 < iend c \<and> op + 14 + 18 \<le> oend c then
         do {
           m \<leftarrow> copy_lit (dsrc c) (d_dst d) op (int ip) 16;
           let op = op + len;
           let ip = ip + len;
           let len = match_nibble token;
           off \<leftarrow> LZ4_readLE16 (dsrc c) ip;
           let ip = ip + 2;
           let match = int op - int off;
           let d = d\<lparr>d_dst := m, d_ip := ip, d_op := op, d_off := off, d_len := len\<rparr>;
           if len \<noteq> ML_MASK \<and> 8 \<le> off \<and> off \<le> op then
             do {
               m \<leftarrow> do {
                 m \<leftarrow> copy_self m op match 8;
                 m \<leftarrow> copy_self m (op + 8) (match + 8) 8;
                 copy_self m (op + 16) (match + 16) 2 };
               Some (Continue (d\<lparr>d_dst := m, d_op := op + len + MINMATCH\<rparr>)) }
           else copy_match c d }
       else if len = RUN_MASK then
         do {
           (r, ip) \<leftarrow> read_variable_length (dsrc c) ip (int (iend c) - int RUN_MASK) True;
           case r of
             None \<Rightarrow> Some (OutputError ip)
           | Some addl \<Rightarrow>
               if ptr_overflow (ddst_at c) op (len + addl) \<or> ptr_overflow (dsrc_at c) ip (len + addl)
               then Some (OutputError ip)
               else safe_literal_copy c (d\<lparr>d_ip := ip, d_len := len + addl\<rparr>) }
       else safe_literal_copy c d }"

subsection \<open>Every iteration consumes input\<close>

lemma rvl_loop_ip: "rvl_loop source ip ilimit len = Some (r, ip') \<Longrightarrow> ip < ip' \<and> ip' \<le> length source"
proof (induction source ip ilimit len rule: rvl_loop.induct)
  case (1 source ip ilimit len)
  then show ?case
    by (subst (asm) rvl_loop.simps) (auto simp: Let_def split: if_splits)
qed

lemma read_variable_length_ip:
  "read_variable_length source ip ilimit b = Some (Some addl, ip') \<Longrightarrow> ip < ip' \<and> ip' \<le> length source"
  by (auto simp: read_variable_length_def dest: rvl_loop_ip split: if_splits)

lemma safe_match_copy_ip: "safe_match_copy c d = Some (Continue d') \<Longrightarrow> d_ip d' = d_ip d"
  by (auto simp: safe_match_copy_def Let_def bind_eq_Some_conv split: if_splits)

lemma copy_match_ip: "copy_match c d = Some (Continue d') \<Longrightarrow> d_ip d \<le> d_ip d'"
  by (auto simp: copy_match_def bind_eq_Some_conv split: if_splits option.splits
    dest!: safe_match_copy_ip read_variable_length_ip)

lemma safe_literal_copy_ip:
  "safe_literal_copy c d = Some (Continue d') \<Longrightarrow> d_ip d \<le> d_ip d'"
  by (auto simp: safe_literal_copy_def Let_def bind_eq_Some_conv split: if_splits dest!: copy_match_ip)

lemma safe_iter_ip:
  assumes "safe_iter c d = Some (Continue d')"
  shows "d_ip d < d_ip d' \<and> d_ip d < iend c"
  using assms
  by (auto simp: safe_iter_def Let_def bind_eq_Some_conv byte_at_def split: if_splits option.splits
    dest!: copy_match_ip safe_literal_copy_ip read_variable_length_ip)

text \<open>The safe loop; its result is the value returned and the final buffer.\<close>

function safe_loop :: "lz4_ctx \<Rightarrow> lz4_dec \<Rightarrow> (int \<times> bytes) option" where
  "safe_loop c d =
     (case safe_iter c d of
        None \<Rightarrow> None
      | Some (OutputError ip) \<Rightarrow> Some (- int ip - 1, d_dst d)
      | Some (Break d') \<Rightarrow> Some (int (d_op d'), d_dst d')
      | Some (Continue d') \<Rightarrow> safe_loop c d')"
  by pat_completeness auto
termination
  by (relation "measure (\<lambda>(c, d). iend c - d_ip d)") (auto dest!: safe_iter_ip)

declare safe_loop.simps [simp del]

text \<open>The safe loop entered in the middle of an iteration.\<close>

definition safe_resume :: "lz4_ctx \<Rightarrow> bytes \<Rightarrow> dec_step \<Rightarrow> (int \<times> bytes) option" where
  "safe_resume c m step =
     (case step of
        OutputError ip \<Rightarrow> Some (- int ip - 1, m)
      | Break d' \<Rightarrow> Some (int (d_op d'), d_dst d')
      | Continue d' \<Rightarrow> safe_loop c d')"

section \<open>The fast loop\<close>

datatype fast_step =
    FastContinue lz4_dec
  | FastError nat
  | ToSafeLiteralCopy lz4_dec
  | ToSafeMatchCopy lz4_dec

text \<open>The match part of an iteration, from \<open>get offset\<close>; \<open>ip\<close> and \<open>op\<close> are past the literals.\<close>

definition fast_copy_match :: "lz4_ctx \<Rightarrow> lz4_dec \<Rightarrow> fast_step option" where
  "fast_copy_match c d =
     (let op = d_op d; off = d_off d; cpy = op + d_len d; match = int op - int off in
      if op < off then Some (FastError (d_ip d))
      else do {
        m \<leftarrow> (if off < 16 then LZ4_memcpy_using_offset (d_dst d) op match cpy off
              else LZ4_wildCopy32 copy_self (d_dst d) op match cpy);
        Some (FastContinue (d\<lparr>d_dst := m, d_op := cpy\<rparr>)) })"

definition fast_match :: "lz4_ctx \<Rightarrow> lz4_dec \<Rightarrow> fast_step option" where
  "fast_match c d =
     do {
       off \<leftarrow> LZ4_readLE16 (dsrc c) (d_ip d);
       let op = d_op d;
       let ip = d_ip d + 2;
       let match = int op - int off;
       let len = match_nibble (d_tok d);
       let d = d\<lparr>d_ip := ip, d_off := off, d_len := len\<rparr>;
       if len = ML_MASK then
         do {
           (r, ip) \<leftarrow> read_variable_length (dsrc c) ip (int (iend c) - int LASTLITERALS + 1) False;
           case r of
             None \<Rightarrow> Some (FastError ip)
           | Some addl \<Rightarrow>
               let len = len + addl + MINMATCH; d = d\<lparr>d_ip := ip, d_len := len\<rparr> in
               if ptr_overflow (ddst_at c) op len then Some (FastError ip)
               else if oend c \<le> op + len + FASTLOOP_SAFE_DISTANCE then Some (ToSafeMatchCopy d)
               else fast_copy_match c d }
       else
         (let len = len + MINMATCH; d = d\<lparr>d_len := len\<rparr> in
          if oend c \<le> op + len + FASTLOOP_SAFE_DISTANCE then Some (ToSafeMatchCopy d)
          else if off \<le> op \<and> 8 \<le> off then
            do {
              m \<leftarrow> do {
                m \<leftarrow> copy_self (d_dst d) op match 8;
                m \<leftarrow> copy_self m (op + 8) (match + 8) 8;
                copy_self m (op + 16) (match + 16) 2 };
              Some (FastContinue (d\<lparr>d_dst := m, d_op := op + len\<rparr>)) }
          else fast_copy_match c d) }"

definition fast_iter :: "lz4_ctx \<Rightarrow> lz4_dec \<Rightarrow> fast_step option" where
  "fast_iter c d =
     do {
       token \<leftarrow> byte_at (dsrc c) (d_ip d);
       let ip = d_ip d + 1;
       let op = d_op d;
       let len = lit_nibble token;
       let d = d\<lparr>d_ip := ip, d_tok := token, d_len := len\<rparr>;
       if len = RUN_MASK then
         do {
           (r, ip) \<leftarrow> read_variable_length (dsrc c) ip (int (iend c) - int RUN_MASK) True;
           case r of
             None \<Rightarrow> Some (FastError ip)
           | Some addl \<Rightarrow>
               let len = len + addl; d = d\<lparr>d_ip := ip, d_len := len\<rparr> in
               if ptr_overflow (ddst_at c) op len \<or> ptr_overflow (dsrc_at c) ip len
               then Some (FastError ip)
               else if oend c < op + len + 32 \<or> iend c < ip + len + 32
               then Some (ToSafeLiteralCopy d)
               else do {
                 m \<leftarrow> LZ4_wildCopy32 (copy_lit (dsrc c)) (d_dst d) op (int ip) (op + len);
                 fast_match c (d\<lparr>d_dst := m, d_ip := ip + len, d_op := op + len\<rparr>) } }
       else if ip + (16 + 1) \<le> iend c then
         do {
           m \<leftarrow> copy_lit (dsrc c) (d_dst d) op (int ip) 16;
           fast_match c (d\<lparr>d_dst := m, d_ip := ip + len, d_op := op + len\<rparr>) }
       else Some (ToSafeLiteralCopy d) }"

lemma fast_copy_match_ip: "fast_copy_match c d = Some (FastContinue d') \<Longrightarrow> d_ip d' = d_ip d"
  by (auto simp: fast_copy_match_def Let_def bind_eq_Some_conv split: if_splits)

lemma fast_match_ip: "fast_match c d = Some (FastContinue d') \<Longrightarrow> d_ip d \<le> d_ip d'"
  by (auto simp: fast_match_def Let_def bind_eq_Some_conv split: if_splits option.splits
    dest!: fast_copy_match_ip read_variable_length_ip)

lemma fast_iter_ip:
  assumes "fast_iter c d = Some (FastContinue d')"
  shows "d_ip d < d_ip d' \<and> d_ip d < iend c"
  using assms
  by (auto simp: fast_iter_def Let_def bind_eq_Some_conv byte_at_def split: if_splits option.splits
    dest!: fast_match_ip read_variable_length_ip)

function fast_loop :: "lz4_ctx \<Rightarrow> lz4_dec \<Rightarrow> (int \<times> bytes) option" where
  "fast_loop c d =
     (case fast_iter c d of
        None \<Rightarrow> None
      | Some (FastError ip) \<Rightarrow> Some (- int ip - 1, d_dst d)
      | Some (ToSafeLiteralCopy d') \<Rightarrow>
          do { step \<leftarrow> safe_literal_copy c d'; safe_resume c (d_dst d') step }
      | Some (ToSafeMatchCopy d') \<Rightarrow>
          do { step \<leftarrow> safe_match_copy c d'; safe_resume c (d_dst d') step }
      | Some (FastContinue d') \<Rightarrow> fast_loop c d')"
  by pat_completeness auto
termination
  by (relation "measure (\<lambda>(c, d). iend c - d_ip d)") (auto dest!: fast_iter_ip)

declare fast_loop.simps [simp del]

section \<open>The entry point\<close>

text \<open>
  The return value and the destination buffer. The source pointer is not \<open>NULL\<close>;
  \<open>compressedSize\<close> is the length of the source, \<open>maxDecompressedSize\<close> is an \<open>int\<close>. After an
  error the buffer holds unspecified bytes (what the model keeps there is not used).
\<close>

definition LZ4_decompress_safe ::
    "bytes \<Rightarrow> nat \<Rightarrow> bytes \<Rightarrow> nat \<Rightarrow> int \<Rightarrow> (int \<times> bytes) option" where
  "LZ4_decompress_safe source src_at dst dst_at maxDecompressedSize =
     (if maxDecompressedSize < 0 then Some (- 1, dst)
      else if maxDecompressedSize = 0 then
        Some (if source = [0] then 0 else - 1, dst)
      else if source = [] then Some (- 1, dst)
      else
        (let c = \<lparr>dsrc = source, oend = nat maxDecompressedSize, dsrc_at = src_at, ddst_at = dst_at\<rparr>;
             d = \<lparr>d_ip = 0, d_op = 0, d_dst = dst, d_tok = 0, d_len = 0, d_off = 0\<rparr>
         in if oend c < FASTLOOP_SAFE_DISTANCE then safe_loop c d else fast_loop c d))"

end
