(* ===== verification/Lz4_Spec.thy ===== *)
theory Lz4_Spec
  imports Lz4_Dec
begin

text \<open>
  The LZ4 block format as a function on byte lists: what a block means, independently of the
  loops, the wild copies and the buffer. A block is a list of sequences; a sequence is a token,
  the literal length, the literals, and, except in the last one, a distance and a match length.
\<close>

section \<open>Lengths\<close>

fun ext_len :: "bytes \<Rightarrow> (nat \<times> bytes) option" where
  "ext_len [] = None"
| "ext_len (b # bs) =
     (if b = 255 then map_option (\<lambda>(n, r). (255 + n, r)) (ext_len bs) else Some (unat b, bs))"

definition varlen :: "nat \<Rightarrow> bytes \<Rightarrow> (nat \<times> bytes) option" where
  "varlen n bs = (if n = 15 then map_option (\<lambda>(k, r). (15 + k, r)) (ext_len bs) else Some (n, bs))"

lemma ext_len_shorter: "ext_len bs = Some (n, r) \<Longrightarrow> length r < length bs"
  by (induction bs arbitrary: n) (auto split: if_splits simp: less_Suc_eq)

lemma ext_len_drop: "ext_len bs = Some (n, r) \<Longrightarrow> r = drop (length bs - length r) bs"
proof (induction bs arbitrary: n)
  case (Cons b bs)
  show ?case
  proof (cases "b = 255")
    case True
    with Cons.prems obtain m where m: "ext_len bs = Some (m, r)" by auto
    then have "length r < length bs" by (rule ext_len_shorter)
    with Cons.IH [OF m] show ?thesis by (simp add: Suc_diff_le)
  qed (use Cons.prems in auto)
qed simp

lemma varlen_shorter: "varlen n bs = Some (k, r) \<Longrightarrow> length r \<le> length bs"
  by (auto simp: varlen_def dest!: ext_len_shorter split: if_splits)

section \<open>Decoding\<close>

definition lz_copy :: "bytes \<Rightarrow> nat \<Rightarrow> nat \<Rightarrow> bytes" where
  "lz_copy out off n = out @ map (\<lambda>j. lz_byte out (length out) off (length out + j)) [0..<n]"

lemma length_lz_copy [simp]: "length (lz_copy out off n) = length out + n"
  by (simp add: lz_copy_def)

text \<open>The second argument is the output so far, which matches refer back to.\<close>

function lz4_decode :: "bytes \<Rightarrow> bytes \<Rightarrow> bytes option" where
  "lz4_decode [] out = None"
| "lz4_decode (token # r) out =
     (case varlen (lit_nibble token) r of
        None \<Rightarrow> None
      | Some (ll, r1) \<Rightarrow>
          if length r1 < ll then None
          else case drop ll r1 of
              [] \<Rightarrow> Some (out @ r1)
            | [_] \<Rightarrow> None
            | b0 # b1 # r3 \<Rightarrow>
                (let out1 = out @ take ll r1; off = unat b0 + 256 * unat b1 in
                 if length out1 < off then None
                 else case varlen (match_nibble token) r3 of
                     None \<Rightarrow> None
                   | Some (ml, r4) \<Rightarrow> lz4_decode r4 (lz_copy out1 off (ml + MINMATCH))))"
  by pat_completeness auto
termination
proof (relation "measure (\<lambda>(bs, out). length bs)"; clarsimp)
  fix token :: u8 and r r1 r3 r4 :: bytes and ll ml :: nat and b0 b1 :: u8
  assume a: "varlen (lit_nibble token) r = Some (ll, r1)" "drop ll r1 = b0 # b1 # r3"
    "varlen (match_nibble token) r3 = Some (ml, r4)"
  from arg_cong [OF a(2), of length] have "length r3 \<le> length r1" by simp
  with varlen_shorter [OF a(1)] varlen_shorter [OF a(3)] show "length r4 < Suc (length r)" by simp
qed

declare lz4_decode.simps [simp del]

text \<open>The stages of one sequence: after the literal length, and after the distance.\<close>

definition decode_match :: "nat \<Rightarrow> nat \<Rightarrow> bytes \<Rightarrow> bytes \<Rightarrow> bytes option" where
  "decode_match nibble off r out =
     (if length out < off then None
      else case varlen nibble r of
          None \<Rightarrow> None
        | Some (ml, r') \<Rightarrow> lz4_decode r' (lz_copy out off (ml + MINMATCH)))"

definition decode_lit :: "u8 \<Rightarrow> nat \<Rightarrow> bytes \<Rightarrow> bytes \<Rightarrow> bytes option" where
  "decode_lit token ll r out =
     (if length r < ll then None
      else case drop ll r of
          [] \<Rightarrow> Some (out @ r)
        | [_] \<Rightarrow> None
        | b0 # b1 # r' \<Rightarrow>
            decode_match (match_nibble token) (unat b0 + 256 * unat b1) r' (out @ take ll r))"

lemma lz4_decode_Cons: "lz4_decode (token # r) out =
    (case varlen (lit_nibble token) r of None \<Rightarrow> None | Some (ll, r') \<Rightarrow> decode_lit token ll r' out)"
  by (simp add: lz4_decode.simps decode_lit_def decode_match_def Let_def
    split: option.split list.split)

section \<open>Blocks that obey the end-of-block rules\<close>

text \<open>
  A block of a decoded size \<open>tot\<close> in which, as the format demands, the last match starts at
  least \<open>MFLIMIT\<close> bytes before the end and the last \<open>LASTLITERALS\<close> bytes are literals. The
  decoder is only bound to accept these; it accepts some others.
\<close>

function lz4_strict :: "nat \<Rightarrow> bytes \<Rightarrow> nat \<Rightarrow> bool" where
  "lz4_strict tot [] n = False"
| "lz4_strict tot (token # r) n =
     (case varlen (lit_nibble token) r of
        None \<Rightarrow> False
      | Some (ll, r1) \<Rightarrow>
          if length r1 < ll then False
          else case drop ll r1 of
              [] \<Rightarrow> n + ll = tot
            | [_] \<Rightarrow> False
            | b0 # b1 # r3 \<Rightarrow>
                unat b0 + 256 * unat b1 \<le> n + ll \<and> n + ll + MFLIMIT \<le> tot \<and>
                (case varlen (match_nibble token) r3 of
                   None \<Rightarrow> False
                 | Some (ml, r4) \<Rightarrow>
                     n + ll + (ml + MINMATCH) + LASTLITERALS \<le> tot \<and>
                     lz4_strict tot r4 (n + ll + (ml + MINMATCH))))"
  by pat_completeness auto
termination
proof (relation "measure (\<lambda>(t, bs, n). length bs)"; clarsimp)
  fix token :: u8 and r r1 r3 r4 :: bytes and ll ml :: nat and b0 b1 :: u8
  assume a: "varlen (lit_nibble token) r = Some (ll, r1)" "drop ll r1 = b0 # b1 # r3"
    "varlen (match_nibble token) r3 = Some (ml, r4)"
  from arg_cong [OF a(2), of length] have "length r3 \<le> length r1" by simp
  with varlen_shorter [OF a(1)] varlen_shorter [OF a(3)] show "length r4 < Suc (length r)" by simp
qed

declare lz4_strict.simps [simp del]

definition strict_match :: "nat \<Rightarrow> nat \<Rightarrow> nat \<Rightarrow> bytes \<Rightarrow> nat \<Rightarrow> bool" where
  "strict_match tot nibble off r n \<longleftrightarrow>
     off \<le> n \<and> n + MFLIMIT \<le> tot \<and>
     (case varlen nibble r of
        None \<Rightarrow> False
      | Some (ml, r') \<Rightarrow>
          n + (ml + MINMATCH) + LASTLITERALS \<le> tot \<and> lz4_strict tot r' (n + (ml + MINMATCH)))"

definition strict_lit :: "nat \<Rightarrow> u8 \<Rightarrow> nat \<Rightarrow> bytes \<Rightarrow> nat \<Rightarrow> bool" where
  "strict_lit tot token ll r n \<longleftrightarrow> ll \<le> length r \<and>
     (case drop ll r of
        [] \<Rightarrow> n + ll = tot
      | [_] \<Rightarrow> False
      | b0 # b1 # r' \<Rightarrow>
          strict_match tot (match_nibble token) (unat b0 + 256 * unat b1) r' (n + ll))"

lemma lz4_strict_Cons: "lz4_strict tot (token # r) n =
    (case varlen (lit_nibble token) r of None \<Rightarrow> False | Some (ll, r') \<Rightarrow> strict_lit tot token ll r' n)"
  by (auto simp: lz4_strict.simps strict_lit_def strict_match_def split: option.split list.split)

text \<open>What is left of such a block, where at least five bytes are still to come.\<close>

lemma strict_match_length: "strict_match tot nibble off r n \<Longrightarrow>
    (\<And>r' n'. length r' \<le> length r \<Longrightarrow> lz4_strict tot r' n' \<Longrightarrow> n' + 5 \<le> tot \<Longrightarrow> 6 \<le> length r') \<Longrightarrow>
    6 \<le> length r"
  by (fastforce simp: strict_match_def split: option.splits dest: varlen_shorter)

lemma lz4_strict_length: "lz4_strict tot r n \<Longrightarrow> n + 5 \<le> tot \<Longrightarrow> 6 \<le> length r"
proof (induction "length r" arbitrary: r n rule: less_induct)
  case less
  then obtain token r0 where r: "r = token # r0"
    by (cases r) (auto simp: lz4_strict.simps)
  with less.prems(1) obtain ll r1 where v: "varlen (lit_nibble token) r0 = Some (ll, r1)"
    and lit: "strict_lit tot token ll r1 n"
    by (auto simp: lz4_strict_Cons split: option.splits)
  have len: "length r1 \<le> length r0" by (rule varlen_shorter [OF v])
  show ?case
  proof (cases "drop ll r1")
    case Nil
    with lit less.prems(2) len r show ?thesis by (auto simp: strict_lit_def)
  next
    case (Cons b0 rest)
    with lit obtain b1 r3 where d: "drop ll r1 = b0 # b1 # r3"
      and m: "strict_match tot (match_nibble token) (unat b0 + 256 * unat b1) r3 (n + ll)"
      by (auto simp: strict_lit_def split: list.splits)
    from arg_cong [OF d, of length] have len3: "length r3 + 2 \<le> length r1" by simp
    have "6 \<le> length r3"
      using m by (rule strict_match_length) (use less.hyps len len3 r in auto)
    with len len3 r show ?thesis by simp
  qed
qed

text \<open>A block of decoded size \<open>tot\<close> decodes to that many bytes.\<close>

lemma lz4_strict_decode:
  "lz4_strict tot r n \<Longrightarrow> n = length out \<Longrightarrow> \<exists>res. lz4_decode r out = Some res \<and> length res = tot"
proof (induction "length r" arbitrary: r n out rule: less_induct)
  case less
  then obtain token r0 where r: "r = token # r0"
    by (cases r) (auto simp: lz4_strict.simps)
  with less.prems(1) obtain ll r1 where v: "varlen (lit_nibble token) r0 = Some (ll, r1)"
    and lit: "strict_lit tot token ll r1 n"
    by (auto simp: lz4_strict_Cons split: option.splits)
  have len: "length r1 \<le> length r0" by (rule varlen_shorter [OF v])
  have dec: "lz4_decode r out = decode_lit token ll r1 out"
    using r v by (simp add: lz4_decode_Cons)
  show ?case
  proof (cases "drop ll r1")
    case Nil
    with lit less.prems(2) show ?thesis
      unfolding dec by (auto simp: strict_lit_def decode_lit_def)
  next
    case (Cons b0 rest)
    with lit obtain b1 r3 ml r4 where d: "drop ll r1 = b0 # b1 # r3" "ll \<le> length r1"
      and m: "unat b0 + 256 * unat b1 \<le> n + ll" "varlen (match_nibble token) r3 = Some (ml, r4)"
        "lz4_strict tot r4 (n + ll + (ml + MINMATCH))"
      by (auto simp: strict_lit_def strict_match_def split: list.splits option.splits)
    from arg_cong [OF d(1), of length] have "length r3 < length r1" by simp
    with varlen_shorter [OF m(2)] len r have "length r4 < length r" by simp
    from less.hyps [OF this m(3), of "lz_copy (out @ take ll r1) (unat b0 + 256 * unat b1) (ml + MINMATCH)"]
    show ?thesis
      unfolding dec using d m(1,2) less.prems(2) by (simp add: decode_lit_def decode_match_def)
  qed
qed

section \<open>Distances\<close>

text \<open>The format has no match at distance 0. The decoders accept one, with different results.\<close>

function lz4_distances :: "bytes \<Rightarrow> bool" where
  "lz4_distances [] = True"
| "lz4_distances (token # r) =
     (case varlen (lit_nibble token) r of
        None \<Rightarrow> True
      | Some (ll, r1) \<Rightarrow>
          (case drop ll r1 of
             [] \<Rightarrow> True
           | [_] \<Rightarrow> True
           | b0 # b1 # r3 \<Rightarrow>
               0 < unat b0 + 256 * unat b1 \<and>
               (case varlen (match_nibble token) r3 of
                  None \<Rightarrow> True
                | Some (ml, r4) \<Rightarrow> lz4_distances r4)))"
  by pat_completeness auto
termination
proof (relation "measure length"; clarsimp)
  fix token :: u8 and r r1 r3 r4 :: bytes and ll ml :: nat and b0 b1 :: u8
  assume a: "varlen (lit_nibble token) r = Some (ll, r1)" "drop ll r1 = b0 # b1 # r3"
    "varlen (match_nibble token) r3 = Some (ml, r4)"
  from arg_cong [OF a(2), of length] have "length r3 \<le> length r1" by simp
  with varlen_shorter [OF a(1)] varlen_shorter [OF a(3)] show "length r4 < Suc (length r)" by simp
qed

declare lz4_distances.simps(2) [simp del]

end
