(* ===== verification/Lz4_Dec_Proof.thy ===== *)
theory Lz4_Dec_Proof
  imports Lz4_Spec
begin

text \<open>
  The decompressor against the format. One pass over the two loops shows three things of every
  stage: no access leaves a buffer and no \<open>memcpy\<close> overlaps (the result is never \<open>None\<close>); a
  stage that succeeds computes the format's decoding; a stage reports an error only on input
  that breaks the end-of-block rules or does not fit.
\<close>

section \<open>Reading lengths\<close>

definition ctx_ok :: "lz4_ctx \<Rightarrow> bool" where
  "ctx_ok c \<longleftrightarrow> ddst_at c + oend c < 2 ^ 64 \<and> dsrc_at c + iend c < 2 ^ 64"

lemma ptr_overflow_False: "base + off + len < 2 ^ 64 \<Longrightarrow> \<not> ptr_overflow base off len"
  by (simp add: ptr_overflow_def word_less_nat_alt unat_word_ariths flip: of_nat_add)

lemma rvl_loop_spec:
  assumes "ip < length source" "ilimit < int (length source)"
  shows "\<exists>r ip'. rvl_loop source ip ilimit len = Some (r, ip') \<and>
    (case r of
       Some n \<Rightarrow> \<exists>k. ext_len (drop ip source) = Some (k, drop ip' source) \<and> n = len + k \<and>
         int ip' \<le> ilimit
     | None \<Rightarrow> \<forall>k rest. ext_len (drop ip source) = Some (k, rest) \<longrightarrow>
         ilimit < int (length source) - int (length rest))"
  using assms
proof (induction source ip ilimit len rule: rvl_loop.induct)
  case (1 source ip ilimit len)
  let ?b = "source ! ip"
  have drop: "drop ip source = ?b # drop (Suc ip) source"
    using "1.prems"(1) by (simp add: Cons_nth_drop_Suc)
  have b255: "?b = 255 \<longleftrightarrow> unat ?b = 255"
    using word_unat_eq_iff [of ?b 255] by simp
  show ?case
  proof (cases "ilimit < int (ip + 1)")
    case True
    have "length rest < length (drop ip source)" if "ext_len (drop ip source) = Some (k, rest)" for k rest
      using that by (rule ext_len_shorter)
    then have "ilimit < int (length source) - int (length rest)"
      if "ext_len (drop ip source) = Some (k, rest)" for k rest
      using that True "1.prems"(1) by fastforce
    with True "1.prems"(1) show ?thesis by (subst rvl_loop.simps) (simp add: Let_def)
  next
    case limit: False
    show ?thesis
    proof (cases "unat ?b = 255")
      case True
      have "Suc ip < length source" using limit "1.prems"(2) by simp
      then have "\<exists>r ip'. rvl_loop source (ip + 1) ilimit (len + unat ?b) = Some (r, ip') \<and>
        (case r of
           Some n \<Rightarrow> \<exists>k. ext_len (drop (ip + 1) source) = Some (k, drop ip' source) \<and>
             n = len + unat ?b + k \<and> int ip' \<le> ilimit
         | None \<Rightarrow> \<forall>k rest. ext_len (drop (ip + 1) source) = Some (k, rest) \<longrightarrow>
             ilimit < int (length source) - int (length rest))"
        using limit True "1.prems"(2) by (intro "1.IH" [OF "1.prems"(1) refl]) auto
      then obtain r ip' where IH: "rvl_loop source (ip + 1) ilimit (len + unat ?b) = Some (r, ip')"
        "case r of
           Some n \<Rightarrow> \<exists>k. ext_len (drop (ip + 1) source) = Some (k, drop ip' source) \<and>
             n = len + unat ?b + k \<and> int ip' \<le> ilimit
         | None \<Rightarrow> \<forall>k rest. ext_len (drop (ip + 1) source) = Some (k, rest) \<longrightarrow>
             ilimit < int (length source) - int (length rest)"
        by blast
      have "rvl_loop source ip ilimit len = Some (r, ip')"
        using IH(1) limit True "1.prems"(1) by (subst rvl_loop.simps) (simp add: Let_def)
      with IH(2) True b255 show ?thesis
        unfolding drop by (auto split: option.splits)
    next
      case False
      then have "rvl_loop source ip ilimit len = Some (Some (len + unat ?b), ip + 1)"
        using limit "1.prems"(1) by (subst rvl_loop.simps) (simp add: Let_def)
      with False limit b255 show ?thesis unfolding drop by simp
    qed
  qed
qed

text \<open>The same for \<open>read_variable_length\<close>, in the two ways the decoder calls it.\<close>

lemma read_match_length:
  assumes "ip < iend c"
  obtains r ip' where
    "read_variable_length (dsrc c) ip (int (iend c) - int LASTLITERALS + 1) False = Some (r, ip')"
    "\<And>n. r = Some n \<Longrightarrow> varlen 15 (drop ip (dsrc c)) = Some (15 + n, drop ip' (dsrc c)) \<and> ip' + 4 \<le> iend c"
    "\<And>ml rest. r = None \<Longrightarrow> varlen 15 (drop ip (dsrc c)) = Some (ml, rest) \<Longrightarrow> length rest < 4"
proof -
  obtain r ip' where r: "rvl_loop (dsrc c) ip (int (iend c) - int LASTLITERALS + 1) 0 = Some (r, ip')"
    "case r of
       Some n \<Rightarrow> \<exists>k. ext_len (drop ip (dsrc c)) = Some (k, drop ip' (dsrc c)) \<and> n = 0 + k \<and>
         int ip' \<le> int (iend c) - int LASTLITERALS + 1
     | None \<Rightarrow> \<forall>k rest. ext_len (drop ip (dsrc c)) = Some (k, rest) \<longrightarrow>
         int (iend c) - int LASTLITERALS + 1 < int (length (dsrc c)) - int (length rest)"
    using rvl_loop_spec [OF assms, of "int (iend c) - int LASTLITERALS + 1" 0] by auto
  show ?thesis
  proof (rule that [of r ip'])
    show "read_variable_length (dsrc c) ip (int (iend c) - int LASTLITERALS + 1) False = Some (r, ip')"
      using r(1) by (simp add: read_variable_length_def)
  qed (use r(2) in \<open>auto simp: varlen_def\<close>)
qed

lemma read_literal_length:
  obtains r ip' where
    "read_variable_length (dsrc c) ip (int (iend c) - int RUN_MASK) True = Some (r, ip')"
    "\<And>n. r = Some n \<Longrightarrow> varlen 15 (drop ip (dsrc c)) = Some (15 + n, drop ip' (dsrc c)) \<and> ip' + 15 \<le> iend c"
    "\<And>ll rest. r = None \<Longrightarrow> varlen 15 (drop ip (dsrc c)) = Some (ll, rest) \<Longrightarrow> length rest < 15"
proof (cases "int (iend c) - int RUN_MASK \<le> int ip")
  case True
  have short: "varlen 15 (drop ip (dsrc c)) = Some (ll, rest) \<Longrightarrow> length rest < 15" for ll rest
    using True by (auto simp: varlen_def dest!: ext_len_shorter)
  show ?thesis
    by (rule that [of None ip]) (use True short in \<open>auto simp: read_variable_length_def\<close>)
next
  case False
  obtain r ip' where r: "rvl_loop (dsrc c) ip (int (iend c) - int RUN_MASK) 0 = Some (r, ip')"
    "case r of
       Some n \<Rightarrow> \<exists>k. ext_len (drop ip (dsrc c)) = Some (k, drop ip' (dsrc c)) \<and> n = 0 + k \<and>
         int ip' \<le> int (iend c) - int RUN_MASK
     | None \<Rightarrow> \<forall>k rest. ext_len (drop ip (dsrc c)) = Some (k, rest) \<longrightarrow>
         int (iend c) - int RUN_MASK < int (length (dsrc c)) - int (length rest)"
    using rvl_loop_spec [of ip "dsrc c" "int (iend c) - int RUN_MASK" 0] False by auto
  show ?thesis
  proof (rule that [of r ip'])
    show "read_variable_length (dsrc c) ip (int (iend c) - int RUN_MASK) True = Some (r, ip')"
      using r(1) False by (simp add: read_variable_length_def)
  qed (use r(2) in \<open>auto simp: varlen_def\<close>)
qed

section \<open>The invariant of the output buffer\<close>

text \<open>The first \<open>d_op\<close> bytes of the buffer are the output \<open>out\<close>; \<open>N\<close> is the buffer's size.\<close>

definition buf_ok :: "lz4_ctx \<Rightarrow> nat \<Rightarrow> lz4_dec \<Rightarrow> bytes \<Rightarrow> bool" where
  "buf_ok c N d out \<longleftrightarrow> length (d_dst d) = N \<and> oend c \<le> N \<and> d_op d = length out \<and>
     length out \<le> oend c \<and> take (length out) (d_dst d) = out"

lemma filled_take:
  assumes "filled m d g k m'" "d \<le> e" "e \<le> k" "e \<le> length m" "take d m = out"
  shows "take e m' = out @ map (\<lambda>j. g (d + j)) [0..<e - d]"
proof (rule nth_equalityI)
  from assms have out: "length out = d" by auto
  then show "length (take e m') = length (out @ map (\<lambda>j. g (d + j)) [0..<e - d])"
    using assms by (auto simp: filled_def)
  fix i
  assume i: "i < length (take e m')"
  then show "take e m' ! i = (out @ map (\<lambda>j. g (d + j)) [0..<e - d]) ! i"
    using assms out by (cases "i < d") (auto simp: filled_def nth_append)
qed

lemma rep_take:
  assumes "rep m (length out) off k m'" "length out + n \<le> k" "length out + n \<le> length m"
    "take (length out) m = out" "off \<le> length out"
  shows "take (length out + n) m' = lz_copy out off n"
proof -
  have "m ! (length out - off + j mod off) = out ! (length out - off + j mod off)" if "0 < off" for j
  proof -
    have "length out - off + j mod off < length out" using that assms(5) by (simp add: add.commute less_diff_conv2)
    then show ?thesis using assms(4) by (metis nth_take)
  qed
  then have "lz_byte m (length out) off (length out + j) = lz_byte out (length out) off (length out + j)" for j
    by (simp add: lz_byte_def)
  with filled_take [OF assms(1) _ assms(2,3,4)] show ?thesis by (simp add: lz_copy_def)
qed

lemma lit_rep_take:
  assumes "lit_rep m (length out) source i k m'" "length out + n \<le> k" "length out + n \<le> length m"
    "take (length out) m = out" "i + n \<le> length source"
  shows "take (length out + n) m' = out @ take n (drop i source)"
proof -
  have "map (\<lambda>j. source ! (i + (length out + j - length out))) [0..<n] = take n (drop i source)"
    using assms(5) by (intro nth_equalityI) auto
  with filled_take [OF assms(1) _ assms(2,3,4)] show ?thesis by simp
qed

section \<open>The stages\<close>

text \<open>
  What holds at the labels of the code. \<open>tot\<close> is the decoded size of a block that obeys the
  end-of-block rules, if the source is one.
\<close>

definition dec_ctx :: "lz4_ctx \<Rightarrow> nat \<Rightarrow> nat \<Rightarrow> bool" where
  "dec_ctx c tot N \<longleftrightarrow> ctx_ok c \<and> tot \<le> oend c \<and> oend c \<le> N"

abbreviation result_of :: "lz4_ctx \<Rightarrow> bytes option" where
  "result_of c \<equiv> lz4_decode (dsrc c) []"

abbreviation obeys :: "lz4_ctx \<Rightarrow> nat \<Rightarrow> bool" where
  "obeys c tot \<equiv> lz4_strict tot (dsrc c) 0"

definition at_top :: "lz4_ctx \<Rightarrow> nat \<Rightarrow> nat \<Rightarrow> lz4_dec \<Rightarrow> bytes \<Rightarrow> bool" where
  "at_top c tot N d out \<longleftrightarrow> buf_ok c N d out \<and> d_ip d < iend c \<and>
     result_of c = lz4_decode (drop (d_ip d) (dsrc c)) out \<and>
     (obeys c tot \<longrightarrow> lz4_strict tot (drop (d_ip d) (dsrc c)) (length out))"

definition at_lit :: "lz4_ctx \<Rightarrow> nat \<Rightarrow> nat \<Rightarrow> lz4_dec \<Rightarrow> bytes \<Rightarrow> bool" where
  "at_lit c tot N d out \<longleftrightarrow> buf_ok c N d out \<and> d_ip d \<le> iend c \<and>
     result_of c = decode_lit (d_tok d) (d_len d) (drop (d_ip d) (dsrc c)) out \<and>
     (obeys c tot \<longrightarrow> strict_lit tot (d_tok d) (d_len d) (drop (d_ip d) (dsrc c)) (length out))"

definition at_match :: "lz4_ctx \<Rightarrow> nat \<Rightarrow> nat \<Rightarrow> lz4_dec \<Rightarrow> bytes \<Rightarrow> bool" where
  "at_match c tot N d out \<longleftrightarrow> buf_ok c N d out \<and> d_ip d < iend c \<and>
     length out + MFLIMIT \<le> oend c \<and>
     result_of c = decode_match (d_len d) (d_off d) (drop (d_ip d) (dsrc c)) out \<and>
     (obeys c tot \<longrightarrow> strict_match tot (d_len d) (d_off d) (drop (d_ip d) (dsrc c)) (length out))"

definition at_copy :: "lz4_ctx \<Rightarrow> nat \<Rightarrow> nat \<Rightarrow> lz4_dec \<Rightarrow> bytes \<Rightarrow> bool" where
  "at_copy c tot N d out \<longleftrightarrow> buf_ok c N d out \<and> d_ip d < iend c \<and>
     length out + MFLIMIT \<le> oend c \<and> MINMATCH \<le> d_len d \<and>
     result_of c = (if length out < d_off d then None
       else lz4_decode (drop (d_ip d) (dsrc c)) (lz_copy out (d_off d) (d_len d))) \<and>
     (obeys c tot \<longrightarrow> d_off d \<le> length out \<and> length out + d_len d + LASTLITERALS \<le> tot \<and>
       lz4_strict tot (drop (d_ip d) (dsrc c)) (length out + d_len d))"

definition step_ok :: "lz4_ctx \<Rightarrow> nat \<Rightarrow> nat \<Rightarrow> dec_step \<Rightarrow> bool" where
  "step_ok c tot N step \<longleftrightarrow>
     (case step of
        OutputError _ \<Rightarrow> \<not> obeys c tot
      | Break d' \<Rightarrow> result_of c = Some (take (d_op d') (d_dst d')) \<and> d_op d' \<le> oend c \<and>
          length (d_dst d') = N
      | Continue d' \<Rightarrow> \<exists>out'. at_top c tot N d' out')"

text \<open>After a match copy that filled up to \<open>op + len\<close>, the loop is at its top again.\<close>

lemma at_top_copied:
  assumes "at_copy c tot N d out" "d_off d \<le> length out" "length out + d_len d \<le> oend c"
    and "rep (d_dst d) (length out) (d_off d) (length out + d_len d) m"
  shows "at_top c tot N (d\<lparr>d_dst := m, d_op := length out + d_len d\<rparr>)
    (lz_copy out (d_off d) (d_len d))"
proof -
  have buf: "take (length out) (d_dst d) = out" "length (d_dst d) = N" "oend c \<le> N"
    using assms(1) by (auto simp: at_copy_def buf_ok_def)
  have "take (length out + d_len d) m = lz_copy out (d_off d) (d_len d)"
    using rep_take [OF assms(4) order_refl] buf assms(2,3) by simp
  with assms buf show ?thesis
    by (auto simp: at_top_def at_copy_def buf_ok_def filled_length)
qed

lemma copy_match_near_rep:
  assumes "off \<le> op" "oe \<le> length m" "cpy + 5 \<le> oe"
    "rep m op off (op + 8) m1" "src_ok op off (op + 8) s1" "s1 \<le> int op"
  shows "\<exists>m'. copy_match_near oe m1 (op + 8) s1 cpy = Some m' \<and> rep m op off cpy m'"
proof (cases "op + 8 < oe - 7")
  case True
  obtain m2 K where m2: "LZ4_wildCopy8 copy_self m1 (op + 8) s1 (oe - 7) = Some m2"
    "rep m op off K m2" "oe - 7 \<le> K"
    using wildCopy8_self_rep [OF assms(4,1) _ assms(5), of "oe - 7"] assms(2,6) True by auto
  have fill: "rep m op off (oe - 7) m2" by (rule filled_mono [OF m2(2,3)])
  define s2 where "s2 = s1 + (int (oe - 7) - int (op + 8))"
  have "s2 = int (oe - 7) + (s1 - int (op + 8))" by (simp add: s2_def)
  then have ok: "src_ok op off (oe - 7) s2" and less: "s2 < int (oe - 7)"
    using src_ok_step [OF assms(5), of "oe - 7"] True assms(6) by auto
  obtain m3 K' where "copy_bytes_to m2 (oe - 7) s2 cpy = Some m3" "rep m op off K' m3" "cpy \<le> K'"
    using copy_bytes_to_rep [OF fill assms(1) _ ok less, of cpy] True assms(2,3) by auto
  with True m2(1) show ?thesis
    by (auto simp: copy_match_near_def s2_def Let_def intro: filled_mono)
next
  case False
  obtain m3 K' where "copy_bytes_to m1 (op + 8) s1 cpy = Some m3" "rep m op off K' m3" "cpy \<le> K'"
    using copy_bytes_to_rep [OF assms(4,1) _ assms(5), of cpy] assms(2,3,6) by auto
  with False show ?thesis by (auto simp: copy_match_near_def Let_def intro: filled_mono)
qed

lemma copy_match_far_rep:
  assumes "off \<le> op" "oe \<le> length m" "4 \<le> len" "op + len + 12 \<le> oe"
    "rep m op off (op + 8) m1" "src_ok op off (op + 8) s1" "s1 \<le> int op"
  shows "\<exists>m'. copy_match_far m1 (op + 8) s1 len (op + len) = Some m' \<and> rep m op off (op + len) m'"
proof -
  obtain m2 where m2: "copy_self m1 (op + 8) s1 8 = Some m2" "rep m op off (op + 8 + 8) m2"
    using copy_self_rep [OF assms(5,1) _ assms(6), of 8] assms by auto
  show ?thesis
  proof (cases "16 < len")
    case True
    have "src_ok op off (op + 8 + 8) (s1 + 8)" using src_ok_shift [OF assms(6), of 8] by simp
    then obtain m3 K where "LZ4_wildCopy8 copy_self m2 (op + 8 + 8) (s1 + 8) (op + len) = Some m3"
      "rep m op off K m3" "op + len \<le> K"
      using wildCopy8_self_rep [OF m2(2) assms(1), of "s1 + 8" "op + len"] assms True by auto
    with m2(1) True show ?thesis by (auto simp: copy_match_far_def intro: filled_mono)
  next
    case False
    with m2 assms show ?thesis by (auto simp: copy_match_far_def intro: filled_mono)
  qed
qed

lemma safe_match_copy_ok:
  assumes ctx: "dec_ctx c tot N" and at: "at_copy c tot N d out"
  shows "\<exists>step. safe_match_copy c d = Some step \<and> step_ok c tot N step"
proof -
  have buf: "d_op d = length out" "length (d_dst d) = N" "oend c \<le> N" "tot \<le> oend c"
    "length out + 12 \<le> oend c" "4 \<le> d_len d"
    using ctx at by (auto simp: dec_ctx_def at_copy_def buf_ok_def)
  show ?thesis
  proof (cases "length out < d_off d")
    case True
    with at buf(1) show ?thesis by (auto simp: safe_match_copy_def step_ok_def at_copy_def)
  next
    case False
    then have off: "d_off d \<le> length out" by simp
    obtain m1 s1 where f8: "copy_first8 (d_dst d) (length out) (int (length out) - int (d_off d)) (d_off d)
        = Some (m1, s1)"
      "rep (d_dst d) (length out) (d_off d) (length out + 8) m1"
      "src_ok (length out) (d_off d) (length out + 8) s1" "s1 \<le> int (length out)"
      using copy_first8_rep [OF off, of "d_dst d"] buf by auto
    have fin: "step_ok c tot N (Continue (d\<lparr>d_dst := m', d_op := length out + d_len d\<rparr>))"
      if "rep (d_dst d) (length out) (d_off d) (length out + d_len d) m'"
        "length out + d_len d \<le> oend c" for m'
      using at_top_copied [OF at off that(2,1)] by (auto simp: step_ok_def)
    consider (err) "oend c < length out + d_len d + 5"
      | (near) "length out + d_len d + 5 \<le> oend c" "oend c < length out + d_len d + 12"
      | (far) "length out + d_len d + 12 \<le> oend c" by linarith
    then show ?thesis
    proof cases
      case err
      with at buf f8(1) off show ?thesis
        by (auto simp: safe_match_copy_def step_ok_def at_copy_def Let_def)
    next
      case near
      with copy_match_near_rep [OF off _ _ f8(2-4), of "oend c" "length out + d_len d"] buf
      obtain m' where "copy_match_near (oend c) m1 (length out + 8) s1 (length out + d_len d) = Some m'"
        "rep (d_dst d) (length out) (d_off d) (length out + d_len d) m'" by auto
      with fin [of m'] near buf f8(1) off show ?thesis
        by (simp add: safe_match_copy_def Let_def)
    next
      case far
      with copy_match_far_rep [OF off _ buf(6) far f8(2-4)] buf
      obtain m' where "copy_match_far m1 (length out + 8) s1 (d_len d) (length out + d_len d) = Some m'"
        "rep (d_dst d) (length out) (d_off d) (length out + d_len d) m'" by auto
      with fin [of m'] far buf f8(1) off show ?thesis
        by (simp add: safe_match_copy_def Let_def)
    qed
  qed
qed

lemma lit_nibble_div: "lit_nibble t = unat t div 16"
  by (simp add: lit_nibble_def unat_div drop_bit_eq_div)

lemma match_nibble_mod: "match_nibble t = unat t mod 16"
proof -
  have "t AND 15 = take_bit 4 t" by (simp add: take_bit_eq_mask mask_eq_exp_minus_1)
  then show ?thesis by (simp add: match_nibble_def unsigned_take_bit_eq flip: take_bit_eq_mod [of 4, simplified])
qed

lemma nibbles_less [simp]: "lit_nibble t < 16" "match_nibble t < 16"
  using unat_u8_less [of t] by (simp_all add: lit_nibble_div match_nibble_mod less_mult_imp_div_less)

lemma at_match_short:
  assumes "at_match c tot N d out" "d_len d \<noteq> 15"
  shows "at_copy c tot N (d\<lparr>d_len := d_len d + 4\<rparr>) out"
  using assms
  by (auto simp: at_copy_def at_match_def buf_ok_def decode_match_def strict_match_def varlen_def)

lemma at_match_long:
  assumes at: "at_match c tot N d out" and len: "d_len d = 15"
  shows "\<exists>r ip'.
    read_variable_length (dsrc c) (d_ip d) (int (iend c) - int LASTLITERALS + 1) False = Some (r, ip') \<and>
    (case r of
       None \<Rightarrow> \<not> obeys c tot
     | Some n \<Rightarrow> at_copy c tot N (d\<lparr>d_ip := ip', d_len := 15 + n + 4\<rparr>) out)"
proof -
  have ip: "d_ip d < iend c" using at by (simp add: at_match_def)
  obtain r ip' where r:
    "read_variable_length (dsrc c) (d_ip d) (int (iend c) - int LASTLITERALS + 1) False = Some (r, ip')"
    "\<And>n. r = Some n \<Longrightarrow> varlen 15 (drop (d_ip d) (dsrc c)) = Some (15 + n, drop ip' (dsrc c)) \<and> ip' + 4 \<le> iend c"
    "\<And>ml rest. r = None \<Longrightarrow> varlen 15 (drop (d_ip d) (dsrc c)) = Some (ml, rest) \<Longrightarrow> length rest < 4"
    by (rule read_match_length [OF ip]) (rule that, assumption, blast+)
  show ?thesis
  proof (cases r)
    case None
    have "\<not> obeys c tot"
    proof
      assume "obeys c tot"
      with at len obtain ml rest where v: "varlen 15 (drop (d_ip d) (dsrc c)) = Some (ml, rest)"
        and s: "lz4_strict tot rest (length out + (ml + 4))" "length out + (ml + 4) + 5 \<le> tot"
        by (auto simp: at_match_def strict_match_def split: option.splits)
      with lz4_strict_length [OF s] r(3) [OF None v] show False by simp
    qed
    with None r(1) show ?thesis by simp
  next
    case (Some n)
    have "at_copy c tot N (d\<lparr>d_ip := ip', d_len := 15 + n + 4\<rparr>) out"
      using at len r(2) [OF Some]
      by (auto simp: at_copy_def at_match_def buf_ok_def decode_match_def strict_match_def)
    with Some r(1) show ?thesis by simp
  qed
qed

text \<open>No overflow check fires on a block that obeys the rules.\<close>

lemma at_copy_no_overflow:
  assumes "dec_ctx c tot N" "at_copy c tot N d out" "obeys c tot" "n \<le> d_len d"
  shows "\<not> ptr_overflow (ddst_at c) (d_op d) n"
  using assms by (intro ptr_overflow_False) (auto simp: dec_ctx_def ctx_ok_def at_copy_def buf_ok_def)

lemma copy_match_ok:
  assumes ctx: "dec_ctx c tot N" and at: "at_match c tot N d out"
  shows "\<exists>step. copy_match c d = Some step \<and> step_ok c tot N step"
proof (cases "d_len d = 15")
  case False
  with safe_match_copy_ok [OF ctx at_match_short [OF at]] show ?thesis by (simp add: copy_match_def)
next
  case True
  from at_match_long [OF at True] obtain r ip' where r:
    "read_variable_length (dsrc c) (d_ip d) (int (iend c) - int LASTLITERALS + 1) False = Some (r, ip')"
    "case r of None \<Rightarrow> \<not> obeys c tot
     | Some n \<Rightarrow> at_copy c tot N (d\<lparr>d_ip := ip', d_len := 15 + n + 4\<rparr>) out" by blast
  show ?thesis
  proof (cases r)
    case None
    with r True show ?thesis by (simp add: copy_match_def step_ok_def)
  next
    case (Some n)
    with r(2) have copy: "at_copy c tot N (d\<lparr>d_ip := ip', d_len := 15 + n + 4\<rparr>) out" by simp
    show ?thesis
    proof (cases "ptr_overflow (ddst_at c) (d_op d) (15 + n)")
      case over: True
      with at_copy_no_overflow [OF ctx copy, of "15 + n"] have "\<not> obeys c tot" by auto
      with Some r(1) True over show ?thesis by (simp add: copy_match_def step_ok_def)
    next
      case False
      with safe_match_copy_ok [OF ctx copy] True Some r(1) show ?thesis
        by (simp add: copy_match_def)
    qed
  qed
qed

text \<open>From the top of either loop to the literals, and over the literals to the match.\<close>

lemma lit_stage:
  assumes "at_top c tot N d out"
    and "varlen (lit_nibble (dsrc c ! d_ip d)) (drop (d_ip d + 1) (dsrc c)) = Some (ll, drop ip' (dsrc c))"
    and "ip' \<le> iend c"
  shows "at_lit c tot N (d\<lparr>d_ip := ip', d_tok := dsrc c ! d_ip d, d_len := ll\<rparr>) out"
proof -
  have "drop (d_ip d) (dsrc c) = dsrc c ! d_ip d # drop (d_ip d + 1) (dsrc c)"
    using assms(1) by (simp add: at_top_def Cons_nth_drop_Suc)
  with assms show ?thesis
    by (auto simp: at_top_def at_lit_def buf_ok_def lz4_decode_Cons lz4_strict_Cons)
qed

lemma readLE16_drop:
  assumes "i + 2 \<le> length source"
  obtains b0 b1 where "LZ4_readLE16 source i = Some (unat b0 + 256 * unat b1)"
    "drop i source = b0 # b1 # drop (i + 2) source"
proof (rule that)
  show "LZ4_readLE16 source i = Some (unat (source ! i) + 256 * unat (source ! (i + 1)))"
    using assms by (simp add: LZ4_readLE16_def)
  show "drop i source = source ! i # source ! (i + 1) # drop (i + 2) source"
    using assms by (simp add: Cons_nth_drop_Suc)
qed

lemma match_stage:
  assumes "at_lit c tot N d out" "d_ip d + d_len d + 2 < iend c"
    "length out + d_len d + MFLIMIT \<le> oend c"
    "lit_rep (d_dst d) (length out) (dsrc c) (d_ip d) K m" "length out + d_len d \<le> K"
  shows "\<exists>off out'. LZ4_readLE16 (dsrc c) (d_ip d + d_len d) = Some off \<and>
    length out' = length out + d_len d \<and>
    (\<forall>d'. d_dst d' = m \<and> d_ip d' = d_ip d + d_len d + 2 \<and> d_op d' = length out + d_len d \<and>
       d_off d' = off \<and> d_len d' = match_nibble (d_tok d) \<longrightarrow> at_match c tot N d' out')"
proof -
  obtain b0 b1 where off: "LZ4_readLE16 (dsrc c) (d_ip d + d_len d) = Some (unat b0 + 256 * unat b1)"
    and drop: "drop (d_ip d + d_len d) (dsrc c) = b0 # b1 # drop (d_ip d + d_len d + 2) (dsrc c)"
    using readLE16_drop [of "d_ip d + d_len d" "dsrc c"] assms(2) by auto
  have buf: "length (d_dst d) = N" "oend c \<le> N" "take (length out) (d_dst d) = out"
    using assms(1) by (auto simp: at_lit_def buf_ok_def)
  have "take (length out + d_len d) m = out @ take (d_len d) (drop (d_ip d) (dsrc c))"
    using lit_rep_take [OF assms(4,5)] buf assms(2,3) by simp
  with buf assms(1-3) drop filled_length [OF assms(4)]
  have "at_match c tot N d' (out @ take (d_len d) (drop (d_ip d) (dsrc c)))"
    if "d_dst d' = m \<and> d_ip d' = d_ip d + d_len d + 2 \<and> d_op d' = length out + d_len d \<and>
       d_off d' = unat b0 + 256 * unat b1 \<and> d_len d' = match_nibble (d_tok d)" for d'
    using that
    by (auto simp: at_match_def at_lit_def buf_ok_def decode_lit_def strict_lit_def add.commute)
  with off assms(2) show ?thesis
    by (intro exI [of _ "unat b0 + 256 * unat b1"]
      exI [of _ "out @ take (d_len d) (drop (d_ip d) (dsrc c))"]) simp
qed

lemma strict_lit_end:
  assumes "strict_lit tot tok ll r n"
  shows "ll \<le> length r" "ll = length r \<and> n + ll = tot \<or> ll + 8 \<le> length r \<and> n + ll + 12 \<le> tot"
proof -
  show len: "ll \<le> length r" using assms by (simp add: strict_lit_def)
  show "ll = length r \<and> n + ll = tot \<or> ll + 8 \<le> length r \<and> n + ll + 12 \<le> tot"
  proof (cases "drop ll r")
    case Nil
    with assms len show ?thesis by (simp add: strict_lit_def)
  next
    case (Cons b0 rest)
    with assms obtain b1 r3 where d: "drop ll r = b0 # b1 # r3"
      and m: "strict_match tot (match_nibble tok) (unat b0 + 256 * unat b1) r3 (n + ll)"
      by (auto simp: strict_lit_def split: list.splits)
    from arg_cong [OF d, of length] have "length r = ll + 2 + length r3" using len by simp
    moreover have "6 \<le> length r3"
      using m by (rule strict_match_length) (rule lz4_strict_length)
    ultimately show ?thesis using m by (simp add: strict_match_def)
  qed
qed

lemma safe_literal_copy_ok:
  assumes ctx: "dec_ctx c tot N" and at: "at_lit c tot N d out"
  shows "\<exists>step. safe_literal_copy c d = Some step \<and> step_ok c tot N step"
proof -
  have buf: "d_op d = length out" "length (d_dst d) = N" "oend c \<le> N" "tot \<le> oend c"
    "d_ip d \<le> iend c" "take (length out) (d_dst d) = out"
    using ctx at by (auto simp: dec_ctx_def at_lit_def buf_ok_def)
  have strict: "strict_lit tot (d_tok d) (d_len d) (drop (d_ip d) (dsrc c)) (length out)" if "obeys c tot"
    using at that by (simp add: at_lit_def)
  have obeys: "d_ip d + d_len d = iend c \<and> length out + d_len d \<le> oend c \<or>
      d_ip d + d_len d + 8 \<le> iend c \<and> length out + d_len d + 12 \<le> oend c" if "obeys c tot"
    using strict_lit_end [OF strict [OF that]] buf by auto
  show ?thesis
  proof (cases "oend c < length out + d_len d + 12 \<or> iend c < d_ip d + d_len d + 8")
    case last: True
    show ?thesis
    proof (cases "d_ip d + d_len d \<noteq> iend c \<or> oend c < length out + d_len d")
      case True
      with obeys last have "\<not> obeys c tot" by auto
      with True last buf(1) show ?thesis
        by (simp add: safe_literal_copy_def Let_def step_ok_def)
    next
      case False
      with buf copy_lit_direct [of "d_ip d" "d_len d" "dsrc c" "length out" "d_dst d"]
      obtain m where m: "copy_lit (dsrc c) (d_dst d) (length out) (int (d_ip d)) (d_len d) = Some m"
        "lit_rep (d_dst d) (length out) (dsrc c) (d_ip d) (length out + d_len d) m" by auto
      have "iend c - d_ip d \<le> d_len d" using False by linarith
      with lit_rep_take [OF m(2) order_refl] False buf
      have "take (length out + d_len d) m = out @ drop (d_ip d) (dsrc c)" by simp
      moreover have "result_of c = Some (out @ drop (d_ip d) (dsrc c))"
        using at False by (auto simp: at_lit_def decode_lit_def)
      ultimately show ?thesis
        using m(1) filled_length [OF m(2)] False last buf
        by (simp add: safe_literal_copy_def Let_def step_ok_def)
    qed
  next
    case False
    obtain m K where m: "LZ4_wildCopy8 (copy_lit (dsrc c)) (d_dst d) (length out) (int (d_ip d))
        (length out + d_len d) = Some m"
      "lit_rep (d_dst d) (length out) (dsrc c) (d_ip d) K m" "length out + d_len d \<le> K"
      using wildCopy8_lit_rep [of "d_ip d" "length out + d_len d" "length out" "dsrc c" "d_dst d"]
        False buf by auto
    from match_stage [OF at _ _ m(2,3)] False obtain off out'
      where off: "LZ4_readLE16 (dsrc c) (d_ip d + d_len d) = Some off"
      and "\<And>d'. d_dst d' = m \<Longrightarrow> d_ip d' = d_ip d + d_len d + 2 \<Longrightarrow> d_op d' = length out + d_len d \<Longrightarrow>
        d_off d' = off \<Longrightarrow> d_len d' = match_nibble (d_tok d) \<Longrightarrow> at_match c tot N d' out'" by auto
    then have match: "at_match c tot N (d\<lparr>d_dst := m, d_ip := d_ip d + d_len d + 2,
        d_op := length out + d_len d, d_off := off, d_len := match_nibble (d_tok d)\<rparr>) out'" by simp
    from copy_match_ok [OF ctx match] off m(1) False buf(1) show ?thesis
      by (simp add: safe_literal_copy_def Let_def)
  qed
qed

text \<open>The literal length at the top of either loop.\<close>

lemma at_top_Cons:
  assumes "at_top c tot N d out"
  shows "drop (d_ip d) (dsrc c) = dsrc c ! d_ip d # drop (d_ip d + 1) (dsrc c)"
  using assms by (simp add: at_top_def Cons_nth_drop_Suc)

lemma at_top_short:
  assumes "at_top c tot N d out" "lit_nibble (dsrc c ! d_ip d) \<noteq> 15"
  shows "at_lit c tot N (d\<lparr>d_ip := d_ip d + 1, d_tok := dsrc c ! d_ip d,
    d_len := lit_nibble (dsrc c ! d_ip d)\<rparr>) out"
  using assms by (intro lit_stage) (auto simp: varlen_def at_top_def)

lemma at_top_long:
  assumes ctx: "dec_ctx c tot N" and at: "at_top c tot N d out"
    and nib: "lit_nibble (dsrc c ! d_ip d) = 15"
  shows "\<exists>r ip'.
    read_variable_length (dsrc c) (d_ip d + 1) (int (iend c) - int RUN_MASK) True = Some (r, ip') \<and>
    (case r of
       None \<Rightarrow> \<not> obeys c tot
     | Some n \<Rightarrow>
         at_lit c tot N (d\<lparr>d_tok := dsrc c ! d_ip d, d_ip := ip', d_len := 15 + n\<rparr>) out \<and>
         (obeys c tot \<longrightarrow> \<not> ptr_overflow (ddst_at c) (d_op d) (15 + n) \<and>
            \<not> ptr_overflow (dsrc_at c) ip' (15 + n)))"
proof -
  obtain r ip' where r:
    "read_variable_length (dsrc c) (d_ip d + 1) (int (iend c) - int RUN_MASK) True = Some (r, ip')"
    "\<And>n. r = Some n \<Longrightarrow> varlen 15 (drop (d_ip d + 1) (dsrc c)) = Some (15 + n, drop ip' (dsrc c)) \<and> ip' + 15 \<le> iend c"
    "\<And>ll rest. r = None \<Longrightarrow> varlen 15 (drop (d_ip d + 1) (dsrc c)) = Some (ll, rest) \<Longrightarrow> length rest < 15"
    by (rule read_literal_length [of c "d_ip d + 1"]) (rule that, assumption, blast+)
  show ?thesis
  proof (cases r)
    case None
    have "\<not> obeys c tot"
    proof
      assume "obeys c tot"
      with at nib obtain ll rest where v: "varlen 15 (drop (d_ip d + 1) (dsrc c)) = Some (ll, rest)"
        and s: "strict_lit tot (dsrc c ! d_ip d) ll rest (length out)"
        unfolding at_top_def at_top_Cons [OF at] lz4_strict_Cons by (auto split: option.splits)
      have "15 \<le> ll" using v by (auto simp: varlen_def)
      with strict_lit_end(1) [OF s] r(3) [OF None v] show False by simp
    qed
    with None r(1) show ?thesis by simp
  next
    case (Some n)
    then have lit: "at_lit c tot N (d\<lparr>d_tok := dsrc c ! d_ip d, d_ip := ip', d_len := 15 + n\<rparr>) out"
      using lit_stage [OF at, of "15 + n" ip'] r(2) [OF Some] nib by (simp add: at_lit_def buf_ok_def)
    have "\<not> ptr_overflow (ddst_at c) (d_op d) (15 + n) \<and> \<not> ptr_overflow (dsrc_at c) ip' (15 + n)"
      if "obeys c tot"
    proof -
      have "strict_lit tot (dsrc c ! d_ip d) (15 + n) (drop ip' (dsrc c)) (length out)"
        using lit that by (simp add: at_lit_def)
      from strict_lit_end [OF this] lit ctx show ?thesis
        by (intro conjI ptr_overflow_False) (auto simp: dec_ctx_def ctx_ok_def at_lit_def buf_ok_def)
    qed
    with lit Some r(1) show ?thesis by simp
  qed
qed

lemma at_top_len [simp]: "at_top c tot N (d\<lparr>d_len := l\<rparr>) out = at_top c tot N d out"
  by (simp add: at_top_def buf_ok_def)

text \<open>The copy of 18 bytes for a short match, from the label of the match.\<close>

lemma short_match:
  assumes at: "at_match c tot N d out" and "d_len d \<noteq> 15" "d_len d < 16" "8 \<le> d_off d" "d_off d \<le> length out"
    "length out + 18 \<le> oend c" "length out + d_len d + 4 \<le> oend c"
  shows "\<exists>m'. do {
      m \<leftarrow> copy_self (d_dst d) (length out) (int (length out) - int (d_off d)) 8;
      m \<leftarrow> copy_self m (length out + 8) (int (length out) - int (d_off d) + 8) 8;
      copy_self m (length out + 16) (int (length out) - int (d_off d) + 16) 2 } = Some m' \<and>
    at_top c tot N (d\<lparr>d_dst := m', d_op := length out + d_len d + 4\<rparr>) (lz_copy out (d_off d) (d_len d + 4))"
proof -
  have len: "length out + 18 \<le> length (d_dst d)"
    using assms by (auto simp: at_match_def buf_ok_def)
  from copy18_rep [OF assms(4,5) len] obtain m' where m': "do {
      m \<leftarrow> copy_self (d_dst d) (length out) (int (length out) - int (d_off d)) 8;
      m \<leftarrow> copy_self m (length out + 8) (int (length out) - int (d_off d) + 8) 8;
      copy_self m (length out + 16) (int (length out) - int (d_off d) + 16) 2 } = Some m'"
    and rep: "rep (d_dst d) (length out) (d_off d) (length out + 18) m'" by blast
  have "rep (d_dst d) (length out) (d_off d) (length out + (d_len d + 4)) m'"
    by (rule filled_mono [OF rep]) (use assms(2,3) in simp)
  with at_top_copied [OF at_match_short [OF at assms(2)], of m'] assms(5,7)
  have "at_top c tot N (d\<lparr>d_len := d_len d + 4, d_dst := m', d_op := length out + (d_len d + 4)\<rparr>)
      (lz_copy out (d_off d) (d_len d + 4))" by simp
  then have "at_top c tot N (d\<lparr>d_dst := m', d_op := length out + d_len d + 4\<rparr>)
      (lz_copy out (d_off d) (d_len d + 4))"
    by (simp add: at_top_def buf_ok_def add.assoc)
  with m' show ?thesis by blast
qed

lemma safe_iter_shortcut:
  assumes ctx: "dec_ctx c tot N" and at: "at_top c tot N d out"
    and nib: "lit_nibble (dsrc c ! d_ip d) < 15"
    and room: "d_ip d + 1 + 14 + 2 < iend c" "length out + 14 + 18 \<le> oend c"
  shows "\<exists>step. safe_iter c d = Some step \<and> step_ok c tot N step"
proof -
  let ?t = "dsrc c ! d_ip d" let ?l = "lit_nibble ?t" let ?ml = "match_nibble ?t"
  have tok: "byte_at (dsrc c) (d_ip d) = Some ?t" "d_op d = length out" "length (d_dst d) = N" "oend c \<le> N"
    using at by (auto simp: byte_at_def at_top_def buf_ok_def)
  obtain m where m: "copy_lit (dsrc c) (d_dst d) (length out) (int (d_ip d + 1)) 16 = Some m"
    "lit_rep (d_dst d) (length out) (dsrc c) (d_ip d + 1) (length out + 16) m"
    using copy_lit_direct [of "d_ip d + 1" 16 "dsrc c" "length out" "d_dst d"] room tok by auto
  have "at_lit c tot N (d\<lparr>d_ip := d_ip d + 1, d_tok := ?t, d_len := ?l\<rparr>) out"
    using nib by (intro at_top_short [OF at]) simp
  from match_stage [OF this, of "length out + 16" m] m(2) nib room
  obtain off out' where off: "LZ4_readLE16 (dsrc c) (d_ip d + 1 + ?l) = Some off"
    and len: "length out' = length out + ?l"
    and match: "\<And>d'. d_dst d' = m \<Longrightarrow> d_ip d' = d_ip d + 1 + ?l + 2 \<Longrightarrow> d_op d' = length out + ?l \<Longrightarrow>
      d_off d' = off \<Longrightarrow> d_len d' = ?ml \<Longrightarrow> at_match c tot N d' out'"
    by auto
  define d2 where "d2 = d\<lparr>d_ip := d_ip d + 1, d_tok := ?t, d_len := ?l\<rparr>
    \<lparr>d_dst := m, d_ip := d_ip d + 1 + ?l + 2, d_op := length out + ?l, d_off := off, d_len := ?ml\<rparr>"
  have d2: "at_match c tot N d2 out'" "d_len d2 = ?ml" "d_off d2 = off" "d_dst d2 = m"
    by (rule match) (simp_all add: d2_def)
  have iter: "safe_iter c d =
      (if ?ml \<noteq> 15 \<and> 8 \<le> off \<and> off \<le> length out' then
         do {
           m \<leftarrow> do {
             m \<leftarrow> copy_self m (length out') (int (length out') - int off) 8;
             m \<leftarrow> copy_self m (length out' + 8) (int (length out') - int off + 8) 8;
             copy_self m (length out' + 16) (int (length out') - int off + 16) 2 };
           Some (Continue (d2\<lparr>d_dst := m, d_op := length out' + ?ml + 4\<rparr>)) }
       else copy_match c d2)"
    using nib tok m(1) off room unfolding safe_iter_def Let_def len d2_def by simp
  show ?thesis
  proof (cases "?ml \<noteq> 15 \<and> 8 \<le> off \<and> off \<le> length out'")
    case False
    with copy_match_ok [OF ctx d2(1)] iter show ?thesis by simp
  next
    case True
    have "length out' + 18 \<le> oend c" "length out' + ?ml + 4 \<le> oend c"
      using len nib room True nibbles_less(2) [of ?t] by linarith+
    with short_match [OF d2(1)] True obtain m' where "do {
        m \<leftarrow> copy_self m (length out') (int (length out') - int off) 8;
        m \<leftarrow> copy_self m (length out' + 8) (int (length out') - int off + 8) 8;
        copy_self m (length out' + 16) (int (length out') - int off + 16) 2 } = Some m'"
      "at_top c tot N (d2\<lparr>d_dst := m', d_op := length out' + ?ml + 4\<rparr>) (lz_copy out' off (?ml + 4))"
      unfolding d2 by auto
    with iter True show ?thesis by (simp only: step_ok_def) auto
  qed
qed

lemma safe_iter_ok:
  assumes ctx: "dec_ctx c tot N" and at: "at_top c tot N d out"
  shows "\<exists>step. safe_iter c d = Some step \<and> step_ok c tot N step"
proof -
  let ?t = "dsrc c ! d_ip d"
  have tok: "byte_at (dsrc c) (d_ip d) = Some ?t" "d_op d = length out" "length (d_dst d) = N" "oend c \<le> N"
    using at by (auto simp: byte_at_def at_top_def buf_ok_def)
  show ?thesis
  proof (cases "lit_nibble ?t = 15")
    case True
    from at_top_long [OF ctx at True] obtain r ip' where r:
      "read_variable_length (dsrc c) (d_ip d + 1) (int (iend c) - int RUN_MASK) True = Some (r, ip')"
      "case r of None \<Rightarrow> \<not> obeys c tot
       | Some n \<Rightarrow> at_lit c tot N (d\<lparr>d_tok := ?t, d_ip := ip', d_len := 15 + n\<rparr>) out \<and>
         (obeys c tot \<longrightarrow> \<not> ptr_overflow (ddst_at c) (d_op d) (15 + n) \<and>
            \<not> ptr_overflow (dsrc_at c) ip' (15 + n))" by blast
    show ?thesis
    proof (cases r)
      case None
      with r True tok show ?thesis by (simp add: safe_iter_def Let_def step_ok_def)
    next
      case (Some n)
      with r(2) have lit: "at_lit c tot N (d\<lparr>d_tok := ?t, d_ip := ip', d_len := 15 + n\<rparr>) out"
        and over: "obeys c tot \<Longrightarrow> \<not> (ptr_overflow (ddst_at c) (d_op d) (15 + n) \<or>
            ptr_overflow (dsrc_at c) ip' (15 + n))" by auto
      show ?thesis
      proof (cases "ptr_overflow (ddst_at c) (d_op d) (15 + n) \<or> ptr_overflow (dsrc_at c) ip' (15 + n)")
        case o: True
        with over have "\<not> obeys c tot" by blast
        with o r(1) Some True tok(1) show ?thesis by (simp add: safe_iter_def Let_def step_ok_def)
      next
        case False
        from safe_literal_copy_ok [OF ctx lit] False r(1) Some True tok(1) show ?thesis
          by (simp add: safe_iter_def Let_def)
      qed
    qed
  next
    case nib: False
    note lit = at_top_short [OF at nib]
    have small: "lit_nibble ?t < 15" using nib nibbles_less(1) [of ?t] by linarith
    show ?thesis
    proof (cases "d_ip d + 1 + 14 + 2 < iend c \<and> length out + 14 + 18 \<le> oend c")
      case False
      have "safe_iter c d = safe_literal_copy c
          (d\<lparr>d_ip := d_ip d + 1, d_tok := ?t, d_len := lit_nibble ?t\<rparr>)"
        using False nib tok by (auto simp: safe_iter_def Let_def)
      with safe_literal_copy_ok [OF ctx lit] show ?thesis by simp
    next
      case True
      with safe_iter_shortcut [OF ctx at small] show ?thesis by blast
    qed
  qed
qed

section \<open>The loops\<close>

text \<open>What the value returned and the final buffer satisfy.\<close>

definition final_ok :: "lz4_ctx \<Rightarrow> nat \<Rightarrow> nat \<Rightarrow> int \<times> bytes \<Rightarrow> bool" where
  "final_ok c tot N res \<longleftrightarrow> length (snd res) = N \<and> (fst res < 0 \<longrightarrow> \<not> obeys c tot) \<and>
     (0 \<le> fst res \<longrightarrow> fst res \<le> int (oend c) \<and> result_of c = Some (take (nat (fst res)) (snd res)))"

lemma safe_loop_ok:
  assumes "dec_ctx c tot N" "at_top c tot N d out"
  shows "\<exists>res. safe_loop c d = Some res \<and> final_ok c tot N res"
  using assms
proof (induction c d arbitrary: out rule: safe_loop.induct)
  case (1 c d)
  from safe_iter_ok [OF 1(2,3)] obtain step where step: "safe_iter c d = Some step" "step_ok c tot N step"
    by blast
  show ?case
  proof (cases step)
    case (Continue d')
    with step obtain out' where "at_top c tot N d' out'" by (auto simp: step_ok_def)
    with 1(1) [OF step(1) Continue 1(2)] step(1) Continue show ?thesis
      by (subst safe_loop.simps) simp
  next
    case (Break d')
    with step show ?thesis
      by (subst safe_loop.simps) (simp add: step_ok_def final_ok_def)
  next
    case (OutputError ip)
    with step 1(3) show ?thesis
      by (subst safe_loop.simps) (simp add: step_ok_def final_ok_def at_top_def buf_ok_def)
  qed
qed

lemma safe_resume_ok:
  assumes "dec_ctx c tot N" "step_ok c tot N step" "length m = N"
  shows "\<exists>res. safe_resume c m step = Some res \<and> final_ok c tot N res"
  using assms safe_loop_ok [OF assms(1)]
  by (cases step) (auto simp: safe_resume_def step_ok_def final_ok_def)

definition fast_ok :: "lz4_ctx \<Rightarrow> nat \<Rightarrow> nat \<Rightarrow> fast_step \<Rightarrow> bool" where
  "fast_ok c tot N step \<longleftrightarrow>
     (case step of
        FastError _ \<Rightarrow> \<not> obeys c tot
      | FastContinue d' \<Rightarrow> \<exists>out'. at_top c tot N d' out' \<and> length out' + 64 \<le> oend c
      | ToSafeLiteralCopy d' \<Rightarrow> \<exists>out'. at_lit c tot N d' out'
      | ToSafeMatchCopy d' \<Rightarrow> \<exists>out'. at_copy c tot N d' out')"

lemma fast_copy_match_ok:
  assumes ctx: "dec_ctx c tot N" and at: "at_copy c tot N d out"
    and room: "length out + d_len d + 64 < oend c"
  shows "\<exists>step. fast_copy_match c d = Some step \<and> fast_ok c tot N step"
proof (cases "length out < d_off d")
  case True
  with at show ?thesis by (auto simp: fast_copy_match_def Let_def at_copy_def buf_ok_def fast_ok_def)
next
  case False
  have buf: "d_op d = length out" "length (d_dst d) = N" "oend c \<le> N"
    using ctx at by (auto simp: dec_ctx_def at_copy_def buf_ok_def)
  have "\<exists>m K. (if d_off d < 16
        then LZ4_memcpy_using_offset (d_dst d) (length out) (int (length out) - int (d_off d))
          (length out + d_len d) (d_off d)
        else LZ4_wildCopy32 copy_self (d_dst d) (length out) (int (length out) - int (d_off d))
          (length out + d_len d)) = Some m \<and>
      rep (d_dst d) (length out) (d_off d) K m \<and> length out + d_len d \<le> K"
    using LZ4_memcpy_using_offset_rep [of "d_off d" "length out" "d_dst d" "length out + d_len d"]
      wildCopy32_self_rep [of "d_off d" "length out" "d_dst d" "length out + d_len d"] False room buf
    by auto
  then obtain m K where m: "(if d_off d < 16
        then LZ4_memcpy_using_offset (d_dst d) (length out) (int (length out) - int (d_off d))
          (length out + d_len d) (d_off d)
        else LZ4_wildCopy32 copy_self (d_dst d) (length out) (int (length out) - int (d_off d))
          (length out + d_len d)) = Some m"
    and rep: "rep (d_dst d) (length out) (d_off d) K m" "length out + d_len d \<le> K" by blast
  have "at_top c tot N (d\<lparr>d_dst := m, d_op := length out + d_len d\<rparr>) (lz_copy out (d_off d) (d_len d))"
    using room False by (intro at_top_copied [OF at _ _ filled_mono [OF rep]]) simp_all
  then have "fast_ok c tot N (FastContinue (d\<lparr>d_dst := m, d_op := length out + d_len d\<rparr>))"
    using room by (auto simp: fast_ok_def)
  with m False buf(1) show ?thesis by (simp add: fast_copy_match_def Let_def split del: if_split)
qed

text \<open>The match part, from where the offset is read: \<open>match\<close> is what \<open>match_stage\<close> supplies.\<close>

lemma fast_match_ok:
  assumes ctx: "dec_ctx c tot N" and off: "LZ4_readLE16 (dsrc c) (d_ip d) = Some off"
    and match: "\<And>d'. d_dst d' = d_dst d \<Longrightarrow> d_ip d' = d_ip d + 2 \<Longrightarrow> d_op d' = d_op d \<Longrightarrow>
      d_off d' = off \<Longrightarrow> d_len d' = match_nibble (d_tok d) \<Longrightarrow> at_match c tot N d' out"
    and room: "length out + 32 \<le> oend c"
  shows "\<exists>step. fast_match c d = Some step \<and> fast_ok c tot N step"
proof -
  let ?ml = "match_nibble (d_tok d)"
  define d2 where "d2 = d\<lparr>d_ip := d_ip d + 2, d_off := off, d_len := ?ml\<rparr>"
  have d2: "at_match c tot N d2 out" "d_len d2 = ?ml" "d_off d2 = off" "d_dst d2 = d_dst d"
    "d_ip d2 = d_ip d + 2" "d_op d2 = d_op d"
    by (rule match) (simp_all add: d2_def)
  have op: "d_op d = length out" using d2(1,6) by (simp add: at_match_def buf_ok_def)
  show ?thesis
  proof (cases "?ml = 15")
    case True
    with at_match_long [OF d2(1)] d2 obtain r ip' where r:
      "read_variable_length (dsrc c) (d_ip d + 2) (int (iend c) - int LASTLITERALS + 1) False = Some (r, ip')"
      "case r of None \<Rightarrow> \<not> obeys c tot
       | Some n \<Rightarrow> at_copy c tot N (d2\<lparr>d_ip := ip', d_len := 15 + n + 4\<rparr>) out" by auto
    show ?thesis
    proof (cases r)
      case None
      with r off True show ?thesis by (simp add: fast_match_def Let_def fast_ok_def)
    next
      case (Some n)
      let ?d = "d2\<lparr>d_ip := ip', d_len := 15 + n + 4\<rparr>"
      from Some r(2) have copy: "at_copy c tot N ?d out" by simp
      have iter: "fast_match c d =
          (if ptr_overflow (ddst_at c) (d_op d) (15 + n + 4) then Some (FastError ip')
           else if oend c \<le> d_op d + (15 + n + 4) + 64 then Some (ToSafeMatchCopy ?d)
           else fast_copy_match c ?d)"
        using off r(1) Some True unfolding fast_match_def Let_def d2_def by simp
      have over: "\<not> obeys c tot" if "ptr_overflow (ddst_at c) (d_op d) (15 + n + 4)"
        using at_copy_no_overflow [OF ctx copy _ order_refl] that d2(6) by auto
      have room': "length out + d_len ?d + 64 < oend c" if "\<not> oend c \<le> d_op d + (15 + n + 4) + 64"
        using that op by simp
      show ?thesis
        using fast_copy_match_ok [OF ctx copy room'] over copy unfolding iter
        by (auto simp: fast_ok_def)
    qed
  next
    case False
    let ?d = "d2\<lparr>d_len := ?ml + 4\<rparr>"
    have copy: "at_copy c tot N ?d out"
      using at_match_short [OF d2(1)] False unfolding d2(2) by simp
    have iter: "fast_match c d =
        (if oend c \<le> d_op d + (?ml + 4) + 64 then Some (ToSafeMatchCopy ?d)
         else if off \<le> d_op d \<and> 8 \<le> off then
           do {
             m \<leftarrow> do {
               m \<leftarrow> copy_self (d_dst d) (d_op d) (int (d_op d) - int off) 8;
               m \<leftarrow> copy_self m (d_op d + 8) (int (d_op d) - int off + 8) 8;
               copy_self m (d_op d + 16) (int (d_op d) - int off + 16) 2 };
             Some (FastContinue (?d\<lparr>d_dst := m, d_op := d_op d + (?ml + 4)\<rparr>)) }
         else fast_copy_match c ?d)"
      using off False unfolding fast_match_def Let_def d2_def by simp
    show ?thesis
    proof (cases "\<not> oend c \<le> d_op d + (?ml + 4) + 64 \<and> off \<le> d_op d \<and> 8 \<le> off")
      case True
      with short_match [OF d2(1)] False d2 op room obtain m' where m': "do {
          m \<leftarrow> copy_self (d_dst d) (d_op d) (int (d_op d) - int off) 8;
          m \<leftarrow> copy_self m (d_op d + 8) (int (d_op d) - int off + 8) 8;
          copy_self m (d_op d + 16) (int (d_op d) - int off + 16) 2 } = Some m'"
        "at_top c tot N (d2\<lparr>d_dst := m', d_op := length out + ?ml + 4\<rparr>) (lz_copy out off (?ml + 4))"
        by auto
      from m'(2) have "at_top c tot N (?d\<lparr>d_dst := m', d_op := d_op d + (?ml + 4)\<rparr>) (lz_copy out off (?ml + 4))"
        by (simp add: at_top_def buf_ok_def op add.assoc)
      then have "fast_ok c tot N (FastContinue (?d\<lparr>d_dst := m', d_op := d_op d + (?ml + 4)\<rparr>))"
        using True op by (auto simp: fast_ok_def intro!: exI [of _ "lz_copy out off (?ml + 4)"])
      with m'(1) True show ?thesis unfolding iter by (simp only: if_False if_True simp_thms) auto
    next
      case no: False
      have "length out + d_len ?d + 64 < oend c" if "\<not> oend c \<le> d_op d + (?ml + 4) + 64"
        using that op by simp
      with fast_copy_match_ok [OF ctx copy] copy no show ?thesis
        unfolding iter by (auto simp: fast_ok_def)
    qed
  qed
qed

text \<open>Over the literals to the match part: \<open>lit\<close> is the state at the literals, \<open>m\<close> the copy.\<close>

lemma fast_literals_ok:
  assumes ctx: "dec_ctx c tot N" and lit: "at_lit c tot N d out"
    and m: "lit_rep (d_dst d) (length out) (dsrc c) (d_ip d) K m" "length out + d_len d \<le> K"
    and room: "d_ip d + d_len d + 2 < iend c" "length out + d_len d + 32 \<le> oend c"
  shows "\<exists>step. fast_match c (d\<lparr>d_dst := m, d_ip := d_ip d + d_len d, d_op := length out + d_len d\<rparr>)
      = Some step \<and> fast_ok c tot N step"
proof -
  from match_stage [OF lit room(1) _ m] room(2) obtain off out'
    where off: "LZ4_readLE16 (dsrc c) (d_ip d + d_len d) = Some off"
    and len: "length out' = length out + d_len d"
    and match: "\<And>d'. d_dst d' = m \<Longrightarrow> d_ip d' = d_ip d + d_len d + 2 \<Longrightarrow> d_op d' = length out + d_len d \<Longrightarrow>
      d_off d' = off \<Longrightarrow> d_len d' = match_nibble (d_tok d) \<Longrightarrow> at_match c tot N d' out'" by auto
  show ?thesis
    by (rule fast_match_ok [OF ctx, where off = off and out = out'])
      (use off len room(2) match in simp_all)
qed

lemma fast_iter_ok:
  assumes ctx: "dec_ctx c tot N" and at: "at_top c tot N d out" and room: "length out + 64 \<le> oend c"
  shows "\<exists>step. fast_iter c d = Some step \<and> fast_ok c tot N step"
proof -
  let ?t = "dsrc c ! d_ip d" let ?l = "lit_nibble ?t"
  have tok: "byte_at (dsrc c) (d_ip d) = Some ?t" "d_op d = length out" "length (d_dst d) = N" "oend c \<le> N"
    using at by (auto simp: byte_at_def at_top_def buf_ok_def)
  show ?thesis
  proof (cases "?l = 15")
    case True
    from at_top_long [OF ctx at True] obtain r ip' where r:
      "read_variable_length (dsrc c) (d_ip d + 1) (int (iend c) - int RUN_MASK) True = Some (r, ip')"
      "case r of None \<Rightarrow> \<not> obeys c tot
       | Some n \<Rightarrow> at_lit c tot N (d\<lparr>d_tok := ?t, d_ip := ip', d_len := 15 + n\<rparr>) out \<and>
         (obeys c tot \<longrightarrow> \<not> ptr_overflow (ddst_at c) (d_op d) (15 + n) \<and>
            \<not> ptr_overflow (dsrc_at c) ip' (15 + n))" by blast
    show ?thesis
    proof (cases r)
      case None
      with r True tok show ?thesis by (simp add: fast_iter_def Let_def fast_ok_def)
    next
      case (Some n)
      let ?d = "d\<lparr>d_tok := ?t, d_ip := ip', d_len := 15 + n\<rparr>"
      from Some r(2) have lit: "at_lit c tot N ?d out"
        and over: "obeys c tot \<Longrightarrow> \<not> (ptr_overflow (ddst_at c) (d_op d) (15 + n) \<or>
            ptr_overflow (dsrc_at c) ip' (15 + n))" by auto
      consider (over) "ptr_overflow (ddst_at c) (d_op d) (15 + n) \<or> ptr_overflow (dsrc_at c) ip' (15 + n)"
        | (safe) "\<not> (ptr_overflow (ddst_at c) (d_op d) (15 + n) \<or> ptr_overflow (dsrc_at c) ip' (15 + n))"
            "oend c < d_op d + (15 + n) + 32 \<or> iend c < ip' + (15 + n) + 32"
        | (fast) "\<not> (ptr_overflow (ddst_at c) (d_op d) (15 + n) \<or> ptr_overflow (dsrc_at c) ip' (15 + n))"
            "\<not> (oend c < d_op d + (15 + n) + 32 \<or> iend c < ip' + (15 + n) + 32)" by blast
      then show ?thesis
      proof cases
        case over
        with \<open>obeys c tot \<Longrightarrow> _\<close> have "\<not> obeys c tot" by blast
        with over Some r(1) True tok(1) show ?thesis by (simp add: fast_iter_def Let_def fast_ok_def)
      next
        case safe
        then have "fast_iter c d = Some (ToSafeLiteralCopy ?d)"
          using Some r(1) True tok(1) by (simp add: fast_iter_def Let_def)
        with lit show ?thesis by (auto simp: fast_ok_def)
      next
        case fast
        obtain m K where m: "LZ4_wildCopy32 (copy_lit (dsrc c)) (d_dst d) (length out) (int ip')
            (length out + (15 + n)) = Some m"
          "lit_rep (d_dst d) (length out) (dsrc c) ip' K m" "length out + (15 + n) \<le> K"
          using wildCopy32_lit_rep [of ip' "length out + (15 + n)" "length out" "dsrc c" "d_dst d"]
            fast(2) tok by auto
        have "fast_iter c d = fast_match c (?d\<lparr>d_dst := m, d_ip := ip' + (15 + n), d_op := length out + (15 + n)\<rparr>)"
          using Some r(1) True tok m(1) fast by (simp add: fast_iter_def Let_def)
        moreover have "\<exists>step. fast_match c
            (?d\<lparr>d_dst := m, d_ip := d_ip ?d + d_len ?d, d_op := length out + d_len ?d\<rparr>) = Some step \<and>
            fast_ok c tot N step"
          using m(2,3) fast(2) tok(2) by (intro fast_literals_ok [OF ctx lit, of K]) simp_all
        ultimately show ?thesis by simp
      qed
    qed
  next
    case False
    let ?d = "d\<lparr>d_ip := d_ip d + 1, d_tok := ?t, d_len := ?l\<rparr>"
    have lit: "at_lit c tot N ?d out" by (rule at_top_short [OF at False])
    have small: "?l < 15" using False nibbles_less(1) [of ?t] by linarith
    show ?thesis
    proof (cases "d_ip d + 1 + (16 + 1) \<le> iend c")
      case True
      obtain m where m: "copy_lit (dsrc c) (d_dst d) (length out) (int (d_ip d + 1)) 16 = Some m"
        "lit_rep (d_dst d) (length out) (dsrc c) (d_ip d + 1) (length out + 16) m"
        using copy_lit_direct [of "d_ip d + 1" 16 "dsrc c" "length out" "d_dst d"] True tok room by auto
      have "fast_iter c d = fast_match c (?d\<lparr>d_dst := m, d_ip := d_ip d + 1 + ?l, d_op := length out + ?l\<rparr>)"
        using True False m(1) tok by (simp add: fast_iter_def Let_def)
      moreover have "\<exists>step. fast_match c
          (?d\<lparr>d_dst := m, d_ip := d_ip ?d + d_len ?d, d_op := length out + d_len ?d\<rparr>) = Some step \<and>
          fast_ok c tot N step"
        using m(2) small True room by (intro fast_literals_ok [OF ctx lit, of "length out + 16"]) simp_all
      ultimately show ?thesis by simp
    next
      case no: False
      then have "fast_iter c d = Some (ToSafeLiteralCopy ?d)"
        using False tok by (simp add: fast_iter_def Let_def)
      with lit show ?thesis by (auto simp: fast_ok_def)
    qed
  qed
qed

lemma fast_loop_ok:
  assumes "dec_ctx c tot N" "at_top c tot N d out" "length out + 64 \<le> oend c"
  shows "\<exists>res. fast_loop c d = Some res \<and> final_ok c tot N res"
  using assms
proof (induction c d arbitrary: out rule: fast_loop.induct)
  case (1 c d)
  note ctx = 1(2) and at = 1(3) and room = 1(4)
  from fast_iter_ok [OF ctx at room] obtain step where step: "fast_iter c d = Some step" "fast_ok c tot N step"
    by blast
  show ?case
  proof (cases step)
    case (FastContinue d')
    with step obtain out' where "at_top c tot N d' out'" "length out' + 64 \<le> oend c" by (auto simp: fast_ok_def)
    with 1(1) [OF step(1) FastContinue ctx] step(1) FastContinue show ?thesis
      by (subst fast_loop.simps) simp
  next
    case (FastError ip)
    with step at show ?thesis
      by (subst fast_loop.simps) (simp add: fast_ok_def final_ok_def at_top_def buf_ok_def)
  next
    case (ToSafeLiteralCopy d')
    with step obtain out' where lit: "at_lit c tot N d' out'" by (auto simp: fast_ok_def)
    from safe_literal_copy_ok [OF ctx lit] obtain s where "safe_literal_copy c d' = Some s" "step_ok c tot N s" by blast
    with safe_resume_ok [OF ctx, of s "d_dst d'"] lit step(1) ToSafeLiteralCopy show ?thesis
      by (subst fast_loop.simps) (simp add: at_lit_def buf_ok_def)
  next
    case (ToSafeMatchCopy d')
    with step obtain out' where copy: "at_copy c tot N d' out'" by (auto simp: fast_ok_def)
    from safe_match_copy_ok [OF ctx copy] obtain s where "safe_match_copy c d' = Some s" "step_ok c tot N s" by blast
    with safe_resume_ok [OF ctx, of s "d_dst d'"] copy step(1) ToSafeMatchCopy show ?thesis
      by (subst fast_loop.simps) (simp add: at_copy_def buf_ok_def)
  qed
qed

section \<open>The entry point\<close>

text \<open>
  The one decoded size for which the decoder is stricter than the rules is 0: it accepts the
  token 0 only.
\<close>

lemma LZ4_decompress_safe_ok:
  assumes "cap \<le> length dst" "src_at + length source < 2 ^ 64" "dst_at + cap < 2 ^ 64"
  shows "\<exists>n dst'. LZ4_decompress_safe source src_at dst dst_at (int cap) = Some (n, dst') \<and>
    length dst' = length dst \<and>
    (0 \<le> n \<longrightarrow> n \<le> int cap \<and> lz4_decode source [] = Some (take (nat n) dst')) \<and>
    (n < 0 \<longrightarrow> (\<forall>tot \<le> cap. 0 < tot \<or> source = [0] \<longrightarrow> \<not> lz4_strict tot source 0))"
proof (cases "cap = 0 \<or> source = []")
  case True
  have "lz4_decode [0] [] = Some []"
    by (simp add: lz4_decode.simps varlen_def lit_nibble_def)
  then show ?thesis using True
    by (auto simp: LZ4_decompress_safe_def lz4_strict.simps)
next
  case False
  let ?c = "\<lparr>dsrc = source, oend = cap, dsrc_at = src_at, ddst_at = dst_at\<rparr>"
  let ?d = "\<lparr>d_ip = 0, d_op = 0, d_dst = dst, d_tok = 0, d_len = 0, d_off = 0\<rparr>"
  have ctx: "dec_ctx ?c tot (length dst)" if "tot \<le> cap" for tot
    using that assms by (simp add: dec_ctx_def ctx_ok_def)
  have at: "at_top ?c tot (length dst) ?d []" for tot
    using assms(1) False by (simp add: at_top_def buf_ok_def)
  have call: "LZ4_decompress_safe source src_at dst dst_at (int cap) =
      (if cap < 64 then safe_loop ?c ?d else fast_loop ?c ?d)"
    using False by (simp add: LZ4_decompress_safe_def Let_def)
  have fin: "\<exists>res. LZ4_decompress_safe source src_at dst dst_at (int cap) = Some res \<and>
      final_ok ?c tot (length dst) res" if "tot \<le> cap" for tot
    using safe_loop_ok [OF ctx [OF that] at] fast_loop_ok [OF ctx [OF that] at] unfolding call by simp
  from fin [of 0] obtain n dst' where res: "LZ4_decompress_safe source src_at dst dst_at (int cap) = Some (n, dst')"
    by auto
  have "final_ok ?c tot (length dst) (n, dst')" if "tot \<le> cap" for tot
    using fin [OF that] res by auto
  then show ?thesis
    using res by (auto simp: final_ok_def)
qed

section \<open>Properties\<close>

text \<open>
  C7. \<open>LZ4_decompress_safe\<close> on any input: it returns, every load, store and copy stays in
  its buffer and no \<open>memcpy\<close> overlaps (the result is never \<open>None\<close>), the buffer keeps
  its size, and a non-negative return value is at most the capacity and is the size of exactly
  what the block format says the input decodes to, which is then in the buffer.
\<close>

theorem lz4_decompress_safe_sound:
  assumes "cap \<le> length dst" "src_at + length source < 2 ^ 64" "dst_at + cap < 2 ^ 64"
  shows "\<exists>n dst'. LZ4_decompress_safe source src_at dst dst_at (int cap) = Some (n, dst') \<and>
    length dst' = length dst \<and>
    (0 \<le> n \<longrightarrow> n \<le> int cap \<and> lz4_decode source [] = Some (take (nat n) dst'))"
  using LZ4_decompress_safe_ok [OF assms] by blast

theorem lz4_decompress_safe_sound_witness:
  "\<exists>n dst'. LZ4_decompress_safe [0x20, 65, 66] 1000 (replicate 8 7) 5000 (int 8) = Some (n, dst') \<and>
    length dst' = 8 \<and>
    (0 \<le> n \<longrightarrow> n \<le> 8 \<and> lz4_decode [0x20, 65, 66] [] = Some (take (nat n) dst'))"
  using lz4_decompress_safe_sound [of 8 "replicate 8 7" 1000 "[0x20, 65, 66]" 5000] by simp

text \<open>
  C13. \<open>LZ4_decompress_safe\<close> accepts every block that obeys the end-of-block rules of the
  format and whose decoded size fits, and returns that size.
\<close>

theorem lz4_decompress_safe_complete:
  assumes "cap \<le> length dst" "src_at + length source < 2 ^ 64" "dst_at + cap < 2 ^ 64"
    and "lz4_strict tot source 0" "0 < tot" "tot \<le> cap"
  shows "\<exists>dst'. LZ4_decompress_safe source src_at dst dst_at (int cap) = Some (int tot, dst') \<and>
    lz4_decode source [] = Some (take tot dst')"
proof -
  from LZ4_decompress_safe_ok [OF assms(1-3)] obtain n dst' where
    res: "LZ4_decompress_safe source src_at dst dst_at (int cap) = Some (n, dst')"
      "length dst' = length dst"
    and sound: "0 \<le> n \<longrightarrow> n \<le> int cap \<and> lz4_decode source [] = Some (take (nat n) dst')"
    and compl: "n < 0 \<longrightarrow> (\<forall>tot \<le> cap. 0 < tot \<or> source = [0] \<longrightarrow> \<not> lz4_strict tot source 0)"
    by blast
  from compl assms(4-6) have "0 \<le> n" by fastforce
  with sound lz4_strict_decode [OF assms(4), of "[]"] res assms(1)
  have "nat n = tot" by auto
  with \<open>0 \<le> n\<close> sound res show ?thesis by auto
qed

theorem lz4_decompress_safe_complete_witness:
  "\<exists>dst'. LZ4_decompress_safe [0x20, 65, 66] 1000 (replicate 8 7) 5000 (int 8) = Some (int 2, dst') \<and>
    lz4_decode [0x20, 65, 66] [] = Some (take 2 dst')"
  by (rule lz4_decompress_safe_complete)
    (simp_all add: lz4_strict.simps varlen_def lit_nibble_div)

end
