(* ===== verification/Lz4_Enc_Proof.thy ===== *)
theory Lz4_Enc_Proof
  imports Lz4_Enc Lz4_Dec_Proof "HOL-Library.Sublist"
begin

text \<open>
  The compressor: it stays in its buffers, ends, and writes a block that the format decodes to
  the source and that obeys the end-of-block rules; with the capacity \<open>LZ4_compressBound\<close>
  gives it never fails. With the decompressor's completeness this is the round trip.
\<close>

section \<open>Words in memory\<close>

lemma length_le_dec: "le_dec bs < 256 ^ length bs"
  using be_dec_less [of "rev bs"] by (simp add: le_dec_def)

lemma be_dec_append: "be_dec (a @ b) = be_dec a * 256 ^ length b + be_dec b"
  by (induction a) (simp_all add: algebra_simps power_add)

lemma le_dec_Nil [simp]: "le_dec [] = 0"
  by (simp add: le_dec_def)

lemma le_dec_Cons [simp]: "le_dec (b # bs) = unat b + 256 * le_dec bs"
  by (simp add: le_dec_def be_dec_append)

lemma le_dec_inject: "length a = length b \<Longrightarrow> le_dec a = le_dec b \<longleftrightarrow> a = b"
  by (metis be_enc_dec le_dec_def length_rev rev_rev_ident)

text \<open>A word read is the bytes there.\<close>

abbreviation bytes_at :: "bytes \<Rightarrow> nat \<Rightarrow> nat \<Rightarrow> bytes" where
  "bytes_at m i n \<equiv> take n (drop i m)"

lemma bytes_at_eq: "i + n \<le> length m \<Longrightarrow> k + n \<le> length m \<Longrightarrow>
    bytes_at m i n = bytes_at m k n \<longleftrightarrow> (\<forall>j < n. m ! (i + j) = m ! (k + j))"
  by (auto simp: list_eq_iff_nth_eq)

lemma word_le_dec_inject:
  assumes "length a = length b" "256 ^ length b = (2 :: nat) ^ LENGTH('a :: len)"
  shows "(word_of_nat (le_dec a) :: 'a word) = word_of_nat (le_dec b) \<longleftrightarrow> a = b"
proof -
  have "le_dec a < 2 ^ LENGTH('a)" "le_dec b < 2 ^ LENGTH('a)"
    using length_le_dec [of a] length_le_dec [of b] assms by simp_all
  then show ?thesis
    using le_dec_inject [OF assms(1)]
    by (simp add: word_of_nat_eq_iff take_bit_nat_eq_self)
qed

lemma read_words [simp]:
  "i + 2 \<le> length m \<Longrightarrow> LZ4_read16 m i = Some (word_of_nat (le_dec (bytes_at m i 2)))"
  "i + 4 \<le> length m \<Longrightarrow> LZ4_read32 m i = Some (word_of_nat (le_dec (bytes_at m i 4)))"
  "i + 8 \<le> length m \<Longrightarrow> LZ4_read_ARCH m i = Some (word_of_nat (le_dec (bytes_at m i 8)))"
  by (simp_all add: LZ4_read16_def LZ4_read32_def LZ4_read_ARCH_def)

lemma words_eq:
  "i + 2 \<le> length m \<Longrightarrow> k + 2 \<le> length m \<Longrightarrow>
     (word_of_nat (le_dec (bytes_at m i 2)) :: u16) = word_of_nat (le_dec (bytes_at m k 2)) \<longleftrightarrow>
     bytes_at m i 2 = bytes_at m k 2"
  "i + 4 \<le> length m \<Longrightarrow> k + 4 \<le> length m \<Longrightarrow>
     (word_of_nat (le_dec (bytes_at m i 4)) :: u32) = word_of_nat (le_dec (bytes_at m k 4)) \<longleftrightarrow>
     bytes_at m i 4 = bytes_at m k 4"
  by (rule word_le_dec_inject; simp)+

section \<open>Counting common bytes\<close>

lemma ctz_low: "z mod 256 \<noteq> 0 \<Longrightarrow> ctz z < 8"
proof -
  have low: "z mod 2 ^ k \<noteq> 0 \<Longrightarrow> ctz z < k" for k
  proof (induction k arbitrary: z)
    case (Suc k)
    show ?case
    proof (cases "odd z \<or> z = 0")
      case True
      then show ?thesis by (subst ctz.simps) auto
    next
      case False
      have "z mod 2 ^ Suc k = 2 * (z div 2 mod 2 ^ k) + z mod 2"
        by (simp add: mod_mult2_eq)
      with False Suc.prems have "z div 2 mod 2 ^ k \<noteq> 0" by auto
      with Suc.IH False show ?thesis by (subst ctz.simps) simp
    qed
  qed simp
  show "z mod 256 \<noteq> 0 \<Longrightarrow> ctz z < 8" using low [of 8] by simp
qed

lemma ctz_high: "z \<noteq> 0 \<Longrightarrow> ctz (256 * z) = 8 + ctz z"
proof -
  have high: "z \<noteq> 0 \<Longrightarrow> ctz (2 ^ k * z) = k + ctz z" for k
  proof (induction k)
    case (Suc k)
    have "ctz (2 ^ Suc k * z) = Suc (ctz (2 ^ k * z))"
      using Suc.prems by (subst ctz.simps) simp
    with Suc show ?case by simp
  qed simp
  show "z \<noteq> 0 \<Longrightarrow> ctz (256 * z) = 8 + ctz z" using high [of 8] by simp
qed

lemma xor_eq_0 [simp]: "a XOR b = 0 \<longleftrightarrow> a = (b :: 'a :: semiring_bit_operations)"
  by (metis xor.assoc xor.left_neutral xor.right_neutral xor_self_eq)

text \<open>The first byte in which two strings of the same length differ.\<close>

lemma ctz_xor:
  assumes "length a = length b" "a \<noteq> b"
  shows "\<exists>k < length a. ctz (le_dec a XOR le_dec b) div 8 = k \<and> (\<forall>j < k. a ! j = b ! j) \<and> a ! k \<noteq> b ! k"
  using assms
proof (induction a b rule: list_induct2)
  case (Cons x a y b)
  let ?X = "unat x + 256 * le_dec a" let ?Y = "unat y + 256 * le_dec b"
  have "take_bit 8 (?X XOR ?Y) = take_bit 8 ?X XOR take_bit 8 ?Y" by simp
  then have low: "(?X XOR ?Y) mod 256 = unat x XOR unat y"
    by (simp add: take_bit_eq_mod)
  have "drop_bit 8 (?X XOR ?Y) = drop_bit 8 ?X XOR drop_bit 8 ?Y" by simp
  then have high: "(?X XOR ?Y) div 256 = le_dec a XOR le_dec b"
    by (simp add: drop_bit_eq_div)
  show ?case
  proof (cases "x = y")
    case False
    then have "unat x XOR unat y \<noteq> 0" by (simp add: word_unat_eq_iff)
    with ctz_low [of "?X XOR ?Y"] low have "ctz (?X XOR ?Y) div 8 = 0" by simp
    with False show ?thesis by simp
  next
    case True
    with Cons.prems Cons.IH obtain k where k: "k < length a" "ctz (le_dec a XOR le_dec b) div 8 = k"
      "\<forall>j < k. a ! j = b ! j" "a ! k \<noteq> b ! k" by auto
    have ne: "le_dec a XOR le_dec b \<noteq> 0"
      using True Cons.prems le_dec_inject [OF Cons.hyps] by simp
    have eq: "?X XOR ?Y = 256 * (le_dec a XOR le_dec b)"
      using low high True by (metis add.right_neutral mult_div_mod_eq xor_self_eq)
    have "ctz (?X XOR ?Y) div 8 = Suc k"
      unfolding eq ctz_high [OF ne] using k(2) by simp
    with k True show ?thesis by (auto intro!: exI [of _ "Suc k"] simp: less_Suc_eq_0_disj)
  qed
qed simp

lemma NbCommonBytes:
  assumes "i + 8 \<le> length m" "k + 8 \<le> length m" "bytes_at m i 8 \<noteq> bytes_at m k 8"
  defines "n \<equiv> LZ4_NbCommonBytes (word_of_nat (le_dec (bytes_at m i 8)) XOR word_of_nat (le_dec (bytes_at m k 8)))"
  shows "n < 8" "\<forall>j < n. m ! (i + j) = m ! (k + j)" "m ! (i + n) \<noteq> m ! (k + n)"
proof -
  let ?a = "bytes_at m i 8" let ?b = "bytes_at m k 8"
  have len: "length ?a = 8" "length ?b = 8" using assms by simp_all
  have "unat ((word_of_nat (le_dec ?a) :: u64) XOR word_of_nat (le_dec ?b)) = le_dec ?a XOR le_dec ?b"
    using length_le_dec [of ?a] length_le_dec [of ?b] len
    by (simp add: unsigned_xor_eq)
  then have "n = ctz (le_dec ?a XOR le_dec ?b) div 8" by (simp add: n_def LZ4_NbCommonBytes_def)
  with ctz_xor [of ?a ?b] len assms(3) have "n < 8 \<and> (\<forall>j < n. ?a ! j = ?b ! j) \<and> ?a ! n \<noteq> ?b ! n" by auto
  with assms(1,2) show "n < 8" "\<forall>j < n. m ! (i + j) = m ! (k + j)" "m ! (i + n) \<noteq> m ! (k + n)" by auto
qed

text \<open>\<open>n\<close> bytes at two places are the same.\<close>

definition agree :: "bytes \<Rightarrow> nat \<Rightarrow> nat \<Rightarrow> nat \<Rightarrow> bool" where
  "agree m i k n \<longleftrightarrow> (\<forall>j < n. m ! (i + j) = m ! (k + j))"

lemma agree_0 [simp]: "agree m i k 0"
  by (simp add: agree_def)

lemma agree_add: "agree m i k (a + b) \<longleftrightarrow> agree m i k a \<and> agree m (i + a) (k + a) b"
proof
  assume *: "agree m i k a \<and> agree m (i + a) (k + a) b"
  show "agree m i k (a + b)"
    unfolding agree_def
  proof (intro allI impI)
    fix j assume "j < a + b"
    then show "m ! (i + j) = m ! (k + j)"
      using * by (cases "j < a") (auto simp: agree_def add.assoc dest: spec [of _ "j - a"])
  qed
next
  assume *: "agree m i k (a + b)"
  then show "agree m i k a \<and> agree m (i + a) (k + a) b"
    by (auto simp: agree_def add.assoc)
qed

lemma agree_mono: "agree m i k n \<Longrightarrow> n' \<le> n \<Longrightarrow> agree m i k n'"
  by (auto simp: agree_def)

lemma agree_1 [simp]: "agree m i k (Suc 0) \<longleftrightarrow> m ! i = m ! k"
  by (simp add: agree_def)

lemma bytes_at_agree: "i + n \<le> length m \<Longrightarrow> k + n \<le> length m \<Longrightarrow>
    bytes_at m i n = bytes_at m k n \<longleftrightarrow> agree m i k n"
  by (simp add: bytes_at_eq agree_def)

lemma words_agree:
  "i + 2 \<le> length m \<Longrightarrow> k + 2 \<le> length m \<Longrightarrow>
     (word_of_nat (le_dec (bytes_at m i 2)) :: u16) = word_of_nat (le_dec (bytes_at m k 2)) \<longleftrightarrow> agree m i k 2"
  "i + 4 \<le> length m \<Longrightarrow> k + 4 \<le> length m \<Longrightarrow>
     (word_of_nat (le_dec (bytes_at m i 4)) :: u32) = word_of_nat (le_dec (bytes_at m k 4)) \<longleftrightarrow> agree m i k 4"
  "i + 8 \<le> length m \<Longrightarrow> k + 8 \<le> length m \<Longrightarrow>
     (word_of_nat (le_dec (bytes_at m i 8)) :: u64) = word_of_nat (le_dec (bytes_at m k 8)) \<longleftrightarrow> agree m i k 8"
  by (subst word_le_dec_inject; simp add: bytes_at_agree)+

lemma agree_sym: "agree m i k n \<longleftrightarrow> agree m k i n"
  by (auto simp: agree_def)

lemma count_loop_spec:
  assumes "pMatch \<le> pIn" "pIn \<le> limit" "limit \<le> length m"
  shows "\<exists>r. count_loop m pIn pMatch limit = Some r \<and>
    (case r of
       Inl i \<Rightarrow> pIn \<le> i \<and> i < limit \<and> agree m pIn pMatch (i - pIn) \<and> m ! i \<noteq> m ! (pMatch + (i - pIn))
     | Inr (i, k) \<Rightarrow> pIn \<le> i \<and> i \<le> limit \<and> k = pMatch + (i - pIn) \<and> limit \<le> i + 7 \<and>
         agree m pIn pMatch (i - pIn))"
  using assms
proof (induction m pIn pMatch limit rule: count_loop.induct)
  case (1 m pIn pMatch limit)
  show ?case
  proof (cases "pIn + 7 < limit")
    case False
    with 1 show ?thesis by (subst count_loop.simps) simp
  next
    case True
    with "1.prems" have in8: "pMatch + 8 \<le> length m" "pIn + 8 \<le> length m" by simp_all
    let ?diff = "word_of_nat (le_dec (bytes_at m pMatch 8)) XOR word_of_nat (le_dec (bytes_at m pIn 8)) :: u64"
    have diff: "?diff = 0 \<longleftrightarrow> agree m pIn pMatch 8"
      using words_agree(3) [OF in8] by (simp add: agree_sym)
    show ?thesis
    proof (cases "?diff = 0")
      case False
      have ne: "bytes_at m pMatch 8 \<noteq> bytes_at m pIn 8"
        using False by auto
      note n = NbCommonBytes [OF in8 ne]
      have "count_loop m pIn pMatch limit = Some (Inl (pIn + LZ4_NbCommonBytes ?diff))"
        using True in8 False by (subst count_loop.simps) (simp add: Let_def)
      with n True show ?thesis by (auto simp: agree_def)
    next
      case same: True
      have "\<exists>r. count_loop m (pIn + 8) (pMatch + 8) limit = Some r \<and>
        (case r of
           Inl i \<Rightarrow> pIn + 8 \<le> i \<and> i < limit \<and> agree m (pIn + 8) (pMatch + 8) (i - (pIn + 8)) \<and>
             m ! i \<noteq> m ! (pMatch + 8 + (i - (pIn + 8)))
         | Inr (i, k) \<Rightarrow> pIn + 8 \<le> i \<and> i \<le> limit \<and> k = pMatch + 8 + (i - (pIn + 8)) \<and> limit \<le> i + 7 \<and>
             agree m (pIn + 8) (pMatch + 8) (i - (pIn + 8)))"
        using True same in8 "1.prems" by (intro "1.IH") simp_all
      then obtain r where r: "count_loop m (pIn + 8) (pMatch + 8) limit = Some r"
        "case r of
           Inl i \<Rightarrow> pIn + 8 \<le> i \<and> i < limit \<and> agree m (pIn + 8) (pMatch + 8) (i - (pIn + 8)) \<and>
             m ! i \<noteq> m ! (pMatch + 8 + (i - (pIn + 8)))
         | Inr (i, k) \<Rightarrow> pIn + 8 \<le> i \<and> i \<le> limit \<and> k = pMatch + 8 + (i - (pIn + 8)) \<and> limit \<le> i + 7 \<and>
             agree m (pIn + 8) (pMatch + 8) (i - (pIn + 8))" by blast
      have step: "count_loop m pIn pMatch limit = Some r"
        using True in8 same r(1) by (subst count_loop.simps) (simp add: Let_def)
      have 8: "agree m pIn pMatch 8" using diff same by simp
      have shift: "agree m pIn pMatch (i - pIn)"
        if "pIn + 8 \<le> i" "agree m (pIn + 8) (pMatch + 8) (i - (pIn + 8))" for i
      proof -
        have "i - pIn = 8 + (i - (pIn + 8))" using that(1) by simp
        then show ?thesis using 8 that(2) by (simp only: agree_add simp_thms)
      qed
      have pos: "pMatch + 8 + (i - (pIn + 8)) = pMatch + (i - pIn)" if "pIn + 8 \<le> i" for i
        using that by simp
      show ?thesis
      proof (cases r)
        case (Inl i)
        with r(2) step shift [of i] pos [of i] show ?thesis by auto
      next
        case (Inr p)
        with r(2) step shift [of "fst p"] pos [of "fst p"] show ?thesis by (cases p) auto
      qed
    qed
  qed
qed

text \<open>The result is the longest common run that ends at the limit at the latest.\<close>

lemma LZ4_count_spec:
  assumes "pMatch \<le> pIn" "pIn \<le> limit" "limit \<le> length m"
  shows "\<exists>n. LZ4_count m pIn pMatch limit = Some n \<and> pIn + n \<le> limit \<and> agree m pIn pMatch n \<and>
    (pIn + n < limit \<longrightarrow> m ! (pIn + n) \<noteq> m ! (pMatch + n))"
proof -
  obtain r where r: "count_loop m pIn pMatch limit = Some r"
    "case r of
       Inl i \<Rightarrow> pIn \<le> i \<and> i < limit \<and> agree m pIn pMatch (i - pIn) \<and> m ! i \<noteq> m ! (pMatch + (i - pIn))
     | Inr (i, k) \<Rightarrow> pIn \<le> i \<and> i \<le> limit \<and> k = pMatch + (i - pIn) \<and> limit \<le> i + 7 \<and>
         agree m pIn pMatch (i - pIn)"
    using count_loop_spec [OF assms] by blast
  show ?thesis
  proof (cases r)
    case (Inl i)
    with r show ?thesis by (auto simp: LZ4_count_def intro!: exI [of _ "i - pIn"])
  next
    case (Inr p)
    then obtain n where p: "p = (pIn + n, pMatch + n)" and n: "pIn + n \<le> limit" "limit \<le> pIn + n + 7"
      "agree m pIn pMatch n"
      using r(2) by (cases p) (auto intro: that [of "fst p - pIn"])
    define a where "a = (if n + pIn + 3 < limit \<and> agree m (pIn + n) (pMatch + n) 4 then n + 4 else n)"
    define b where "b = (if a + pIn + 1 < limit \<and> agree m (pIn + a) (pMatch + a) 2 then a + 2 else a)"
    define e where "e = (if b + pIn < limit \<and> m ! (pIn + b) = m ! (pMatch + b) then b + 1 else b)"
    have a: "pIn + a \<le> limit" "agree m pIn pMatch a"
      using n by (auto simp: a_def agree_add)
    have b: "pIn + b \<le> limit" "agree m pIn pMatch b"
      using a by (auto simp: b_def agree_add simp del: add_2_eq_Suc')
    have e: "pIn + e \<le> limit" "agree m pIn pMatch e"
      using b agree_add [of m pIn pMatch b 1] by (auto simp: e_def)
    have 4: "(if pIn + n + 3 < limit then
          do {
            x \<leftarrow> LZ4_read32 m (pMatch + n);
            y \<leftarrow> LZ4_read32 m (pIn + n);
            Some (if x = y then (pIn + n + 4, pMatch + n + 4) else (pIn + n, pMatch + n)) }
        else Some (pIn + n, pMatch + n)) = Some (pIn + a, pMatch + a)"
      using assms words_agree(2) [of "pIn + n" m "pMatch + n"]
      by (auto simp: a_def add.commute)
    have 2: "(if pIn + a + 1 < limit then
          do {
            x \<leftarrow> LZ4_read16 m (pMatch + a);
            y \<leftarrow> LZ4_read16 m (pIn + a);
            Some (if x = y then (pIn + a + 2, pMatch + a + 2) else (pIn + a, pMatch + a)) }
        else Some (pIn + a, pMatch + a)) = Some (pIn + b, pMatch + b)"
      using assms words_agree(1) [of "pIn + a" m "pMatch + a"]
      by (auto simp: b_def add.commute)
    have 1: "(if pIn + b < limit then
          do {
            x \<leftarrow> byte_at m (pMatch + b);
            y \<leftarrow> byte_at m (pIn + b);
            Some (if x = y then pIn + b + 1 else pIn + b) }
        else Some (pIn + b)) = Some (pIn + e)"
      using assms by (auto simp: e_def byte_at_def add.commute)
    have "LZ4_count m pIn pMatch limit = Some e"
      unfolding LZ4_count_def r(1) Inr p using 4 2 1 by simp
    moreover have "m ! (pIn + e) \<noteq> m ! (pMatch + e)" if "pIn + e < limit"
    proof
      assume "m ! (pIn + e) = m ! (pMatch + e)"
      with e(2) have "agree m pIn pMatch (e + 1)" by (simp add: agree_add [of m pIn pMatch e 1, simplified])
      then have sub: "agree m (pIn + x) (pMatch + x) k" if "x + k \<le> e + 1" for x k
        using agree_mono [OF _ that] by (simp add: agree_add)
      have eb: "e = b + 1"
        using sub [of b 1] \<open>pIn + e < limit\<close> by (auto simp: e_def split: if_splits)
      have ba: "b = a + 2"
        using sub [of a 2] \<open>pIn + e < limit\<close> eb by (auto simp: b_def add.commute split: if_splits)
      have "a = n + 4"
        using sub [of n 4] \<open>pIn + e < limit\<close> eb ba by (auto simp: a_def add.commute split: if_splits)
      with eb ba n(2) \<open>pIn + e < limit\<close> show False by simp
    qed
    ultimately show ?thesis using e by blast
  qed
qed

section \<open>The hash table\<close>

lemma unat_drop_bit_less: "k + r = LENGTH('a :: len) \<Longrightarrow> unat (drop_bit k (x :: 'a word)) < 2 ^ r"
proof -
  assume kr: "k + r = LENGTH('a)"
  have "unat (drop_bit k x) = unat x div 2 ^ k"
    unfolding unsigned_drop_bit_eq by (simp add: drop_bit_eq_div take_bit_nat_eq_self)
  moreover have "unat x < 2 ^ r * 2 ^ k"
    using unsigned_less [of x] kr by (simp add: add.commute flip: power_add)
  ultimately show ?thesis by (simp add: less_mult_imp_div_less)
qed

lemma LZ4_hashPosition_spec:
  assumes "p + 8 \<le> length source"
  shows "\<exists>h < table_size tt. LZ4_hashPosition source p tt = Some h"
proof (cases tt)
  case byU32
  have "unat (drop_bit 52 x) < 2 ^ 12" for x :: u64
    by (rule unat_drop_bit_less) simp
  with byU32 assms show ?thesis
    by (simp add: LZ4_hashPosition_def LZ4_hash5_def table_size_def)
next
  case byU16
  have "unat (drop_bit 19 x) < 2 ^ 13" for x :: u32
    by (rule unat_drop_bit_less) simp
  with byU16 assms show ?thesis
    by (simp add: LZ4_hashPosition_def LZ4_hash4_def table_size_def)
qed

text \<open>Every index in the table is below \<open>p\<close>.\<close>

definition table_below :: "hash_table \<Rightarrow> nat \<Rightarrow> bool" where
  "table_below table p \<longleftrightarrow> (\<forall>h. table h < p)"

lemma table_below_mono: "table_below t p \<Longrightarrow> p \<le> q \<Longrightarrow> table_below t q"
  unfolding table_below_def by (meson less_le_trans)

lemma put_below:
  assumes "h < table_size tt" "table_below table p" "idx < p"
  shows "\<exists>table'. LZ4_putIndexOnHash idx h table tt = Some table' \<and> table_below table' p"
proof -
  have "idx mod k < p" for k
    using assms(3) by (rule le_less_trans [OF mod_less_eq_dividend])
  with assms show ?thesis
    by (auto simp: LZ4_putIndexOnHash_def table_below_def split: tableType.splits)
qed

lemma get_below:
  "h < table_size tt \<Longrightarrow> table_below table p \<Longrightarrow>
    \<exists>i < p. LZ4_getIndexOnHash h table tt = Some i"
  by (simp add: LZ4_getIndexOnHash_def table_below_def)

section \<open>The search\<close>

text \<open>The sizes the wrappers guarantee: 16-bit indices are used on small inputs only.\<close>

definition job_ok :: "lz4_job \<Rightarrow> bool" where
  "job_ok c \<longleftrightarrow> 13 \<le> inputSize c \<and> 1 \<le> e_accel c \<and>
     (e_type c = byU16 \<longrightarrow> inputSize c < 65547)"

text \<open>A usable match of at least four bytes.\<close>

definition match_at :: "lz4_job \<Rightarrow> nat \<Rightarrow> nat \<Rightarrow> bool" where
  "match_at c ip match \<longleftrightarrow> ip < mflimitPlusOne c \<and> match < ip \<and> ip - match \<le> LZ4_DISTANCE_MAX \<and>
     agree (e_src c) ip match MINMATCH"

lemma find_match_spec:
  assumes "job_ok c" "1 \<le> fwd" "1 \<le> step" "64 \<le> nb" "h < table_size (e_type c)" "table_below table fwd"
  shows "\<exists>r. find_match c fwd step nb h table = Some r \<and>
    (case r of
       NotFound _ \<Rightarrow> True
     | FoundAt ip match table' \<Rightarrow> fwd \<le> ip \<and> match_at c ip match \<and> table_below table' (ip + 1))"
  using assms
proof (induction c fwd step nb h table rule: find_match.induct)
  case (1 c fwd step nb h table)
  obtain i where i: "LZ4_getIndexOnHash h table (e_type c) = Some i" "i < fwd"
    using get_below [OF "1.prems"(5,6)] by blast
  show ?case
  proof (cases "mflimitPlusOne c < fwd + step")
    case True
    with i show ?thesis by (subst find_match.simps) simp
  next
    case False
    with "1.prems" have room: "fwd + step + 8 \<le> inputSize c" "fwd + 4 \<le> inputSize c" "i + 4 \<le> inputSize c"
      using i(2) by (auto simp: job_ok_def)
    obtain h' where h': "LZ4_hashPosition (e_src c) (fwd + step) (e_type c) = Some h'" "h' < table_size (e_type c)"
      using LZ4_hashPosition_spec [OF room(1)] by blast
    obtain t' where t': "LZ4_putIndexOnHash fwd h table (e_type c) = Some t'" "table_below t' (fwd + 1)"
      using put_below [OF "1.prems"(5) table_below_mono [OF "1.prems"(6)], of "fwd + 1" fwd] by auto
    have t'': "table_below t' (fwd + step)"
      by (rule table_below_mono [OF t'(2)]) (use "1.prems"(3) in simp)
    have rec: "\<exists>r. find_match c (fwd + step) (nb div 64) (nb + 1) h' t' = Some r \<and>
      (case r of
         NotFound _ \<Rightarrow> True
       | FoundAt ip match table' \<Rightarrow> fwd \<le> ip \<and> match_at c ip match \<and> table_below table' (ip + 1))"
      if "\<exists>r. find_match c (fwd + step) (nb div 64) (nb + 1) h' t' = Some r \<and>
        (case r of
           NotFound _ \<Rightarrow> True
         | FoundAt ip match table' \<Rightarrow> fwd + step \<le> ip \<and> match_at c ip match \<and> table_below table' (ip + 1))"
      using that by (auto split: search.splits)
    have nb: "1 \<le> nb div 64" "64 \<le> nb + 1" "1 \<le> fwd + step"
      using "1.prems"(2,4) by (simp_all add: Suc_le_eq div_greater_zero_iff)
    show ?thesis
    proof (cases "e_type c \<noteq> byU16 \<and> i + LZ4_DISTANCE_MAX < fwd")
      case far: True
      have "find_match c fwd step nb h table = find_match c (fwd + step) (nb div 64) (nb + 1) h' t'"
        using i(1) False h'(1) t'(1) far by (subst find_match.simps) simp
      with rec "1.IH"(1) [OF refl i(1) refl refl refl False h'(1) t'(1) far "1.prems"(1) nb(3,1,2) h'(2) t'']
      show ?thesis by simp
    next
      case near: False
      have eq: "(word_of_nat (le_dec (bytes_at (e_src c) i 4)) :: u32) = word_of_nat (le_dec (bytes_at (e_src c) fwd 4))
          \<longleftrightarrow> agree (e_src c) fwd i 4"
        using words_agree(2) [of i "e_src c" fwd] room by (simp add: agree_sym)
      show ?thesis
      proof (cases "agree (e_src c) fwd i 4")
        case True
        have "find_match c fwd step nb h table = Some (FoundAt fwd i t')"
          using i(1) False h'(1) t'(1) near room eq True by (subst find_match.simps) auto
        moreover have "match_at c fwd i"
          using True near i(2) False "1.prems"(1,3) by (auto simp: match_at_def job_ok_def)
        ultimately show ?thesis using t'(2) by simp
      next
        case no: False
        have "find_match c fwd step nb h table = find_match c (fwd + step) (nb div 64) (nb + 1) h' t'"
          using i(1) False h'(1) t'(1) near room eq no by (subst find_match.simps) auto
        moreover have "\<exists>r. find_match c (fwd + step) (nb div 64) (nb + 1) h' t' = Some r \<and>
          (case r of
             NotFound _ \<Rightarrow> True
           | FoundAt ip match table' \<Rightarrow> fwd + step \<le> ip \<and> match_at c ip match \<and> table_below table' (ip + 1))"
          using "1.IH"(2) [OF refl i(1) refl refl refl False h'(1) t'(1) near _ _ _ "1.prems"(1) nb(3,1,2) h'(2) t'']
            room no eq by simp
        ultimately show ?thesis using rec by simp
      qed
    qed
  qed
qed

lemma agree_Cons: "m ! i = m ! k \<Longrightarrow> agree m (i + 1) (k + 1) n \<Longrightarrow> agree m i k (1 + n)"
  by (simp only: agree_add) simp

lemma catch_up_loop_spec:
  assumes "agree source ip match n" "match < ip" "ip \<le> length source" "anchor \<le> ip"
  shows "\<exists>k. catch_up_loop source anchor ip match = Some (ip - k, match - k) \<and> k \<le> match \<and>
    anchor + k \<le> ip \<and> agree source (ip - k) (match - k) (k + n)"
  using assms
proof (induction source anchor ip match arbitrary: n rule: catch_up_loop.induct)
  case (1 source anchor ip match)
  show ?case
  proof (cases "anchor < ip \<and> 0 < match \<and> source ! (ip - 1) = source ! (match - 1)")
    case False
    with "1.prems" show ?thesis
      by (subst catch_up_loop.simps) (auto simp: byte_at_def intro!: exI [of _ 0])
  next
    case True
    then have rd: "byte_at source (ip - 1) = Some (source ! (ip - 1))"
      "byte_at source (match - 1) = Some (source ! (match - 1))"
      using "1.prems" by (simp_all add: byte_at_def)
    have "agree source (ip - 1) (match - 1) (1 + n)"
      using True "1.prems"(1) by (intro agree_Cons) auto
    moreover have "match - 1 < ip - 1" "ip - 1 \<le> length source" "anchor \<le> ip - 1"
      using True "1.prems" by linarith+
    ultimately obtain k where k: "catch_up_loop source anchor (ip - 1) (match - 1) = Some (ip - 1 - k, match - 1 - k)"
      "k \<le> match - 1" "anchor + k \<le> ip - 1" "agree source (ip - 1 - k) (match - 1 - k) (k + (1 + n))"
      using "1.IH" [of "source ! (ip - 1)" "source ! (match - 1)" "1 + n"] rd True by auto
    have "catch_up_loop source anchor ip match = Some (ip - (k + 1), match - (k + 1))"
      using True rd k(1) by (subst catch_up_loop.simps) simp
    moreover have "agree source (ip - (k + 1)) (match - (k + 1)) (k + 1 + n)"
      using k(4) by simp
    moreover have "k + 1 \<le> match \<and> anchor + (k + 1) \<le> ip" using k(2,3) True by linarith
    ultimately show ?thesis by blast
  qed
qed

lemma catch_up_spec:
  assumes "match_at c ip match" "anchor < ip"
  shows "\<exists>ip' match'. catch_up (e_src c) anchor ip match = Some (ip', match') \<and> anchor \<le> ip' \<and> ip' \<le> ip \<and>
    match_at c ip' match' \<and> agree (e_src c) ip' match' (ip - ip' + 4)"
proof -
  have src: "agree (e_src c) ip match 4" "match < ip" "ip \<le> inputSize c" "ip < mflimitPlusOne c" "ip - match \<le> 65535"
    using assms(1) by (auto simp: match_at_def)
  have loop: "\<exists>k. catch_up (e_src c) anchor ip match = Some (ip - k, match - k) \<and> k \<le> match \<and>
    anchor + k \<le> ip \<and> agree (e_src c) (ip - k) (match - k) (k + 4)"
  proof (cases "0 < match \<and> e_src c ! (ip - 1) = e_src c ! (match - 1)")
    case True
    have "mem_ld (e_src c) (int ip - 1) 1 = Some [e_src c ! (ip - 1)]"
      using src assms(2) mem_ld_in [of "ip - 1" 1 "e_src c"]
      by (simp add: of_nat_diff take_Suc_conv_app_nth hd_drop_conv_nth take_Suc Cons_nth_drop_Suc [symmetric])
    moreover have "catch_up (e_src c) anchor ip match = catch_up_loop (e_src c) anchor ip match"
      if "mem_ld (e_src c) (int ip - 1) 1 = Some [e_src c ! (ip - 1)]"
      using True src assms(2) that
      by (subst catch_up_loop.simps) (simp add: catch_up_def byte_at_def)
    ultimately show ?thesis using catch_up_loop_spec [OF src(1-3), of anchor] assms(2) by simp
  next
    case False
    have "mem_ld (e_src c) (int ip - 1) 1 = Some [e_src c ! (ip - 1)]"
      using src assms(2) mem_ld_in [of "ip - 1" 1 "e_src c"]
      by (simp add: of_nat_diff take_Suc Cons_nth_drop_Suc [symmetric])
    with False src assms(2) show ?thesis
      by (intro exI [of _ 0]) (auto simp: catch_up_def byte_at_def)
  qed
  then obtain k where k: "catch_up (e_src c) anchor ip match = Some (ip - k, match - k)" "k \<le> match"
    "anchor + k \<le> ip" "agree (e_src c) (ip - k) (match - k) (k + 4)" by blast
  have "match_at c (ip - k) (match - k)"
    using k src agree_mono [OF k(4), of 4] by (auto simp: match_at_def)
  with k show ?thesis by (intro exI [of _ "ip - k"] exI [of _ "match - k"]) (simp add: add.commute)
qed

section \<open>Writing to the output\<close>

text \<open>The buffer starts with \<open>out\<close>; a store behind \<open>out\<close> extends it.\<close>

lemma mem_st_prefix:
  assumes "prefix out m" "length out + length bs \<le> length m"
  shows "\<exists>m'. mem_st m (int (length out)) bs = Some m' \<and> length m' = length m \<and> prefix (out @ bs) m'"
  using assms by (auto simp: prefix_def)

lemma prefix_weaken: "prefix (a @ b) m \<Longrightarrow> prefix a m"
  by (auto simp: prefix_def)

text \<open>A store inside \<open>out\<close> replaces one byte.\<close>

lemma mem_st_token:
  assumes "prefix (out @ t # mid) m"
  shows "\<exists>m'. mem_st m (int (length out)) [t'] = Some m' \<and> length m' = length m \<and> prefix (out @ t' # mid) m'"
  using assms by (auto simp: prefix_def)

lemma byte_at_prefix: "prefix (out @ t # mid) m \<Longrightarrow> byte_at m (length out) = Some t"
  by (auto simp: prefix_def byte_at_def nth_append)

text \<open>The bytes of a length that did not fit its nibble.\<close>

definition run_bytes :: "nat \<Rightarrow> bytes" where
  "run_bytes len = replicate (len div 255) 255 @ [word_of_nat (len mod 255)]"

lemma length_run_bytes [simp]: "length (run_bytes len) = len div 255 + 1"
  by (simp add: run_bytes_def)

lemma run_bytes_unfold: "255 \<le> len \<Longrightarrow> run_bytes len = 255 # run_bytes (len - 255)"
  by (simp add: run_bytes_def le_div_geq le_mod_geq)

lemma run_bytes_short: "len < 255 \<Longrightarrow> run_bytes len = [word_of_nat len]"
  by (simp add: run_bytes_def)

lemma ext_len_run: "ext_len (run_bytes len @ rest) = Some (len, rest)"
proof (induction len rule: less_induct)
  case (less len)
  show ?case
  proof (cases "255 \<le> len")
    case True
    with less [of "len - 255"] show ?thesis by (simp add: run_bytes_unfold)
  next
    case False
    then have "(word_of_nat len :: u8) \<noteq> 255"
      by (simp add: word_unat_eq_iff)
    with False show ?thesis by (simp add: run_bytes_short)
  qed
qed

lemma put_run_spec:
  assumes "prefix out m" "length out + len div 255 + 1 \<le> length m"
  shows "\<exists>m'. put_run m (length out) len = Some (m', length out + len div 255 + 1) \<and>
    length m' = length m \<and> prefix (out @ run_bytes len) m'"
  using assms
proof (induction len arbitrary: out m rule: less_induct)
  case (less len)
  show ?case
  proof (cases "255 \<le> len")
    case True
    then have len: "len div 255 = (len - 255) div 255 + 1" by (simp add: le_div_geq)
    obtain m1 where m1: "mem_st m (int (length out)) [255] = Some m1" "length m1 = length m" "prefix (out @ [255]) m1"
      using mem_st_prefix [OF less.prems(1), of "[255]"] less.prems(2) by auto
    have "\<exists>m'. put_run m1 (length (out @ [255])) (len - 255) =
        Some (m', length (out @ [255]) + (len - 255) div 255 + 1) \<and>
      length m' = length m1 \<and> prefix ((out @ [255]) @ run_bytes (len - 255)) m'"
      using True less.prems(2) m1 len by (intro less.IH) auto
    with m1(1,2) True len show ?thesis
      by (subst put_run.simps) (auto simp: run_bytes_unfold)
  next
    case False
    with mem_st_prefix [OF less.prems(1), of "[word_of_nat len]"] less.prems(2) show ?thesis
      by (subst put_run.simps) (auto simp: run_bytes_short)
  qed
qed

lemma LZ4_write32_ones:
  assumes "prefix out m" "length out + 4 \<le> length m"
  shows "\<exists>m'. LZ4_write32 m (length out) 0xFFFFFFFF = Some m' \<and> length m' = length m \<and>
    prefix (out @ replicate 4 255) m'"
proof -
  have "[ucast (0xFFFFFFFF :: u32), ucast (drop_bit 8 (0xFFFFFFFF :: u32)),
      ucast (drop_bit 16 (0xFFFFFFFF :: u32)), ucast (drop_bit 24 (0xFFFFFFFF :: u32))] = replicate 4 (255 :: u8)"
    by code_simp
  then have "LZ4_write32 m (length out) 0xFFFFFFFF = mem_st m (int (length out)) (replicate 4 255)"
    by (simp only: LZ4_write32_def)
  with mem_st_prefix [OF assms(1), of "replicate 4 255"] assms(2) show ?thesis by simp
qed

lemma fill_run_spec:
  assumes "prefix (out @ replicate 4 255) m" "length out + 4 * (mc div 1020) + 4 \<le> length m"
  shows "\<exists>m'. fill_run m (length out) mc = Some (m', length out + 4 * (mc div 1020), mc mod 1020) \<and>
    length m' = length m \<and> prefix (out @ replicate (4 * (mc div 1020) + 4) 255) m'"
  using assms
proof (induction mc arbitrary: out m rule: less_induct)
  case (less mc)
  show ?case
  proof (cases "1020 \<le> mc")
    case False
    with less.prems show ?thesis by (subst fill_run.simps) simp
  next
    case True
    then have div: "mc div 1020 = (mc - 1020) div 1020 + 1" "mc mod 1020 = (mc - 1020) mod 1020"
      by (simp_all add: le_div_geq le_mod_geq)
    have len: "length (out @ replicate 4 255) = length out + 4" by simp
    obtain m1 where m1: "LZ4_write32 m (length out + 4) 0xFFFFFFFF = Some m1" "length m1 = length m"
      "prefix ((out @ replicate 4 255) @ replicate 4 255) m1"
      using LZ4_write32_ones [OF less.prems(1)] less.prems(2) div unfolding len by auto
    have "\<exists>m'. fill_run m1 (length (out @ replicate 4 255)) (mc - 1020) =
        Some (m', length (out @ replicate 4 255) + 4 * ((mc - 1020) div 1020), (mc - 1020) mod 1020) \<and>
      length m' = length m1 \<and>
      prefix ((out @ replicate 4 255) @ replicate (4 * ((mc - 1020) div 1020) + 4) 255) m'"
      using True less.prems(2) m1 div by (intro less.IH) auto
    then obtain m' where m': "fill_run m1 (length out + 4) (mc - 1020) =
        Some (m', length out + 4 + 4 * ((mc - 1020) div 1020), (mc - 1020) mod 1020)"
      "length m' = length m" "prefix (out @ replicate 4 255 @ replicate (4 * ((mc - 1020) div 1020) + 4) 255) m'"
      using m1(2) unfolding len by auto
    have "replicate 4 255 @ replicate (4 * ((mc - 1020) div 1020) + 4) 255 =
        replicate (4 * (mc div 1020) + 4) (255 :: u8)"
      unfolding div(1) by (simp flip: replicate_add)
    with m' m1(1) True div show ?thesis by (subst fill_run.simps) simp
  qed
qed

definition run_ext :: "nat \<Rightarrow> bytes" where
  "run_ext n = (if n < 15 then [] else run_bytes (n - 15))"

lemma length_run_ext: "length (run_ext n) = (n + 240) div 255"
  by (simp add: run_ext_def le_div_geq)

lemma varlen_run: "varlen (min 15 n) (run_ext n @ rest) = Some (n, rest)"
  by (simp add: varlen_def run_ext_def ext_len_run min_def)

lemma put_match_length_spec:
  assumes "prefix (out @ t # mid) m" "op = length out + 1 + length mid"
    "op + 4 + (mc + 240) div 255 \<le> length m + 1"
  shows "\<exists>m'. put_match_length m (length out) op mc = Some (m', op + (mc + 240) div 255) \<and>
    length m' = length m \<and> prefix (out @ (t + word_of_nat (min 15 mc)) # mid @ run_ext mc) m'"
proof (cases "15 \<le> mc")
  case False
  obtain m' where "mem_st m (int (length out)) [t + word_of_nat mc] = Some m'" "length m' = length m"
    "prefix (out @ (t + word_of_nat mc) # mid) m'"
    using mem_st_token [OF assms(1), of "t + word_of_nat mc"] by blast
  with False byte_at_prefix [OF assms(1)] show ?thesis
    by (simp add: put_match_length_def run_ext_def min_def)
next
  case True
  let ?k = "mc - 15" let ?o = "out @ (t + 15) # mid"
  have k: "(mc + 240) div 255 = ?k div 255 + 1" using True by (simp add: le_div_geq)
  have split: "?k div 255 = 4 * (?k div 1020) + ?k mod 1020 div 255" "?k mod 255 = ?k mod 1020 mod 255"
  proof -
    have "?k = 255 * (4 * (?k div 1020)) + ?k mod 1020" by simp
    then show "?k div 255 = 4 * (?k div 1020) + ?k mod 1020 div 255"
      by (metis div_mult_self4 add.commute mult.commute zero_neq_numeral)
    show "?k mod 255 = ?k mod 1020 mod 255" by (simp add: mod_mod_cancel)
  qed
  obtain m1 where m1: "mem_st m (int (length out)) [t + 15] = Some m1" "length m1 = length m" "prefix ?o m1"
    using mem_st_token [OF assms(1), of "t + 15"] by auto
  have op: "op = length ?o" using assms(2) by simp
  obtain m2 where m2: "LZ4_write32 m1 op 0xFFFFFFFF = Some m2" "length m2 = length m"
    "prefix (?o @ replicate 4 255) m2"
    using LZ4_write32_ones [OF m1(3)] m1(2) assms(3) k unfolding op by auto
  obtain m3 where m3: "fill_run m2 op ?k = Some (m3, op + 4 * (?k div 1020), ?k mod 1020)"
    "length m3 = length m" "prefix (?o @ replicate (4 * (?k div 1020) + 4) 255) m3"
    using fill_run_spec [OF m2(3), of ?k] m2(2) assms(3) k split(1) unfolding op by auto
  let ?r = "?k mod 1020 div 255"
  have r: "?r \<le> 3" using mod_less_divisor [of 1020 ?k] by (simp add: div_le_mono less_Suc_eq_le flip: less_Suc_eq_le)
  have "replicate (4 * (?k div 1020) + 4) (255 :: u8) = replicate (?k div 255) 255 @ replicate (4 - ?r) 255"
    unfolding split(1) using r by (simp flip: replicate_add)
  with m3(3) have "prefix (?o @ replicate (?k div 255) 255) m3"
    by (metis append.assoc prefix_weaken)
  from mem_st_prefix [OF this, of "[word_of_nat (?k mod 255)]"] m3(2) assms(3) k
  obtain m4 where m4: "mem_st m3 (int (op + ?k div 255)) [word_of_nat (?k mod 255)] = Some m4" "length m4 = length m"
    "prefix (?o @ run_bytes ?k) m4"
    unfolding op by (auto simp: run_bytes_def add.assoc)
  have "put_match_length m (length out) op mc = Some (m4, op + ?k div 255 + 1)"
    using True byte_at_prefix [OF assms(1)] m1(1) m2(1) m3(1) m4(1) split
    by (simp add: put_match_length_def add.assoc)
  with m4(2,3) True k show ?thesis by (simp add: run_ext_def min_def)
qed

section \<open>Sequences\<close>

definition token_of :: "nat \<Rightarrow> nat \<Rightarrow> u8" where
  "token_of ll mc = word_of_nat (min 15 ll * 16 + min 15 mc)"

lemma token_of_nibbles [simp]: "lit_nibble (token_of ll mc) = min 15 ll" "match_nibble (token_of ll mc) = min 15 mc"
proof -
  have "unat (token_of ll mc) = min 15 ll * 16 + min 15 mc"
    unfolding token_of_def by (subst unat_of_nat_u8) simp
  then show "lit_nibble (token_of ll mc) = min 15 ll" "match_nibble (token_of ll mc) = min 15 mc"
    by (simp_all add: lit_nibble_div match_nibble_mod)
qed

definition le16 :: "nat \<Rightarrow> bytes" where
  "le16 off = [word_of_nat (off mod 256), word_of_nat (off div 256)]"

definition seq_bytes :: "bytes \<Rightarrow> nat \<Rightarrow> nat \<Rightarrow> bytes" where
  "seq_bytes lits off mc =
     token_of (length lits) mc # run_ext (length lits) @ lits @ le16 off @ run_ext mc"

definition last_bytes :: "bytes \<Rightarrow> bytes" where
  "last_bytes lits = token_of (length lits) 0 # run_ext (length lits) @ lits"

lemma lz4_decode_seq:
  assumes "off \<le> length out + length lits" "off < 65536"
  shows "lz4_decode (seq_bytes lits off mc @ rest) out = lz4_decode rest (lz_copy (out @ lits) off (mc + 4))"
proof -
  have "off div 256 < 256" using assms(2) by (simp add: less_mult_imp_div_less)
  then have "unat (word_of_nat (off mod 256) :: u8) + 256 * unat (word_of_nat (off div 256) :: u8) = off"
    by simp
  with assms(1) show ?thesis
    by (simp add: seq_bytes_def le16_def lz4_decode_Cons varlen_run decode_lit_def decode_match_def)
qed

lemma lz4_strict_seq:
  assumes "off \<le> n + length lits" "off < 65536" "n + length lits + 12 \<le> tot" "n + length lits + mc + 9 \<le> tot"
  shows "lz4_strict tot (seq_bytes lits off mc @ rest) n = lz4_strict tot rest (n + length lits + mc + 4)"
proof -
  have "off div 256 < 256" using assms(2) by (simp add: less_mult_imp_div_less)
  then have "unat (word_of_nat (off mod 256) :: u8) + 256 * unat (word_of_nat (off div 256) :: u8) = off"
    by simp
  with assms show ?thesis
    by (simp add: seq_bytes_def le16_def lz4_strict_Cons varlen_run strict_lit_def strict_match_def add.assoc)
qed

lemma lz4_decode_last: "lz4_decode (last_bytes lits) out = Some (out @ lits)"
  using varlen_run [of "length lits" lits]
  by (simp add: last_bytes_def lz4_decode_Cons decode_lit_def)

lemma lz4_strict_last: "lz4_strict tot (last_bytes lits) n \<longleftrightarrow> n + length lits = tot"
  using varlen_run [of "length lits" lits]
  by (simp add: last_bytes_def lz4_strict_Cons strict_lit_def)

lemma lz4_distances_seq:
  assumes "0 < off" "off < 65536"
  shows "lz4_distances (seq_bytes lits off mc @ rest) = lz4_distances rest"
proof -
  have "off div 256 < 256" using assms(2) by (simp add: less_mult_imp_div_less)
  then have "unat (word_of_nat (off mod 256) :: u8) + 256 * unat (word_of_nat (off div 256) :: u8) = off"
    by simp
  with assms(1) show ?thesis
    by (simp add: seq_bytes_def le16_def lz4_distances.simps(2) varlen_run del: add_gr_0)
qed

lemma lz4_distances_last: "lz4_distances (last_bytes lits)"
  using varlen_run [of "length lits" lits] by (simp add: last_bytes_def lz4_distances.simps(2))

text \<open>A match copied from the decoded prefix continues the source.\<close>

lemma lz_copy_agree:
  assumes "agree source ip (ip - off) n" "0 < off" "off \<le> ip" "ip + n \<le> length source"
  shows "lz_copy (take ip source) off n = take (ip + n) source"
proof -
  have byte: "j < n \<Longrightarrow> source ! (ip - off + j mod off) = source ! (ip + j)" for j
  proof (induction j rule: less_induct)
    case (less j)
    show ?case
    proof (cases "j < off")
      case True
      with less.prems assms(1) show ?thesis by (simp add: agree_def)
    next
      case False
      have "source ! (ip + j) = source ! (ip - off + j)" using less.prems assms(1) by (simp add: agree_def)
      also have "ip - off + j = ip + (j - off)" using False assms(3) by simp
      also have "source ! (ip + (j - off)) = source ! (ip - off + (j - off) mod off)"
        using less False assms(2) by simp
      also have "(j - off) mod off = j mod off" using False by (simp add: le_mod_geq)
      finally show ?thesis by simp
    qed
  qed
  show ?thesis
  proof (rule nth_equalityI)
    show "length (lz_copy (take ip source) off n) = length (take (ip + n) source)"
      using assms(4) by simp
    fix j assume j: "j < length (lz_copy (take ip source) off n)"
    have "ip - off + (j - ip) mod off < ip"
      using assms(2,3) mod_less_divisor [of off "j - ip"] by linarith
    with j assms byte [of "j - ip"] show "lz_copy (take ip source) off n ! j = take (ip + n) source ! j"
      by (auto simp: lz_copy_def nth_append lz_byte_def)
  qed
qed

text \<open>What \<open>out\<close> is worth: it stands for the first \<open>p\<close> bytes of the source.\<close>

definition emitted :: "bytes \<Rightarrow> bytes \<Rightarrow> nat \<Rightarrow> bool" where
  "emitted source out p \<longleftrightarrow> p \<le> length source \<and>
     (\<forall>rest. lz4_decode (out @ rest) [] = lz4_decode rest (take p source) \<and>
       lz4_strict (length source) (out @ rest) 0 = lz4_strict (length source) rest p \<and>
       lz4_distances (out @ rest) = lz4_distances rest)"

lemma emitted_Nil: "emitted source [] 0"
  by (simp add: emitted_def)

lemma emitted_seq:
  assumes "emitted source out p" "p \<le> ip" "agree source ip match (mc + 4)" "match < ip" "ip - match < 65536"
    "ip + 12 \<le> length source" "ip + mc + 9 \<le> length source"
  shows "emitted source (out @ seq_bytes (bytes_at source p (ip - p)) (ip - match) mc) (ip + mc + 4)"
proof -
  let ?l = "bytes_at source p (ip - p)"
  have len: "length ?l = ip - p" using assms(2,6) by simp
  have lits: "take p source @ ?l = take ip source"
    using assms(2) by (metis le_add_diff_inverse take_add)
  have "lz4_decode ((out @ seq_bytes ?l (ip - match) mc) @ rest) [] = lz4_decode rest (take (ip + mc + 4) source)" for rest
  proof -
    have "lz4_decode ((out @ seq_bytes ?l (ip - match) mc) @ rest) [] =
        lz4_decode (seq_bytes ?l (ip - match) mc @ rest) (take p source)"
      using assms(1) by (simp add: emitted_def)
    also have "\<dots> = lz4_decode rest (lz_copy (take ip source) (ip - match) (mc + 4))"
      using len assms(2,5,6) lits by (subst lz4_decode_seq) (simp_all)
    also have "lz_copy (take ip source) (ip - match) (mc + 4) = take (ip + mc + 4) source"
      using assms(3,4,7) by (subst lz_copy_agree) (simp_all add: add.assoc)
    finally show ?thesis .
  qed
  moreover have "lz4_strict (length source) ((out @ seq_bytes ?l (ip - match) mc) @ rest) 0 =
      lz4_strict (length source) rest (ip + mc + 4)" for rest
  proof -
    have "lz4_strict (length source) ((out @ seq_bytes ?l (ip - match) mc) @ rest) 0 =
        lz4_strict (length source) (seq_bytes ?l (ip - match) mc @ rest) p"
      using assms(1) by (simp add: emitted_def)
    also have "\<dots> = lz4_strict (length source) rest (ip + mc + 4)"
      using len assms(2,5-7) by (subst lz4_strict_seq) simp_all
    finally show ?thesis .
  qed
  moreover have "lz4_distances ((out @ seq_bytes ?l (ip - match) mc) @ rest) = lz4_distances rest" for rest
    using assms(1,4,5) lz4_distances_seq [of "ip - match"] by (simp add: emitted_def)
  ultimately show ?thesis using assms(7) by (simp add: emitted_def)
qed

lemma emitted_last:
  assumes "emitted source out p"
  shows "lz4_decode (out @ last_bytes (drop p source)) [] = Some source"
    and "lz4_strict (length source) (out @ last_bytes (drop p source)) 0"
    and "lz4_distances (out @ last_bytes (drop p source))"
  using assms by (simp_all add: emitted_def lz4_decode_last lz4_strict_last lz4_distances_last)

section \<open>The stages\<close>

text \<open>
  The budget: without a limit the output so far is at most the bound for the input consumed and
  the buffer has the size of the bound; with a limit the buffer holds at least the limit.
\<close>

definition fits :: "lz4_job \<Rightarrow> nat \<Rightarrow> nat \<Rightarrow> nat \<Rightarrow> bool" where
  "fits c C p op \<longleftrightarrow>
     (case e_directive c of
        notLimited \<Rightarrow> inputSize c + inputSize c div 255 + 16 \<le> C \<and> op \<le> p + p div 255
      | limitedOutput \<Rightarrow> e_olimit c \<le> C)"

definition at_last :: "lz4_job \<Rightarrow> nat \<Rightarrow> lz4_enc \<Rightarrow> bytes \<Rightarrow> bool" where
  "at_last c C s out \<longleftrightarrow> prefix out (e_dst s) \<and> length (e_dst s) = C \<and> e_op s = length out \<and>
     emitted (e_src c) out (e_anchor s) \<and> fits c C (e_anchor s) (length out)"

definition at_find :: "lz4_job \<Rightarrow> nat \<Rightarrow> lz4_enc \<Rightarrow> bytes \<Rightarrow> bool" where
  "at_find c C s out \<longleftrightarrow> at_last c C s out \<and> e_anchor s < e_ip s \<and>
     table_below (e_table s) (e_ip s) \<and> e_forwardH s < table_size (e_type c)"

text \<open>Every step moves towards the end: the anchor advances with every match.\<close>

definition rank :: "lz4_job \<Rightarrow> enc_step \<Rightarrow> nat" where
  "rank c step =
     (case step of
        FindMatch s \<Rightarrow> 2 * (inputSize c + 1 - e_anchor s) + 1
      | NextMatch s \<Rightarrow> 2 * (inputSize c + 1 - e_anchor s)
      | _ \<Rightarrow> 0)"

text \<open>
  \<open>g\<close> is how far the match was moved back by the catch-up; the table may already hold the
  positions up to where it was found.
\<close>

definition matched :: "lz4_job \<Rightarrow> lz4_enc \<Rightarrow> bool" where
  "matched c s \<longleftrightarrow> e_anchor s \<le> e_ip s \<and> match_at c (e_ip s) (e_match s) \<and>
     (\<exists>g. agree (e_src c) (e_ip s) (e_match s) (g + 4) \<and> e_ip s + g < mflimitPlusOne c \<and>
       table_below (e_table s) (e_ip s + g + 1))"

definition at_next :: "lz4_job \<Rightarrow> nat \<Rightarrow> lz4_enc \<Rightarrow> bytes \<Rightarrow> bool" where
  "at_next c C s out \<longleftrightarrow>
     (let L = e_ip s - e_anchor s in
      prefix (out @ token_of L 0 # run_ext L @ bytes_at (e_src c) (e_anchor s) L) (e_dst s) \<and>
      length (e_dst s) = C \<and> e_token s = length out \<and>
      e_op s = length out + 1 + (L + 240) div 255 + L \<and>
      emitted (e_src c) out (e_anchor s) \<and> fits c C (e_anchor s) (length out) \<and>
      (e_directive c = limitedOutput \<longrightarrow> e_op s + 2 \<le> e_olimit c) \<and> matched c s)"

definition enc_ok :: "lz4_job \<Rightarrow> nat \<Rightarrow> enc_step \<Rightarrow> bool" where
  "enc_ok c C step \<longleftrightarrow>
     (case step of
        ReturnZero \<Rightarrow> e_directive c = limitedOutput
      | LastLiterals s \<Rightarrow> \<exists>out. at_last c C s out
      | FindMatch s \<Rightarrow> \<exists>out. at_find c C s out
      | NextMatch s \<Rightarrow> \<exists>out. at_next c C s out)"

lemma div255_add: "a div 255 + b div 255 \<le> (a + b) div (255 :: nat)"
  by (metis div_add1_eq le_add1)

lemma run_len: "(L + 240) div 255 \<le> L div 255 + (1 :: nat)"
  by linarith

lemma mem_put_run_spec:
  assumes "prefix out m" "length out + 1 + (L + 240) div 255 \<le> length m"
  shows "\<exists>m'. (if 15 \<le> L then
        do { m \<leftarrow> mem_st m (int (length out)) [word_of_nat (15 * 16)]; put_run m (length out + 1) (L - 15) }
      else do { m \<leftarrow> mem_st m (int (length out)) [word_of_nat (L * 16)]; Some (m, length out + 1) }) =
      Some (m', length out + 1 + (L + 240) div 255) \<and> length m' = length m \<and>
    prefix (out @ token_of L 0 # run_ext L) m'"
proof (cases "15 \<le> L")
  case True
  then have len: "(L + 240) div 255 = (L - 15) div 255 + 1" by (simp add: le_div_geq)
  have tok: "token_of L 0 = 240" using True by (simp add: token_of_def min_def)
  obtain m1 where m1: "mem_st m (int (length out)) [240] = Some m1" "length m1 = length m" "prefix (out @ [240]) m1"
    using mem_st_prefix [OF assms(1), of "[240]"] assms(2) by auto
  obtain m2 where "put_run m1 (length (out @ [240])) (L - 15) =
      Some (m2, length (out @ [240]) + (L - 15) div 255 + 1)" "length m2 = length m1"
    "prefix ((out @ [240]) @ run_bytes (L - 15)) m2"
    using put_run_spec [OF m1(3), of "L - 15"] m1(2) assms(2) len by auto
  with m1 True len tok show ?thesis by (simp add: run_ext_def)
next
  case False
  have "token_of L 0 = word_of_nat (L * 16)" using False by (simp add: token_of_def)
  moreover obtain m1 where "mem_st m (int (length out)) [word_of_nat (L * 16)] = Some m1" "length m1 = length m"
    "prefix (out @ [word_of_nat (L * 16)]) m1"
    using mem_st_prefix [OF assms(1), of "[word_of_nat (L * 16)]"] assms(2) by auto
  ultimately show ?thesis using False by (simp add: run_ext_def)
qed

lemma prefix_take: "prefix out m \<Longrightarrow> take (length out) m = out"
  by (auto simp: prefix_def)

lemma take_prefix: "take n m = out \<Longrightarrow> prefix out m"
  using take_is_prefix by metis

lemma encode_literals_ok:
  assumes last: "at_last c C s out" and matched: "matched c s"
  shows "\<exists>step. encode_literals c s = Some step \<and> enc_ok c C step \<and> rank c step < rank c (FindMatch s)"
proof (cases "e_directive c = limitedOutput \<and>
    e_olimit c < e_op s + 1 + (e_ip s - e_anchor s) + (2 + 1 + LASTLITERALS) + (e_ip s - e_anchor s) div 255")
  case True
  then show ?thesis by (simp add: encode_literals_def Let_def enc_ok_def rank_def)
next
  case False
  define L where "L = e_ip s - e_anchor s"
  define d where "d = length out + 1 + (L + 240) div 255"
  have s: "prefix out (e_dst s)" "length (e_dst s) = C" "e_op s = length out" "emitted (e_src c) out (e_anchor s)"
    "fits c C (e_anchor s) (length out)"
    using last by (auto simp: at_last_def)
  have ip: "e_anchor s + L = e_ip s" "e_ip s + 12 \<le> inputSize c"
    using matched by (auto simp: matched_def L_def match_at_def)
  have room: "d + 8 \<le> C" "d + L + 7 \<le> C" "e_directive c = limitedOutput \<Longrightarrow> d + L + 2 \<le> e_olimit c"
  proof (atomize (full), cases "e_directive c")
    case notLimited
    have "d + L + 9 \<le> inputSize c + (e_anchor s div 255 + L div 255) + 16"
      using s(5) notLimited ip run_len [of L] by (simp add: fits_def d_def)
    moreover have "e_anchor s div 255 + L div 255 \<le> inputSize c div 255"
      using div255_add [of "e_anchor s" L] ip div_le_mono [of "e_ip s" "inputSize c" 255] by linarith
    ultimately show "d + 8 \<le> C \<and> d + L + 7 \<le> C \<and> (e_directive c = limitedOutput \<longrightarrow> d + L + 2 \<le> e_olimit c)"
      using s(5) notLimited by (simp add: fits_def)
  next
    case limitedOutput
    then have "length out + 9 + L + L div 255 \<le> e_olimit c" "e_olimit c \<le> C"
      using False s(3,5) by (auto simp: L_def fits_def)
    moreover have "d + L + 7 \<le> length out + 9 + L + L div 255" using run_len [of L] by (simp add: d_def)
    moreover have "d + 8 \<le> length out + 9 + L + L div 255"
    proof (cases "L = 0")
      case True
      then show ?thesis by (simp add: d_def)
    next
      case False
      then show ?thesis using run_len [of L] unfolding d_def by linarith
    qed
    ultimately show "d + 8 \<le> C \<and> d + L + 7 \<le> C \<and> (e_directive c = limitedOutput \<longrightarrow> d + L + 2 \<le> e_olimit c)"
      by linarith
  qed
  obtain m1 where m1: "(if 15 \<le> L then
        do { m \<leftarrow> mem_st (e_dst s) (int (length out)) [word_of_nat (15 * 16)]; put_run m (length out + 1) (L - 15) }
      else do { m \<leftarrow> mem_st (e_dst s) (int (length out)) [word_of_nat (L * 16)]; Some (m, length out + 1) }) =
      Some (m1, d)" "length m1 = C" "prefix (out @ token_of L 0 # run_ext L) m1"
    using mem_put_run_spec [OF s(1), of L] s(2) room(1) by (auto simp: d_def)
  have d: "d = length (out @ token_of L 0 # run_ext L)" by (simp add: d_def length_run_ext)
  obtain m2 K where m2: "LZ4_wildCopy8 (copy_lit (e_src c)) m1 d (int (e_anchor s)) (d + L) = Some m2"
    "lit_rep m1 d (e_src c) (e_anchor s) K m2" "d + L \<le> K"
    using wildCopy8_lit_rep [of "e_anchor s" "d + L" d "e_src c" m1] ip room m1(2) by auto
  have "take (d + L) m2 = (out @ token_of L 0 # run_ext L) @ bytes_at (e_src c) (e_anchor s) L"
    using lit_rep_take [of m1 "out @ token_of L 0 # run_ext L" "e_src c" "e_anchor s" K m2 L] m2(2,3)
      room(2) m1(2) ip prefix_take [OF m1(3)] unfolding d by simp
  then have pre: "prefix (out @ token_of L 0 # run_ext L @ bytes_at (e_src c) (e_anchor s) L) m2"
    using take_prefix by fastforce
  have len: "length m2 = C" using filled_length [OF m2(2)] m1(2) by simp
  define s' where "s' = s\<lparr>e_dst := m2, e_token := e_op s, e_op := d + L\<rparr>"
  have no: "\<not> (e_directive c = limitedOutput \<and>
      e_olimit c < length out + 1 + L + (2 + 1 + LASTLITERALS) + L div 255)"
    using False s(3) by (simp add: L_def)
  have "encode_literals c s = Some (NextMatch s')"
    unfolding encode_literals_def Let_def s'_def L_def [symmetric] s(3) if_not_P [OF no] m1(1)
    by (simp add: m2(1))
  moreover have "at_next c C s' out"
    using pre len s room(3) matched
    by (simp add: at_next_def s'_def Let_def matched_def d_def flip: L_def)
  ultimately show ?thesis by (auto simp: enc_ok_def rank_def s'_def)
qed

lemma enc_find_ok:
  assumes job: "job_ok c" and at: "at_find c C s out"
  shows "\<exists>step. enc_find c s = Some step \<and> enc_ok c C step \<and> rank c step < rank c (FindMatch s)"
proof -
  have s: "at_last c C s out" "e_anchor s < e_ip s" "table_below (e_table s) (e_ip s)"
    "e_forwardH s < table_size (e_type c)"
    using at by (auto simp: at_find_def)
  obtain r where r: "find_match c (e_ip s) 1 (e_accel c * 64) (e_forwardH s) (e_table s) = Some r"
    "case r of NotFound _ \<Rightarrow> True
     | FoundAt ip match table' \<Rightarrow> e_ip s \<le> ip \<and> match_at c ip match \<and> table_below table' (ip + 1)"
    using find_match_spec [OF job _ _ _ s(4,3), of 1 "e_accel c * 64"] job s(2) by (auto simp: job_ok_def)
  show ?thesis
  proof (cases r)
    case (NotFound table)
    with r(1) s(1) show ?thesis by (auto simp: enc_find_def enc_ok_def at_last_def rank_def)
  next
    case (FoundAt ip match table)
    with r(2) have f: "e_ip s \<le> ip" "match_at c ip match" "table_below table (ip + 1)" by auto
    obtain ip' match' where cu: "catch_up (e_src c) (e_anchor s) ip match = Some (ip', match')"
      "e_anchor s \<le> ip'" "ip' \<le> ip" "match_at c ip' match'" "agree (e_src c) ip' match' (ip - ip' + 4)"
      using catch_up_spec [OF f(2), of "e_anchor s"] f(1) s(2) by auto
    let ?s = "s\<lparr>e_ip := ip', e_match := match', e_table := table\<rparr>"
    have "at_last c C ?s out" using s(1) by (simp add: at_last_def)
    moreover have "matched c ?s"
      using cu(2-5) f(2,3) by (auto simp: matched_def match_at_def intro!: exI [of _ "ip - ip'"])
    ultimately obtain step where "encode_literals c ?s = Some step" "enc_ok c C step" "rank c step < rank c (FindMatch ?s)"
      using encode_literals_ok by blast
    with r(1) cu(1) FoundAt show ?thesis by (simp add: enc_find_def rank_def)
  qed
qed

lemma LZ4_writeLE16_bytes:
  assumes "k < 65536"
  shows "LZ4_writeLE16 m i (word_of_nat k) = mem_st m (int i) (le16 k)"
proof -
  have "unat (word_of_nat k :: u16) = k" using assms by simp
  moreover from this have "unat (drop_bit 8 (word_of_nat k :: u16)) = k div 256"
    unfolding unsigned_drop_bit_eq using assms by (simp add: drop_bit_eq_div take_bit_nat_eq_self)
  ultimately have "ucast (word_of_nat k :: u16) = (word_of_nat (k mod 256) :: u8)"
    "ucast (drop_bit 8 (word_of_nat k :: u16)) = (word_of_nat (k div 256) :: u8)"
    by (simp_all add: word_unat_eq_iff unsigned_ucast_eq take_bit_eq_mod)
  then show ?thesis by (simp add: LZ4_writeLE16_def le16_def)
qed

text \<open>Encoding a match, up to the test for the end of the chunk.\<close>

lemma encode_match_ok:
  assumes job: "job_ok c" and at: "at_next c C s out"
  shows "\<exists>r. encode_match c s = Some r \<and>
    (case r of
       None \<Rightarrow> e_directive c = limitedOutput
     | Some s' \<Rightarrow> \<exists>out'. at_last c C s' out' \<and> e_anchor s' = e_ip s' \<and> e_anchor s < e_ip s' \<and>
         1 < e_ip s' \<and> table_below (e_table s') (e_ip s') \<and>
         (e_directive c = limitedOutput \<longrightarrow> length out' + 6 \<le> e_olimit c))"
proof -
  define L where "L = e_ip s - e_anchor s"
  define mid where "mid = run_ext L @ bytes_at (e_src c) (e_anchor s) L"
  obtain g where g: "agree (e_src c) (e_ip s) (e_match s) (g + 4)" "e_ip s + g < mflimitPlusOne c"
    "table_below (e_table s) (e_ip s + g + 1)"
    and s: "prefix (out @ token_of L 0 # mid) (e_dst s)" "length (e_dst s) = C" "e_token s = length out"
      "e_op s = length out + 1 + (L + 240) div 255 + L" "emitted (e_src c) out (e_anchor s)"
      "fits c C (e_anchor s) (length out)" "e_directive c = limitedOutput \<Longrightarrow> e_op s + 2 \<le> e_olimit c"
      "e_anchor s \<le> e_ip s" "match_at c (e_ip s) (e_match s)"
    using at by (auto simp: at_next_def Let_def matched_def L_def mid_def)
  have n: "e_ip s + 12 \<le> inputSize c" "e_match s < e_ip s" "e_ip s - e_match s < 65536" "e_anchor s + L = e_ip s"
    "e_ip s + g + 12 \<le> inputSize c" "13 \<le> inputSize c"
    using s(8,9) g(2) job by (auto simp: match_at_def L_def job_ok_def)
  have op: "e_op s = length (out @ token_of L 0 # mid)"
    using s(4) n(1,4) by (simp add: mid_def length_run_ext)
  define off where "off = e_ip s - e_match s"
  have room: "e_op s + 2 \<le> C"
    and bound: "e_directive c = notLimited \<Longrightarrow> e_op s \<le> e_ip s + e_ip s div 255 + 2"
  proof -
    show b: "e_op s \<le> e_ip s + e_ip s div 255 + 2" if "e_directive c = notLimited"
      using s(4,6) that n(4) run_len [of L] div255_add [of "e_anchor s" L] by (simp add: fits_def)
    show "e_op s + 2 \<le> C"
    proof (cases "e_directive c")
      case notLimited
      with b n(1) s(6) div_le_mono [of "e_ip s" "inputSize c" 255] show ?thesis by (simp add: fits_def)
    qed (use s(6,7) in \<open>simp add: fits_def\<close>)
  qed
  obtain m1 where m1: "LZ4_writeLE16 (e_dst s) (e_op s) (word_of_nat off) = Some m1" "length m1 = C"
    "prefix (out @ token_of L 0 # (mid @ le16 off)) m1"
    using mem_st_prefix [OF s(1), of "le16 off"] n(3) room s(2)
    unfolding op by (auto simp: LZ4_writeLE16_bytes off_def le16_def)
  have "e_ip s + 4 \<le> matchlimit c" using n(1) by linarith
  then obtain mc where mc: "LZ4_count (e_src c) (e_ip s + 4) (e_match s + 4) (matchlimit c) = Some mc"
    "e_ip s + 4 + mc \<le> matchlimit c" "agree (e_src c) (e_ip s + 4) (e_match s + 4) mc"
    "e_ip s + 4 + mc < matchlimit c \<Longrightarrow> e_src c ! (e_ip s + 4 + mc) \<noteq> e_src c ! (e_match s + 4 + mc)"
    using LZ4_count_spec [of "e_match s + 4" "e_ip s + 4" "matchlimit c" "e_src c"] n(1,2) by auto
  have "agree (e_src c) (e_ip s) (e_match s) (4 + mc)"
    using mc(3) s(9) by (simp only: agree_add match_at_def)
  then have agree: "agree (e_src c) (e_ip s) (e_match s) (mc + 4)" by (simp add: add.commute)
  have "g \<le> mc"
  proof (rule ccontr)
    assume "\<not> g \<le> mc"
    with n(5) have "e_ip s + 4 + mc < matchlimit c" "4 + mc < g + 4" by auto
    with mc(4) g(1) show False by (auto simp: agree_def add.assoc)
  qed
  show ?thesis
  proof (cases "e_directive c = limitedOutput \<and>
      e_olimit c < e_op s + 2 + (1 + LASTLITERALS) + (mc + 240) div 255")
    case True
    with m1(1) mc(1) show ?thesis by (simp add: encode_match_def off_def)
  next
    case False
    have room2: "e_op s + 2 + 4 + (mc + 240) div 255 \<le> C + 1"
    proof (cases "e_directive c")
      case notLimited
      have "e_ip s div 255 + mc div 255 \<le> inputSize c div 255"
        using div255_add [of "e_ip s" mc] mc(2) div_le_mono [of "e_ip s + mc" "inputSize c" 255] by linarith
      moreover have "inputSize c + inputSize c div 255 + 16 \<le> C"
        using s(6) notLimited by (simp add: fits_def)
      ultimately show ?thesis
        using bound [OF notLimited] run_len [of mc] mc(2) n(6) by linarith
    qed (use False s(6) in \<open>simp add: fits_def\<close>)
    obtain m2 where m2: "put_match_length m1 (length out) (e_op s + 2) mc = Some (m2, e_op s + 2 + (mc + 240) div 255)"
      "length m2 = C" "prefix (out @ (token_of L 0 + word_of_nat (min 15 mc)) # (mid @ le16 off) @ run_ext mc) m2"
      using put_match_length_spec [OF m1(3), of "e_op s + 2" mc] op room2 m1(2) by (auto simp: le16_def)
    let ?out = "out @ seq_bytes (bytes_at (e_src c) (e_anchor s) L) off mc"
    let ?s = "s\<lparr>e_ip := e_ip s + mc + 4, e_anchor := e_ip s + mc + 4, e_op := e_op s + 2 + (mc + 240) div 255, e_dst := m2\<rparr>"
    have "encode_match c s = Some (Some ?s)"
      using m1(1) mc(1) m2(1) s(3) False by (simp add: encode_match_def off_def Let_def)
    moreover have tok: "token_of L 0 + word_of_nat (min 15 mc) = token_of L mc"
      by (simp add: token_of_def)
    have len: "length (bytes_at (e_src c) (e_anchor s) L) = L" using n(1,4) by simp
    have pre: "prefix ?out m2"
      using m2(3) unfolding tok seq_bytes_def mid_def len by simp
    have lout: "length ?out = e_op s + 2 + (mc + 240) div 255"
      using s(4) unfolding seq_bytes_def len length_append length_Cons length_run_ext le16_def by simp
    have "emitted (e_src c) ?out (e_ip s + mc + 4)"
      using emitted_seq [OF s(5,8) agree n(2,3,1)] mc(2) n(4,6) by (simp add: off_def L_def)
    moreover have "fits c C (e_ip s + mc + 4) (length ?out)"
    proof (cases "e_directive c")
      case notLimited
      have "(mc + 240) div 255 \<le> mc" by linarith
      moreover have "e_ip s div 255 \<le> (e_ip s + mc + 4) div 255" by (rule div_le_mono) simp
      ultimately show ?thesis
        using bound [OF notLimited] s(6) notLimited unfolding lout by (simp add: fits_def)
    qed (use s(6) in \<open>simp add: fits_def\<close>)
    ultimately have "at_last c C ?s ?out"
      using pre m2(2) lout by (simp add: at_last_def)
    moreover have "table_below (e_table s) (e_ip s + mc + 4)"
      by (rule table_below_mono [OF g(3)]) (use \<open>g \<le> mc\<close> in simp)
    ultimately show ?thesis
      using \<open>encode_match c s = Some (Some ?s)\<close> False s(8) lout by (auto intro!: exI [of _ ?out])
  qed
qed

lemma test_next_ok:
  assumes job: "job_ok c" and at: "at_last c C s out" and ip: "e_anchor s = e_ip s" "1 < e_ip s"
    and table: "table_below (e_table s) (e_ip s)"
    and room: "e_directive c = limitedOutput \<Longrightarrow> length out + 6 \<le> e_olimit c"
  shows "\<exists>step. test_next c s = Some step \<and> enc_ok c C step \<and> rank c step \<le> 2 * (inputSize c + 1 - e_ip s) + 1"
proof (cases "mflimitPlusOne c \<le> e_ip s")
  case True
  with at show ?thesis by (auto simp: test_next_def enc_ok_def rank_def)
next
  case False
  have n: "e_ip s + 12 \<le> inputSize c" using False job by (auto simp: job_ok_def)
  have s: "prefix out (e_dst s)" "length (e_dst s) = C" "e_op s = length out" "emitted (e_src c) out (e_ip s)"
    "fits c C (e_ip s) (length out)"
    using at ip(1) by (auto simp: at_last_def)
  have hash: "\<exists>h < table_size (e_type c). LZ4_hashPosition (e_src c) p (e_type c) = Some h"
    if "p \<le> e_ip s + 1" for p
    using that n by (intro LZ4_hashPosition_spec) simp
  obtain h1 where h1: "LZ4_hashPosition (e_src c) (e_ip s - 2) (e_type c) = Some h1" "h1 < table_size (e_type c)"
    using hash [of "e_ip s - 2"] le_SucI [OF diff_le_self] by fastforce
  obtain t1 where t1: "LZ4_putIndexOnHash (e_ip s - 2) h1 (e_table s) (e_type c) = Some t1" "table_below t1 (e_ip s)"
    using put_below [OF h1(2) table, of "e_ip s - 2"] ip(2) by auto
  obtain h2 where h2: "LZ4_hashPosition (e_src c) (e_ip s) (e_type c) = Some h2" "h2 < table_size (e_type c)"
    using hash [of "e_ip s"] by auto
  obtain i where i: "LZ4_getIndexOnHash h2 t1 (e_type c) = Some i" "i < e_ip s"
    using get_below [OF h2(2) t1(2)] by blast
  obtain t2 where t2: "LZ4_putIndexOnHash (e_ip s) h2 t1 (e_type c) = Some t2" "table_below t2 (e_ip s + 1)"
    using put_below [OF h2(2) table_below_mono [OF t1(2)], of "e_ip s + 1" "e_ip s"] by auto
  obtain h3 where h3: "LZ4_hashPosition (e_src c) (e_ip s + 1) (e_type c) = Some h3" "h3 < table_size (e_type c)"
    using hash [of "e_ip s + 1"] by auto
  define found where "found \<longleftrightarrow> (e_type c = byU16 \<or> e_ip s \<le> i + LZ4_DISTANCE_MAX) \<and> agree (e_src c) (e_ip s) i 4"
  have found: "(if e_type c = byU16 \<or> e_ip s \<le> i + LZ4_DISTANCE_MAX then
        do {
          a \<leftarrow> LZ4_read32 (e_src c) i;
          b \<leftarrow> LZ4_read32 (e_src c) (e_ip s);
          Some (a = b) }
      else Some False) = Some found"
    using n i(2) words_agree(2) [of i "e_src c" "e_ip s"] by (auto simp: found_def agree_sym)
  show ?thesis
  proof (cases found)
    case True
    have "length out + 1 \<le> C"
    proof (cases "e_directive c")
      case notLimited
      with s(5) n div_le_mono [of "e_ip s" "inputSize c" 255] show ?thesis by (simp add: fits_def)
    qed (use room s(5) in \<open>simp add: fits_def\<close>)
    then obtain m where m: "mem_st (e_dst s) (int (e_op s)) [0] = Some m" "length m = C" "prefix (out @ [0]) m"
      using mem_st_prefix [OF s(1), of "[0]"] s(2,3) by auto
    let ?s = "s\<lparr>e_match := i, e_token := e_op s, e_op := e_op s + 1, e_dst := m, e_table := t2\<rparr>"
    have "test_next c s = Some (NextMatch ?s)"
      using False h1(1) t1(1) h2(1) i(1) t2(1) m(1) True found by (simp add: test_next_def split del: if_split)
    moreover have "token_of 0 0 = 0" by (simp add: token_of_def)
    moreover have "matched c ?s"
      using True i(2) n False job t2(2) ip(1)
      by (auto simp: matched_def match_at_def found_def job_ok_def intro!: exI [of _ 0])
    ultimately show ?thesis
      using m(2,3) s(3-5) room ip(1)
      by (auto simp: enc_ok_def at_next_def run_ext_def rank_def intro!: exI [of _ out])
  next
    case no: False
    have "test_next c s = Some (FindMatch (s\<lparr>e_ip := e_ip s + 1, e_forwardH := h3, e_table := t2\<rparr>))"
      using False h1(1) t1(1) h2(1) i(1) t2(1) h3(1) no found by (simp add: test_next_def split del: if_split)
    with at ip(1) t2(2) h3(2) show ?thesis
      by (auto simp: enc_ok_def at_find_def at_last_def rank_def intro!: exI [of _ out])
  qed
qed

lemma enc_next_ok:
  assumes job: "job_ok c" and at: "at_next c C s out"
  shows "\<exists>step. enc_next c s = Some step \<and> enc_ok c C step \<and> rank c step < rank c (NextMatch s)"
proof -
  obtain r where r: "encode_match c s = Some r"
    "case r of
       None \<Rightarrow> e_directive c = limitedOutput
     | Some s' \<Rightarrow> \<exists>out'. at_last c C s' out' \<and> e_anchor s' = e_ip s' \<and> e_anchor s < e_ip s' \<and>
         1 < e_ip s' \<and> table_below (e_table s') (e_ip s') \<and>
         (e_directive c = limitedOutput \<longrightarrow> length out' + 6 \<le> e_olimit c)"
    using encode_match_ok [OF job at] by blast
  show ?thesis
  proof (cases r)
    case None
    have "e_anchor s \<le> inputSize c" using at by (simp add: at_next_def Let_def emitted_def)
    with None r show ?thesis by (simp add: enc_next_def enc_ok_def rank_def)
  next
    case (Some s')
    with r(2) obtain out' where o: "at_last c C s' out'" "e_anchor s' = e_ip s'" "e_anchor s < e_ip s'"
      "1 < e_ip s'" "table_below (e_table s') (e_ip s')"
      "e_directive c = limitedOutput \<Longrightarrow> length out' + 6 \<le> e_olimit c" by auto
    obtain step where step: "test_next c s' = Some step" "enc_ok c C step"
      "rank c step \<le> 2 * (inputSize c + 1 - e_ip s') + 1"
      using test_next_ok [OF job o(1,2,4,5)] o(6) by blast
    have "e_ip s' \<le> inputSize c" using o(1,2) by (simp add: at_last_def emitted_def)
    with step o(3) have "rank c step < rank c (NextMatch s)"
      unfolding rank_def [of c "NextMatch s"] enc_step.case by linarith
    with r(1) Some step show ?thesis by (simp add: enc_next_def)
  qed
qed

section \<open>The whole block\<close>

text \<open>The result: 0 where the limit was too small, else the size of a block that stands for the source.\<close>

definition enc_final :: "lz4_job \<Rightarrow> nat \<Rightarrow> int \<times> bytes \<Rightarrow> bool" where
  "enc_final c C res \<longleftrightarrow>
     (case res of (r, m) \<Rightarrow> length m = C \<and>
        (r = 0 \<and> e_directive c = limitedOutput \<or>
         0 < r \<and> nat r \<le> C \<and>
         nat r \<le> (case e_directive c of notLimited \<Rightarrow> inputSize c + inputSize c div 255 + 16
                    | limitedOutput \<Rightarrow> e_olimit c) \<and>
         lz4_decode (take (nat r) m) [] = Some (e_src c) \<and>
         lz4_strict (inputSize c) (take (nat r) m) 0 \<and> lz4_distances (take (nat r) m)))"

lemma last_literals_ok:
  assumes at: "at_last c C s out"
  shows "\<exists>res. last_literals c s = Some res \<and> enc_final c C res"
proof -
  define R where "R = inputSize c - e_anchor s"
  define d where "d = length out + 1 + (R + 240) div 255"
  have s: "prefix out (e_dst s)" "length (e_dst s) = C" "e_op s = length out" "emitted (e_src c) out (e_anchor s)"
    "fits c C (e_anchor s) (length out)"
    using at by (auto simp: at_last_def)
  have n: "e_anchor s + R = inputSize c" using s(4) by (simp add: emitted_def R_def)
  have lits: "drop (e_anchor s) (e_src c) = bytes_at (e_src c) (e_anchor s) R" "length (drop (e_anchor s) (e_src c)) = R"
    using n by (simp_all add: R_def)
  show ?thesis
  proof (cases "e_directive c = limitedOutput \<and> e_olimit c < length out + R + 1 + (R + 255 - RUN_MASK) div 255")
    case True
    with s(2,3) show ?thesis unfolding last_literals_def Let_def R_def by (simp add: enc_final_def)
  next
    case False
    define bound where "bound = (case e_directive c of notLimited \<Rightarrow> inputSize c + inputSize c div 255 + 16
        | limitedOutput \<Rightarrow> e_olimit c)"
    have room: "d + R \<le> bound" "bound \<le> C"
    proof -
      have "d + R \<le> bound \<and> bound \<le> C"
      proof (cases "e_directive c")
        case notLimited
        with s(5) n run_len [of R] div255_add [of "e_anchor s" R] show ?thesis
          by (simp add: fits_def d_def bound_def)
      qed (use False s(5) in \<open>simp add: fits_def d_def bound_def\<close>)
      then show "d + R \<le> bound" "bound \<le> C" by simp_all
    qed
    obtain m1 where m1: "(if 15 \<le> R then
          do { m \<leftarrow> mem_st (e_dst s) (int (length out)) [word_of_nat (15 * 16)]; put_run m (length out + 1) (R - 15) }
        else do { m \<leftarrow> mem_st (e_dst s) (int (length out)) [word_of_nat (R * 16)]; Some (m, length out + 1) }) =
        Some (m1, d)" "length m1 = C" "prefix (out @ token_of R 0 # run_ext R) m1"
      using mem_put_run_spec [OF s(1), of R] s(2) room by (auto simp: d_def)
    have d: "d = length (out @ token_of R 0 # run_ext R)" by (simp add: d_def length_run_ext)
    obtain m2 where m2: "copy_lit (e_src c) m1 d (int (e_anchor s)) R = Some m2"
      "lit_rep m1 d (e_src c) (e_anchor s) (d + R) m2"
      using copy_lit_direct [of "e_anchor s" R "e_src c" d m1] n room m1(2) by auto
    let ?blk = "out @ last_bytes (drop (e_anchor s) (e_src c))"
    have "take (d + R) m2 = (out @ token_of R 0 # run_ext R) @ bytes_at (e_src c) (e_anchor s) R"
      using lit_rep_take [of m1 "out @ token_of R 0 # run_ext R" "e_src c" "e_anchor s" "d + R" m2 R] m2(2)
        room m1(2) n prefix_take [OF m1(3)] unfolding d by simp
    then have blk: "take (d + R) m2 = ?blk"
      by (simp only: last_bytes_def lits(2) flip: lits(1)) simp
    have "last_literals c s = Some (int (d + R), m2)"
      unfolding last_literals_def Let_def R_def [symmetric] s(3) if_not_P [OF False] m1(1)
      by (simp add: m2(1))
    moreover have "enc_final c C (int (d + R), m2)"
    proof -
      have "0 < d" "nat (int (d + R)) = d + R" by (simp_all only: d_def nat_int)
      with emitted_last [OF s(4)] blk room filled_length [OF m2(2)] m1(2) show ?thesis
        unfolding enc_final_def prod.case by (simp only: bound_def) simp
    qed
    ultimately show ?thesis by blast
  qed
qed

lemma enc_loop_ok:
  assumes "job_ok c" "enc_ok c C step" "length m = C"
  shows "\<exists>res. enc_loop c m step = Some res \<and> enc_final c C res"
  using assms(2,3)
proof (induction "rank c step" arbitrary: step m rule: less_induct)
  case less
  show ?case
  proof (cases step)
    case ReturnZero
    with less.prems show ?thesis by (subst enc_loop.simps) (simp add: enc_ok_def enc_final_def)
  next
    case (LastLiterals s)
    with less.prems last_literals_ok show ?thesis by (subst enc_loop.simps) (auto simp: enc_ok_def)
  next
    case (FindMatch s)
    with less.prems obtain out where at: "at_find c C s out" by (auto simp: enc_ok_def)
    from enc_find_ok [OF assms(1) at] obtain step' where step': "enc_find c s = Some step'" "enc_ok c C step'"
      "rank c step' < rank c (FindMatch s)" by blast
    have "length (e_dst s) = C" using at by (simp add: at_find_def at_last_def)
    with less.hyps [of step' "e_dst s"] step' FindMatch show ?thesis by (subst enc_loop.simps) simp
  next
    case (NextMatch s)
    with less.prems obtain out where at: "at_next c C s out" by (auto simp: enc_ok_def)
    from enc_next_ok [OF assms(1) at] obtain step' where step': "enc_next c s = Some step'" "enc_ok c C step'"
      "rank c step' < rank c (NextMatch s)" by blast
    have "length (e_dst s) = C" using at by (simp add: at_next_def Let_def)
    with less.hyps [of step' "e_dst s"] step' NextMatch show ?thesis by (subst enc_loop.simps) simp
  qed
qed

lemma compress_validated_ok:
  assumes "1 \<le> e_accel c" "e_type c = byU16 \<Longrightarrow> inputSize c < 65547" "fits c (length dst) 0 0"
  shows "\<exists>res. LZ4_compress_generic_validated c dst = Some res \<and> enc_final c (length dst) res"
proof -
  define s where "s = \<lparr>e_ip = 0, e_match = 0, e_anchor = 0, e_op = 0, e_token = 0, e_dst = dst,
    e_table = (\<lambda>_. 0), e_forwardH = 0\<rparr>"
  have last: "at_last c (length dst) s []"
    using assms(3) by (simp add: at_last_def s_def emitted_Nil)
  show ?thesis
  proof (cases "inputSize c < LZ4_minLength")
    case True
    with last_literals_ok [OF last] show ?thesis
      by (simp add: LZ4_compress_generic_validated_def Let_def flip: s_def)
  next
    case False
    then have job: "job_ok c" using assms(1,2) by (simp add: job_ok_def)
    obtain h where h: "LZ4_hashPosition (e_src c) 0 (e_type c) = Some h" "h < table_size (e_type c)"
      using LZ4_hashPosition_spec [of 0 "e_src c" "e_type c"] False by auto
    obtain h' where h': "LZ4_hashPosition (e_src c) 1 (e_type c) = Some h'" "h' < table_size (e_type c)"
      using LZ4_hashPosition_spec [of 1 "e_src c" "e_type c"] False by auto
    obtain t where t: "LZ4_putIndexOnHash 0 h (e_table s) (e_type c) = Some t" "table_below t 1"
      using put_below [OF h(2), of "e_table s" 1 0] by (auto simp: table_below_def s_def)
    let ?s = "s\<lparr>e_ip := 1, e_table := t, e_forwardH := h'\<rparr>"
    have "at_find c (length dst) ?s []"
      using last t(2) h'(2) by (simp add: at_find_def at_last_def) (simp add: s_def)
    then have "enc_ok c (length dst) (FindMatch ?s)" by (auto simp: enc_ok_def)
    with enc_loop_ok [OF job] obtain res where "enc_loop c dst (FindMatch ?s) = Some res" "enc_final c (length dst) res"
      by blast
    with False h(1) h'(1) t(1) show ?thesis
      by (simp add: LZ4_compress_generic_validated_def Let_def flip: s_def)
  qed
qed

section \<open>The entry points\<close>

text \<open>A block that stands for \<open>source\<close>, and the size promised for it.\<close>

definition is_block :: "bytes \<Rightarrow> bytes \<Rightarrow> bool" where
  "is_block source blk \<longleftrightarrow> lz4_decode blk [] = Some source \<and> lz4_strict (length source) blk 0 \<and>
     lz4_distances blk \<and> (source = [] \<longrightarrow> blk = [0])"

lemma lz4_strict_0: "is_block [] [0]"
  by (simp add: is_block_def lz4_decode.simps lz4_strict.simps lz4_distances.simps(2) varlen_def lit_nibble_def)

lemma LZ4_compress_generic_ok:
  assumes "int (length source) \<le> LZ4_MAX_INPUT_SIZE" "1 \<le> accel" "tt = byU16 \<Longrightarrow> length source < 65547"
    and "dir = notLimited \<Longrightarrow> LZ4_compressBound (int (length source)) \<le> int (length dst)"
    and "dir = limitedOutput \<Longrightarrow> nat cap \<le> length dst"
  shows "\<exists>r dst'. LZ4_compress_generic source dst (int (length source)) cap dir tt accel = Some (r, dst') \<and>
    length dst' = length dst \<and>
    (r = 0 \<and> dir = limitedOutput \<or>
     0 < r \<and> r \<le> int (length dst) \<and> (dir = limitedOutput \<longrightarrow> r \<le> cap) \<and>
     (dir = notLimited \<longrightarrow> r \<le> LZ4_compressBound (int (length source))) \<and>
     is_block source (take (nat r) dst'))"
proof (cases "source = []")
  case True
  have bound: "LZ4_compressBound 0 = 16" by (simp add: LZ4_compressBound_def)
  show ?thesis
  proof (cases "dir \<noteq> notLimited \<and> cap \<le> 0")
    case True
    then have "dir = limitedOutput" by (cases dir) auto
    with \<open>source = []\<close> True show ?thesis by (simp add: LZ4_compress_generic_def)
  next
    case False
    have "1 \<le> length dst \<and> (dir = limitedOutput \<longrightarrow> 1 \<le> cap)"
      using False assms(4,5) \<open>source = []\<close> bound by (cases dir) auto
    with False \<open>source = []\<close> bound lz4_strict_0 show ?thesis
      by (auto simp: LZ4_compress_generic_def mem_st_def)
  qed
next
  case False
  let ?c = "\<lparr>e_src = source, e_directive = dir, e_olimit = nat cap, e_type = tt, e_accel = accel\<rparr>"
  have bound: "LZ4_compressBound (int (length source)) = int (length source + length source div 255 + 16)"
    using assms(1) by (simp add: LZ4_compressBound_def zdiv_int)
  have "fits ?c (length dst) 0 0"
    using assms(4,5) bound by (cases dir) (auto simp: fits_def)
  then obtain res where res: "LZ4_compress_generic_validated ?c dst = Some res" "enc_final ?c (length dst) res"
    using compress_validated_ok [of ?c dst] assms(2,3) by auto
  obtain r dst' where rd: "res = (r, dst')" by fastforce
  have call: "LZ4_compress_generic source dst (int (length source)) cap dir tt accel = Some (r, dst')"
    using res(1) rd False assms(1) by (simp add: LZ4_compress_generic_def)
  show ?thesis
    using call res(2) rd False bound
    by (cases dir) (auto simp: enc_final_def is_block_def)
qed

text \<open>\<open>srcSize\<close> is the size of the source; \<open>dstCapacity\<close> is any \<open>int\<close>.\<close>

lemma LZ4_compress_default_ok:
  assumes "int (length source) \<le> LZ4_MAX_INPUT_SIZE" "nat cap \<le> length dst"
  shows "\<exists>r dst'. LZ4_compress_default source dst (int (length source)) cap = Some (r, dst') \<and>
    length dst' = length dst \<and>
    (r = 0 \<and> cap < LZ4_compressBound (int (length source)) \<or>
     0 < r \<and> r \<le> cap \<and> is_block source (take (nat r) dst')) \<and>
    (0 < r \<and> LZ4_compressBound (int (length source)) \<le> cap \<longrightarrow> r \<le> LZ4_compressBound (int (length source)))"
proof -
  let ?tt = "if int (length source) < LZ4_64Klimit then byU16 else byU32"
  have call: "LZ4_compress_default source dst (int (length source)) cap =
      (if LZ4_compressBound (int (length source)) \<le> cap
       then LZ4_compress_generic source dst (int (length source)) 0 notLimited ?tt 1
       else LZ4_compress_generic source dst (int (length source)) cap limitedOutput ?tt 1)"
    by (simp add: LZ4_compress_default_def LZ4_compress_fast_def LZ4_compress_fast_extState_def)
  have tt: "?tt = byU16 \<Longrightarrow> length source < 65547" by (simp split: if_splits)
  show ?thesis
  proof (cases "LZ4_compressBound (int (length source)) \<le> cap")
    case True
    with LZ4_compress_generic_ok [OF assms(1), of 1 ?tt notLimited dst 0] tt assms(2)
    show ?thesis unfolding call by fastforce
  next
    case False
    with LZ4_compress_generic_ok [OF assms(1), of 1 ?tt limitedOutput dst cap] tt assms(2)
    show ?thesis unfolding call by fastforce
  qed
qed

text \<open>Sizes the codec refuses.\<close>

lemma LZ4_compress_default_refuses:
  assumes "srcSize < 0 \<or> LZ4_MAX_INPUT_SIZE < srcSize"
  shows "LZ4_compress_default source dst srcSize cap = Some (0, dst)"
  using assms
  by (auto simp: LZ4_compress_default_def LZ4_compress_fast_def LZ4_compress_fast_extState_def LZ4_compress_generic_def)

text \<open>Decompressing a block that stands for \<open>source\<close>.\<close>

lemma LZ4_decompress_block:
  assumes "is_block source blk" "length source \<le> cap" "cap \<le> length dst"
    "src_at + length blk < 2 ^ 64" "dst_at + cap < 2 ^ 64"
  shows "\<exists>dst'. LZ4_decompress_safe blk src_at dst dst_at (int cap) = Some (int (length source), dst') \<and>
    take (length source) dst' = source \<and> length dst' = length dst"
proof -
  obtain n dst' where res: "LZ4_decompress_safe blk src_at dst dst_at (int cap) = Some (n, dst')"
    "length dst' = length dst"
    and sound: "0 \<le> n \<Longrightarrow> n \<le> int cap \<and> lz4_decode blk [] = Some (take (nat n) dst')"
    and compl: "n < 0 \<Longrightarrow> \<forall>tot \<le> cap. 0 < tot \<or> blk = [0] \<longrightarrow> \<not> lz4_strict tot blk 0"
    using LZ4_decompress_safe_ok [OF assms(3-5)] by auto
  have "0 \<le> n"
    using compl assms(1,2) by (cases "source = []") (force simp: is_block_def)+
  with sound assms(1) have n: "n \<le> int cap" "source = take (nat n) dst'" by (simp_all add: is_block_def)
  then have "length source = nat n" using res(2) assms(3) by simp
  with n res \<open>0 \<le> n\<close> show ?thesis by auto
qed

section \<open>Properties\<close>

text \<open>
  C14. \<open>LZ4_compress_default\<close> on any source it accepts, with any capacity the buffer has: it
  returns, every access stays in its buffer and in the hash table (the result is never
  \<open>None\<close>), and it returns 0 or a size within the capacity; in the second case that many bytes
  of the buffer are a block that the format decodes to the source and that obeys the
  end-of-block rules.
\<close>

theorem lz4_compress_default_correct:
  assumes "int (length source) \<le> 0x7E000000" "nat cap \<le> length dst"
  shows "\<exists>r dst'. LZ4_compress_default source dst (int (length source)) cap = Some (r, dst') \<and>
    length dst' = length dst \<and>
    (r = 0 \<or> 0 < r \<and> r \<le> cap \<and> lz4_decode (take (nat r) dst') [] = Some source \<and>
       lz4_strict (length source) (take (nat r) dst') 0)"
  using LZ4_compress_default_ok [OF assms] by (auto simp: is_block_def)

theorem lz4_compress_default_correct_witness:
  "\<exists>r dst'. LZ4_compress_default [7, 7, 7] (replicate 6 0) 3 6 = Some (r, dst') \<and> length dst' = 6 \<and>
    (r = 0 \<or> 0 < r \<and> r \<le> 6 \<and> lz4_decode (take (nat r) dst') [] = Some [7, 7, 7] \<and>
       lz4_strict 3 (take (nat r) dst') 0)"
  using lz4_compress_default_correct [of "[7, 7, 7]" 6 "replicate 6 0"] by (simp add: eval_nat_numeral)

text \<open>
  C22. With the capacity that \<open>LZ4_compressBound\<close> gives, compression never fails, and the block
  is not larger than the bound.
\<close>

theorem lz4_compress_bound_suffices:
  assumes "int (length source) \<le> 0x7E000000" "LZ4_compressBound (int (length source)) \<le> cap" "nat cap \<le> length dst"
  shows "\<exists>r dst'. LZ4_compress_default source dst (int (length source)) cap = Some (r, dst') \<and>
    0 < r \<and> r \<le> LZ4_compressBound (int (length source))"
  using LZ4_compress_default_ok [OF assms(1,3)] assms(2) by fastforce

theorem lz4_compress_bound_suffices_witness:
  "\<exists>r dst'. LZ4_compress_default [7, 7, 7] (replicate 19 0) 3 19 = Some (r, dst') \<and> 0 < r \<and>
    r \<le> LZ4_compressBound 3"
  using lz4_compress_bound_suffices [of "[7, 7, 7]" 19 "replicate 19 0"] by (simp add: LZ4_compressBound_def)

text \<open>
  C6. What \<open>LZ4_compress_default\<close> wrote, \<open>LZ4_decompress_safe\<close> turns back into the source, in
  any buffer large enough for it.
\<close>

theorem lz4_round_trip:
  assumes "LZ4_compress_default source dst (int (length source)) cap = Some (r, dst1)" "0 < r"
    and "int (length source) \<le> 0x7E000000" "nat cap \<le> length dst"
    and "length source \<le> cap2" "cap2 \<le> length dst2" "src_at + nat r < 2 ^ 64" "dst_at + cap2 < 2 ^ 64"
  shows "\<exists>dst3. LZ4_decompress_safe (take (nat r) dst1) src_at dst2 dst_at (int cap2) =
      Some (int (length source), dst3) \<and> take (length source) dst3 = source"
proof -
  from LZ4_compress_default_ok [OF assms(3,4)] assms(1,2)
  have r: "is_block source (take (nat r) dst1)" "length dst1 = length dst" by auto
  have "src_at + length (take (nat r) dst1) < 2 ^ 64" using assms(7) by simp
  from LZ4_decompress_block [OF r(1) assms(5,6) this assms(8)] show ?thesis by blast
qed

theorem lz4_round_trip_witness:
  "\<exists>r dst1 dst3. LZ4_compress_default [7, 8, 9] (replicate 19 0) 3 19 = Some (r, dst1) \<and>
    LZ4_decompress_safe (take (nat r) dst1) 4096 (replicate 8 0) 8192 8 = Some (3, dst3) \<and>
    take 3 dst3 = [7, 8, 9]"
proof -
  obtain r dst1 where r: "LZ4_compress_default [7, 8, 9] (replicate 19 0) 3 19 = Some (r, dst1)"
    "0 < r" "r \<le> 19"
    using LZ4_compress_default_ok [of "[7, 8, 9]" 19 "replicate 19 0"] by (auto simp: LZ4_compressBound_def)
  have "\<exists>dst3. LZ4_decompress_safe (take (nat r) dst1) 4096 (replicate 8 0) 8192 (int 8) =
      Some (int (length [7, 8, 9 :: u8]), dst3) \<and> take (length [7, 8, 9 :: u8]) dst3 = [7, 8, 9]"
    by (rule lz4_round_trip [where dst = "replicate 19 0" and cap = 19]) (use r in simp_all)
  with r(1) show ?thesis by (auto simp: eval_nat_numeral)
qed

text \<open>
  C23. \<open>LZ4_count\<close>, which compares eight, four, two and one bytes at a time and finds the first
  difference in a word by its trailing zeros, computes the length of the longest common run that
  ends at the limit, as a comparison byte by byte would.
\<close>

theorem lz4_count_longest_run:
  assumes "pMatch \<le> pIn" "pIn \<le> limit" "limit \<le> length source"
  shows "\<exists>n. LZ4_count source pIn pMatch limit = Some n \<and> pIn + n \<le> limit \<and>
    (\<forall>j. if j < n then source ! (pIn + j) = source ! (pMatch + j)
         else if j = n \<and> pIn + n < limit then source ! (pIn + j) \<noteq> source ! (pMatch + j) else True)"
  using LZ4_count_spec [OF assms] by (auto simp: agree_def)

theorem lz4_count_longest_run_witness:
  "\<exists>n. LZ4_count [1, 2, 3, 1, 2, 4] 3 0 6 = Some n \<and> 3 + n \<le> 6 \<and>
    (\<forall>j. if j < n then [1, 2, 3, 1, 2, 4 :: u8] ! (3 + j) = [1, 2, 3, 1, 2, 4] ! (0 + j)
         else if j = n \<and> 3 + n < 6 then [1, 2, 3, 1, 2, 4 :: u8] ! (3 + j) \<noteq> [1, 2, 3, 1, 2, 4] ! (0 + j) else True)"
  using lz4_count_longest_run [of 0 3 6 "[1, 2, 3, 1, 2, 4]"] by simp

end
