(* ===== verification/File_Transfer.thy ===== *)
theory File_Transfer
  imports Wire Fs Lz4_Enc_Proof
begin

text \<open>
  The file transfers of \<open>lib/isr.c\<close>: \<open>isr_transmit_file_uncompressed\<close>,
  \<open>isr_transmit_file_compressed\<close>, \<open>isr_receive_file_uncompressed\<close> and
  \<open>isr_receive_file_compressed\<close>.

  The checksum is an \<open>int64_t\<close> to which \<open>uint64_t\<close> values are added; it is kept as a 64-bit
  word and read as signed when it is returned. A result \<open>None\<close> is undefined behaviour: a write
  past the end of a heap buffer. What a fresh heap buffer holds is immaterial and taken as zero.
\<close>

section \<open>Sending\<close>

definition ISR_IO_BUFSIZE :: nat where
  "ISR_IO_BUFSIZE = 65536"

text \<open>What is left to read of an open file; a read moves it forward.\<close>

definition unread :: "host \<Rightarrow> fd \<Rightarrow> bytes" where
  "unread h f = (case node_at h (fd_path f) of Some (File bs) \<Rightarrow> drop (fd_pos f) bs | _ \<Rightarrow> [])"

lemma isr_read_cases:
  assumes "isr_read h f n = (r, bs, f', h')" "0 < r"
  obtains content k where "node_at h (fd_path f) = Some (File content)" "bs = take k (drop (fd_pos f) content)"
    "k \<le> n" "r = int (length bs)" "f' = f\<lparr>fd_pos := fd_pos f + length bs\<rparr>" "node_at h' = node_at h"
  using assms
  by (auto simp: isr_read_def Let_def split: option.splits node.splits list.splits io_ev.splits)

lemma isr_read_unread:
  assumes "isr_read h f n = (r, bs, f', h')" "0 < r"
  shows "unread h f = bs @ unread h' f'" "length (unread h' f') < length (unread h f)"
proof -
  obtain content k where c: "node_at h (fd_path f) = Some (File content)" "bs = take k (drop (fd_pos f) content)"
    "r = int (length bs)" "f' = f\<lparr>fd_pos := fd_pos f + length bs\<rparr>" "node_at h' = node_at h"
    by (rule isr_read_cases [OF assms])
  have "unread h' f' = drop (length bs) (drop (fd_pos f) content)"
    using c(1,4,5) by (simp add: unread_def add.commute)
  also have "\<dots> = drop k (drop (fd_pos f) content)"
    unfolding c(2) by (simp add: min_def)
  finally have "bs @ unread h' f' = drop (fd_pos f) content"
    unfolding c(2) by (simp only: append_take_drop_id)
  then show u: "unread h f = bs @ unread h' f'"
    using c(1) by (simp add: unread_def)
  show "length (unread h' f') < length (unread h f)"
    unfolding u using c(3) assms(2) by simp
qed

function tx_uncompressed :: "sock \<Rightarrow> host \<Rightarrow> fd \<Rightarrow> u64 \<Rightarrow> int \<times> sock \<times> host" where
  "tx_uncompressed s h f checksum =
     (case isr_read h f ISR_IO_BUFSIZE of
        (bytes_read, buffer, f', h') \<Rightarrow>
          if 0 < bytes_read then
            (let checksum' = checksum + isr_count_byte_values buffer in
             case net_send_exact s buffer of
               (False, s') \<Rightarrow> (- 1, s', h')
             | (True, s') \<Rightarrow> tx_uncompressed s' h' f' checksum')
          else if bytes_read < 0 then (- 1, s, h')
          else
            (case net_send_exact s (enc_u64 checksum) of
               (False, s') \<Rightarrow> (- 1, s', h')
             | (True, s') \<Rightarrow> (sint checksum, s', h')))"
  by pat_completeness auto
termination
  by (relation "measure (\<lambda>(s, h, f, c). length (unread h f))") (simp, simp, metis isr_read_unread(2))

definition isr_transmit_file_uncompressed :: "sock \<Rightarrow> host \<Rightarrow> fd \<Rightarrow> int \<times> sock \<times> host" where
  "isr_transmit_file_uncompressed s h f = tx_uncompressed s h f 0"

lemma to_int_neg: "2 ^ 31 \<le> n \<Longrightarrow> n < 2 ^ 32 \<Longrightarrow> to_int (int n) < 0"
proof -
  assume n: "2 ^ 31 \<le> n" "n < 2 ^ 32"
  have "to_int (int n) = signed_take_bit 31 (int n)"
    unfolding to_int_def by (simp only: signed_of_int) simp
  also have "\<dots> = take_bit 32 (int n + 2 ^ 31) - 2 ^ 31"
    by (simp add: signed_take_bit_eq_take_bit_shift)
  also have "int n + 2 ^ 31 = (int n - 2 ^ 31) + 2 ^ 32" by simp
  also have "take_bit 32 \<dots> = int n - 2 ^ 31"
    unfolding take_bit_eq_mod mod_add_self2 using n by (intro mod_pos_pos_trivial) simp_all
  finally show ?thesis using n by simp
qed

lemma to_int_nat: "n < 2 ^ 31 \<Longrightarrow> to_int (int n) = int n"
  by (simp add: to_int_small)

text \<open>
  The loop with compression. A failing \<open>read\<close> ends it like the end of the file does: the code
  does not look at the sign of \<open>bytes_read\<close> again.
\<close>

function tx_compressed ::
    "sock \<Rightarrow> host \<Rightarrow> fd \<Rightarrow> u32 \<Rightarrow> int \<Rightarrow> u64 \<Rightarrow> (int \<times> sock \<times> host) option" where
  "tx_compressed s h f block_size max_compressed_size checksum =
     (case isr_read h f (unat block_size) of
        (bytes_read, buffer, f', h') \<Rightarrow>
          if 0 < bytes_read then
            (let checksum' = checksum + isr_count_byte_values buffer in
             case LZ4_compress_default buffer (replicate (nat max_compressed_size) 0)
                    (to_int bytes_read) max_compressed_size of
               None \<Rightarrow> None
             | Some (compressed_size, compressed_buffer) \<Rightarrow>
                 if compressed_size \<le> 0 then Some (- 1, s, h')
                 else
                   (case net_send_exact s (enc_u32 (word_of_int compressed_size)) of
                      (False, s1) \<Rightarrow> Some (- 1, s1, h')
                    | (True, s1) \<Rightarrow>
                        (case net_send_exact s1 (take (nat compressed_size) compressed_buffer) of
                           (False, s2) \<Rightarrow> Some (- 1, s2, h')
                         | (True, s2) \<Rightarrow>
                             tx_compressed s2 h' f' block_size max_compressed_size checksum')))
          else
            (case net_send_exact s (enc_u64 checksum) of
               (False, s') \<Rightarrow> Some (- 1, s', h')
             | (True, s') \<Rightarrow> Some (sint checksum, s', h')))"
  by pat_completeness auto
termination
  by (relation "measure (\<lambda>(s, h, f, b, m, c). length (unread h f))") (simp, simp, metis isr_read_unread(2))

declare tx_uncompressed.simps [simp del] tx_compressed.simps [simp del]

definition isr_transmit_file_compressed ::
    "sock \<Rightarrow> host \<Rightarrow> fd \<Rightarrow> u32 \<Rightarrow> (int \<times> sock \<times> host) option" where
  "isr_transmit_file_compressed s h f block_size =
     (let max_compressed_size = LZ4_compressBound (to_int (int (unat block_size))) in
      case malloc h (unat block_size) of
        None \<Rightarrow> Some (- 1, s, h)
      | Some _ \<Rightarrow>
          (case malloc h (nat max_compressed_size) of
             None \<Rightarrow> Some (- 1, s, h)
           | Some _ \<Rightarrow> tx_compressed s h f block_size max_compressed_size 0))"

section \<open>Receiving\<close>

text \<open>The checksum at the end of both kinds of transfer.\<close>

definition rx_checksum :: "sock \<Rightarrow> u64 \<Rightarrow> int \<times> sock" where
  "rx_checksum s checksum =
     (case net_recv_exact s 8 of
        (None, s') \<Rightarrow> (- 1, s')
      | (Some bs, s') \<Rightarrow> (if dec_u64 bs \<noteq> checksum then - 2 else sint checksum, s'))"

function rx_uncompressed :: "sock \<Rightarrow> host \<Rightarrow> fd \<Rightarrow> nat \<Rightarrow> u64 \<Rightarrow> int \<times> sock \<times> fd \<times> host" where
  "rx_uncompressed s h f remaining checksum =
     (if 0 < remaining then
        (let to_read = (if remaining < ISR_IO_BUFSIZE then remaining else ISR_IO_BUFSIZE) in
         case net_recv_exact s to_read of
           (None, s') \<Rightarrow> (- 1, s', f, h)
         | (Some buffer, s') \<Rightarrow>
             (let checksum' = checksum + isr_count_byte_values buffer in
              case isr_write_all h f buffer of
                (False, f', h') \<Rightarrow> (- 1, s', f', h')
              | (True, f', h') \<Rightarrow> rx_uncompressed s' h' f' (remaining - to_read) checksum'))
      else (case rx_checksum s checksum of (r, s') \<Rightarrow> (r, s', f, h)))"
  by pat_completeness auto
termination
  by (relation "measure (\<lambda>(s, h, f, remaining, c). remaining)") (auto simp: ISR_IO_BUFSIZE_def)

declare rx_uncompressed.simps [simp del]

definition isr_receive_file_uncompressed :: "sock \<Rightarrow> host \<Rightarrow> fd \<Rightarrow> u64 \<Rightarrow> int \<times> sock \<times> fd \<times> host" where
  "isr_receive_file_uncompressed s h f effective_length =
     rx_uncompressed s h f (unat effective_length) 0"

text \<open>
  \<open>net_recv_exact\<close> into a buffer of \<open>capacity\<close> bytes. The code does not compare \<open>len\<close>
  with the capacity; the buffer overflows when more bytes arrive than it holds.
\<close>

definition recv_into :: "sock \<Rightarrow> nat \<Rightarrow> nat \<Rightarrow> (bytes option \<times> sock) option" where
  "recv_into s capacity len =
     (if capacity < len \<and> capacity < length (pending s) then None else Some (net_recv_exact s len))"

lemma recv_twice_consumes:
  assumes "(Some bs, s1) = net_recv_exact s 4" "recv_into s1 c n = Some (Some cs, s2)"
  shows "length (pending s2) < length (pending s)"
  using net_recv_exact_consumes [OF assms(1) [symmetric]] net_recv_exact_consumes [of s1 n cs s2] assms(2)
  by (auto simp: recv_into_def split: if_splits)

text \<open>
  \<open>remaining\<close> is a \<open>uint64_t\<close>, and the subtraction at the end of the loop wraps. \<open>caddr\<close> and
  \<open>daddr\<close> are the addresses of the two heap buffers. Every iteration takes at least four bytes
  off the stream, so the loop ends.
\<close>

function rx_compressed ::
    "sock \<Rightarrow> host \<Rightarrow> fd \<Rightarrow> u32 \<Rightarrow> nat \<Rightarrow> nat \<Rightarrow> nat \<Rightarrow> u64 \<Rightarrow> u64 \<Rightarrow> (int \<times> sock \<times> fd \<times> host) option"
where
  "rx_compressed s h f bsize csize caddr daddr remaining checksum =
     (if remaining \<noteq> 0 then
        (case net_recv_exact s 4 of
           (None, s1) \<Rightarrow> Some (- 1, s1, f, h)
         | (Some bs, s1) \<Rightarrow>
             (case recv_into s1 csize (unat (dec_u32 bs)) of
                None \<Rightarrow> None
              | Some (None, s2) \<Rightarrow> Some (- 1, s2, f, h)
              | Some (Some compressed_buf, s2) \<Rightarrow>
                  (case LZ4_decompress_safe compressed_buf caddr (replicate (unat bsize) 0) daddr
                          (to_int (int (unat bsize))) of
                     None \<Rightarrow> None
                   | Some (decompressed_size, decompress_buf) \<Rightarrow>
                       if decompressed_size \<le> 0 then Some (- 1, s2, f, h)
                       else
                         (let out = take (nat decompressed_size) decompress_buf;
                              checksum' = checksum + isr_count_byte_values out in
                          case isr_write_all h f out of
                            (False, f', h') \<Rightarrow> Some (- 1, s2, f', h')
                          | (True, f', h') \<Rightarrow>
                              rx_compressed s2 h' f' bsize csize caddr daddr
                                (remaining - word_of_int decompressed_size) checksum'))))
      else (case rx_checksum s checksum of (r, s') \<Rightarrow> Some (r, s', f, h)))"
  by pat_completeness auto
termination
  by (relation "measure (\<lambda>(s, h, f, b, m, ca, da, r, k). length (pending s))")
     (simp, simp, metis recv_twice_consumes)

declare rx_compressed.simps [simp del]

definition isr_receive_file_compressed ::
    "sock \<Rightarrow> host \<Rightarrow> fd \<Rightarrow> u32 \<Rightarrow> u64 \<Rightarrow> (int \<times> sock \<times> fd \<times> host) option" where
  "isr_receive_file_compressed s h f block_size effective_length =
     (let max_compressed_size = LZ4_compressBound (to_int (int (unat block_size))) in
      case malloc h (nat max_compressed_size) of
        None \<Rightarrow> Some (- 1, s, f, h)
      | Some compressed_buf \<Rightarrow>
          (case malloc h (unat block_size) of
             None \<Rightarrow> Some (- 1, s, f, h)
           | Some decompress_buf \<Rightarrow>
               rx_compressed s h f block_size (nat max_compressed_size) compressed_buf decompress_buf
                 effective_length 0))"

section \<open>Writing to an open file\<close>

text \<open>The hosts that differ at most in the file at \<open>p\<close> and the write schedule.\<close>

definition same_but :: "fpath \<Rightarrow> host \<Rightarrow> host \<Rightarrow> bool" where
  "same_but p h h' \<longleftrightarrow> (\<forall>q. q \<noteq> p \<longrightarrow> node_at h' q = node_at h q) \<and> cwd h' = cwd h \<and>
     deny h' = deny h \<and> dir_size h' = dir_size h \<and> rd_sched h' = rd_sched h \<and>
     heap_at h' = heap_at h \<and> console h' = console h"

lemma same_but_refl [simp]: "same_but p h h"
  by (simp add: same_but_def)

lemma same_but_trans [trans]: "same_but p h h' \<Longrightarrow> same_but p h' h'' \<Longrightarrow> same_but p h h''"
  by (simp add: same_but_def)

definition wr_live :: "host \<Rightarrow> bool" where
  "wr_live h \<longleftrightarrow> IoErr \<notin> set (wr_sched h) \<and> Part 0 \<notin> set (wr_sched h)"

definition rd_live :: "host \<Rightarrow> bool" where
  "rd_live h \<longleftrightarrow> IoErr \<notin> set (rd_sched h) \<and> Part 0 \<notin> set (rd_sched h)"

text \<open>The open file holds \<open>bs\<close> and stands at its end.\<close>

definition holds :: "host \<Rightarrow> fd \<Rightarrow> bytes \<Rightarrow> bool" where
  "holds h f bs \<longleftrightarrow> node_at h (fd_path f) = Some (File bs) \<and> fd_pos f = length bs"

lemma take_min_length [simp]:
  "take (min k (length xs)) xs = take k xs" "take (min (length xs) k) xs = take k xs"
  by (simp_all add: min_def)

lemma isr_write_cases:
  assumes "isr_write h f data = (w, f', h')" "holds h f bs"
  shows "nat w \<le> length data" "holds h' f' (bs @ take (nat w) data)" "same_but (fd_path f) h h'"
    "fd_path f' = fd_path f" "wr_live h \<Longrightarrow> wr_live h'" "wr_live h \<Longrightarrow> data \<noteq> [] \<Longrightarrow> 0 < w"
  using assms
  by (auto simp: isr_write_def store_at_def holds_def same_but_def wr_live_def
    split: list.splits io_ev.splits)

text \<open>
  The contract of a place that takes bytes: what it held stays, a prefix of the new bytes is
  added, all of them when the operation reports success, which it does while it is live. \<open>rel\<close>
  says what else may change.
\<close>

locale byte_sink =
  fixes put :: "'h \<Rightarrow> 'f \<Rightarrow> bytes \<Rightarrow> bool \<times> 'f \<times> 'h"
    and content :: "'h \<Rightarrow> 'f \<Rightarrow> bytes \<Rightarrow> bool"
    and live :: "'h \<Rightarrow> bool"
    and rel :: "'h \<Rightarrow> 'f \<Rightarrow> 'h \<Rightarrow> 'f \<Rightarrow> bool"
  assumes put_prefix: "content h f bs \<Longrightarrow> put h f data = (b, f', h') \<Longrightarrow>
      \<exists>k \<le> length data. content h' f' (bs @ take k data) \<and> (b \<longrightarrow> k = length data)"
    and put_live: "content h f bs \<Longrightarrow> put h f data = (b, f', h') \<Longrightarrow> live h \<Longrightarrow> b \<and> live h'"
    and put_rel: "content h f bs \<Longrightarrow> put h f data = (b, f', h') \<Longrightarrow> rel h f h' f'"
begin

lemma put_ok:
  assumes "content h f bs" and "live h"
  obtains f' h' where "put h f data = (True, f', h')" "content h' f' (bs @ data)" "live h'" "rel h f h' f'"
proof -
  obtain b f' h' where e: "put h f data = (b, f', h')" using prod_cases3 by blast
  with put_prefix [OF assms(1) e] put_live [OF assms(1) e assms(2)] put_rel [OF assms(1) e] that
  show ?thesis by auto
qed

end

definition file_rel :: "host \<Rightarrow> fd \<Rightarrow> host \<Rightarrow> fd \<Rightarrow> bool" where
  "file_rel h f h' f' \<longleftrightarrow> same_but (fd_path f) h h' \<and> fd_path f' = fd_path f"

lemma file_rel_refl [simp]: "file_rel h f h f"
  by (simp add: file_rel_def)

lemma file_rel_trans: "file_rel h f h' f' \<Longrightarrow> file_rel h' f' h'' f'' \<Longrightarrow> file_rel h f h'' f''"
  by (auto simp: file_rel_def intro: same_but_trans)

lemma isr_write_all_inv:
  assumes "isr_write_all h f data = (b, f', h')" "holds h f bs"
  shows "(\<exists>k \<le> length data. holds h' f' (bs @ take k data) \<and> (b \<longrightarrow> k = length data)) \<and>
    (wr_live h \<longrightarrow> b \<and> wr_live h') \<and> file_rel h f h' f'"
  using assms
proof (induction h f data arbitrary: b f' h' bs rule: isr_write_all.induct)
  case (1 h f data)
  show ?case
  proof (cases "data = []")
    case True
    with "1.prems" show ?thesis by (auto simp: isr_write_all.simps)
  next
    case False
    obtain w f1 h1 where w: "isr_write h f data = (w, f1, h1)" by (metis prod_cases3)
    note step = isr_write_cases [OF w "1.prems"(2)]
    have rel: "file_rel h f h1 f1" using step by (simp add: file_rel_def)
    show ?thesis
    proof (cases "w \<le> 0")
      case True
      with "1.prems"(1) False w have "b = False" "f' = f1" "h' = h1"
        by (auto simp: isr_write_all.simps [of h f data])
      with True step False rel show ?thesis by force
    next
      case pos: False
      with "1.prems"(1) False w have rest: "isr_write_all h1 f1 (drop (nat w) data) = (b, f', h')"
        by (simp add: isr_write_all.simps [of h f data])
      obtain k where k: "k \<le> length data - nat w" "b \<longrightarrow> k = length data - nat w"
        and at: "holds h' f' ((bs @ take (nat w) data) @ take k (drop (nat w) data))"
        and keep: "wr_live h1 \<longrightarrow> b \<and> wr_live h'" "file_rel h1 f1 h' f'"
        using "1.IH" [OF False w [symmetric] refl pos rest step(2)] by auto
      have "holds h' f' (bs @ take (nat w + k) data)"
        using at by (simp add: take_add)
      with k keep step(1,5) file_rel_trans [OF rel keep(2)] show ?thesis
        by (intro conjI exI [of _ "nat w + k"]) auto
    qed
  qed
qed

interpretation disk: byte_sink isr_write_all holds wr_live file_rel
  by unfold_locales (use isr_write_all_inv in blast)+

section \<open>The sender on a live host\<close>

text \<open>What reading leaves of the host: only the read schedule moves.\<close>

definition rd_only :: "host \<Rightarrow> host \<Rightarrow> bool" where
  "rd_only h h' \<longleftrightarrow> h' = h\<lparr>rd_sched := rd_sched h'\<rparr>"

lemma rd_only_refl [simp]: "rd_only h h"
  by (simp add: rd_only_def)

lemma rd_only_sched [simp]: "rd_only h (h\<lparr>rd_sched := es\<rparr>)"
  by (simp add: rd_only_def)

lemma rd_only_node_at: "rd_only h h' \<Longrightarrow> node_at h' = node_at h"
  unfolding rd_only_def by (metis node_at_other(1))

lemma rd_only_trans: "rd_only h h' \<Longrightarrow> rd_only h' h'' \<Longrightarrow> rd_only h h''"
  unfolding rd_only_def by (metis host.update_convs(5) host.surjective)

lemma isr_read_only: "isr_read h f n = (r, bs, f', h') \<Longrightarrow> rd_only h h'"
  by (auto simp: isr_read_def Let_def split: option.splits node.splits list.splits io_ev.splits)

lemma isr_read_live:
  assumes "node_at h (fd_path f) = Some (File content)" "rd_live h" "0 < n"
    and "isr_read h f n = (r, bs, f', h')"
  shows "r = int (length bs) \<and> length bs \<le> n \<and> (bs = [] \<longleftrightarrow> unread h f = []) \<and>
    fd_path f' = fd_path f \<and> rd_live h' \<and> unread h f = bs @ unread h' f'"
proof -
  have r: "r = int (length bs)" "length bs \<le> n" "bs = [] \<longleftrightarrow> unread h f = []"
    "fd_path f' = fd_path f" "rd_live h'"
    using assms by (auto simp: isr_read_def Let_def rd_live_def unread_def
      split: list.splits io_ev.splits)
  have "unread h f = bs @ unread h' f'"
  proof (cases "bs = []")
    case True
    with r(3) assms(1,4) rd_only_node_at [OF isr_read_only [OF assms(4)]] show ?thesis
      by (auto simp: isr_read_def unread_def Let_def split: list.splits io_ev.splits)
  next
    case False
    then have "0 < r" using r(1) by simp
    then show ?thesis by (rule isr_read_unread(1) [OF assms(4)])
  qed
  with r show ?thesis by blast
qed

lemma ISR_IO_BUFSIZE_pos: "0 < ISR_IO_BUFSIZE"
  by (simp add: ISR_IO_BUFSIZE_def)

lemma tx_uncompressed_live:
  assumes "node_at h (fd_path f) = Some (File content)" "rd_live h" "tx_live s"
  shows "\<exists>s' h'. tx_uncompressed s h f c = (sint (c + isr_count_byte_values (unread h f)), s', h') \<and>
    tx s' = tx s @ unread h f @ enc_u64 (c + isr_count_byte_values (unread h f)) \<and>
    pending s' = pending s \<and> sock_ok s' = sock_ok s \<and> tx_live s' \<and> rd_only h h' \<and> rd_live h'"
  using assms
proof (induction s h f c rule: tx_uncompressed.induct)
  case (1 s h f c)
  obtain r bs f1 h1 where e: "isr_read h f ISR_IO_BUFSIZE = (r, bs, f1, h1)" by (metis prod_cases4)
  note only = isr_read_only [OF e]
  note nodes = rd_only_node_at [OF only]
  have r: "r = int (length bs)" "bs = [] \<longleftrightarrow> unread h f = []" "fd_path f1 = fd_path f" "rd_live h1"
    "unread h f = bs @ unread h1 f1"
    using isr_read_live [OF "1.prems"(1,2) ISR_IO_BUFSIZE_pos e] by blast+
  show ?case
  proof (cases "bs = []")
    case True
    obtain s1 where "net_send_exact s (enc_u64 c) = (True, s1)" "tx s1 = tx s @ enc_u64 c"
      "pending s1 = pending s" "sock_ok s1 = sock_ok s" "tx_live s1"
      using tcp.send_live [OF "1.prems"(3)] .
    with True e r(1,2,4) only show ?thesis by (simp add: tx_uncompressed.simps [of s h f c])
  next
    case False
    obtain s1 where s1: "net_send_exact s bs = (True, s1)" "tx s1 = tx s @ bs"
      "pending s1 = pending s" "sock_ok s1 = sock_ok s" "tx_live s1"
      using tcp.send_live [OF "1.prems"(3)] .
    have pos: "0 < r" using False r(1) by simp
    have "node_at h1 (fd_path f1) = Some (File content)" using nodes r(3) "1.prems"(1) by simp
    from "1.IH" [OF e [symmetric] refl refl pos refl s1(1) [symmetric] refl this r(4) s1(5)]
    obtain s' h' where rest: "tx_uncompressed s1 h1 f1 (c + isr_count_byte_values bs) =
        (sint (c + isr_count_byte_values bs + isr_count_byte_values (unread h1 f1)), s', h')"
      "tx s' = tx s1 @ unread h1 f1 @ enc_u64 (c + isr_count_byte_values bs + isr_count_byte_values (unread h1 f1))"
      "pending s' = pending s1" "sock_ok s' = sock_ok s1" "tx_live s'" "rd_only h1 h'" "rd_live h'"
      by blast
    have "tx_uncompressed s h f c = tx_uncompressed s1 h1 f1 (c + isr_count_byte_values bs)"
      using pos e s1(1) by (simp add: tx_uncompressed.simps [of s h f c])
    then show ?thesis
      unfolding r(5) using s1 rest rd_only_trans [OF only rest(6)] by (simp add: add.assoc)
  qed
qed

section \<open>The receiver without compression\<close>

lemma rx_checksum_ok:
  assumes "sock_ok s" "pending s = enc_u64 w @ rest"
  shows "\<exists>s'. rx_checksum s c = (if w = c then sint c else - 2, s') \<and> pending s' = rest \<and> sock_ok s' \<and>
    tx s' = tx s \<and> tx_live s' = tx_live s"
proof -
  obtain s' where "net_recv_exact s 8 = (Some (enc_u64 w), s')" "pending s' = rest" "sock_ok s'"
    "tx s' = tx s" "tx_live s' = tx_live s"
    using tcp_u64.recv_frame [OF assms TrueI] by metis
  then show ?thesis by (simp add: rx_checksum_def)
qed

lemma rx_checksum_result:
  assumes "rx_checksum s c = (r, s')" "r \<noteq> - 1" "r \<noteq> - 2"
  shows "pending s = enc_u64 c @ pending s' \<and> r = sint c"
proof -
  obtain bs where "net_recv_exact s 8 = (Some bs, s')" "dec_u64 bs = c" "r = sint c"
    using assms by (auto simp: rx_checksum_def split: prod.splits option.splits if_splits)
  with net_recv_exact_consumes [of s 8 bs s'] show ?thesis by auto
qed

text \<open>One step of the loop, in terms of the bytes still to arrive.\<close>

lemma rx_uncompressed_ok:
  assumes "sock_ok s" "holds h f bs" "wr_live h" "pending s = data @ enc_u64 w @ rest" "length data = n"
  shows "\<exists>s' f' h'. rx_uncompressed s h f n c =
      (if w = c + isr_count_byte_values data then sint w else - 2, s', f', h') \<and>
    holds h' f' (bs @ data) \<and> file_rel h f h' f' \<and> wr_live h' \<and> pending s' = rest \<and> sock_ok s' \<and>
    tx s' = tx s \<and> tx_live s' = tx_live s"
  using assms
proof (induction s h f n c arbitrary: bs data rule: rx_uncompressed.induct)
  case (1 s h f n c)
  let ?m = "if n < ISR_IO_BUFSIZE then n else ISR_IO_BUFSIZE"
  show ?case
  proof (cases "0 < n")
    case False
    then have d: "data = []" "pending s = enc_u64 w @ rest" using "1.prems"(4,5) by simp_all
    obtain s' where s': "rx_checksum s c = (if w = c then sint c else - 2, s')" "pending s' = rest"
      "sock_ok s'" "tx s' = tx s" "tx_live s' = tx_live s"
      using rx_checksum_ok [OF "1.prems"(1) d(2)] by blast
    have "rx_uncompressed s h f n c = (if w = c then sint w else - 2, s', f, h)"
      using False s'(1) unfolding rx_uncompressed.simps [of s h f n c] by simp
    with s' d(1) "1.prems"(2,3) show ?thesis by auto
  next
    case True
    have m: "?m \<le> n" "length (take ?m data) = ?m" using "1.prems"(5) by auto
    have p: "pending s = take ?m data @ drop ?m data @ enc_u64 w @ rest"
      unfolding "1.prems"(4) by simp
    obtain s1 where s1: "net_recv_exact s ?m = (Some (take ?m data), s1)"
      "pending s1 = drop ?m data @ enc_u64 w @ rest" "sock_ok s1" "tx s1 = tx s" "tx_live s1 = tx_live s"
      using tcp.recv_exact [OF "1.prems"(1) p m(2)] .
    obtain f1 h1 where w1: "isr_write_all h f (take ?m data) = (True, f1, h1)"
      "holds h1 f1 (bs @ take ?m data)" "wr_live h1" "file_rel h f h1 f1"
      using disk.put_ok [OF "1.prems"(2,3)] .
    have len: "length (drop ?m data) = n - ?m" using "1.prems"(5) by simp
    from "1.IH" [OF True refl s1(1) [symmetric] refl refl w1(1) [symmetric] refl refl s1(3) w1(2,3) s1(2) len]
    obtain s' f' h' where rest: "rx_uncompressed s1 h1 f1 (n - ?m) (c + isr_count_byte_values (take ?m data)) =
        (if w = c + isr_count_byte_values (take ?m data) + isr_count_byte_values (drop ?m data)
         then sint w else - 2, s', f', h')"
      "holds h' f' ((bs @ take ?m data) @ drop ?m data)" "file_rel h1 f1 h' f'" "wr_live h'"
      "pending s' = rest" "sock_ok s'" "tx s' = tx s1" "tx_live s' = tx_live s1"
      by blast
    have "isr_count_byte_values data = isr_count_byte_values (take ?m data) + isr_count_byte_values (drop ?m data)"
      by (metis append_take_drop_id count_append)
    moreover have "rx_uncompressed s h f n c =
        rx_uncompressed s1 h1 f1 (n - ?m) (c + isr_count_byte_values (take ?m data))"
      using True s1(1) w1(1) by (simp only: rx_uncompressed.simps [of s h f n c] Let_def) simp
    ultimately show ?thesis
      using rest s1(4,5) file_rel_trans [OF w1(4) rest(3)] by (simp add: add.assoc)
  qed
qed

text \<open>
  What holds of every run: the file grows by a prefix of the stream, nothing else on the disk
  changes, and success means that the whole file and its checksum arrived.
\<close>

lemma rx_uncompressed_inv:
  assumes "holds h f bs" "rx_uncompressed s h f n c = (r, s', f', h')"
  shows "file_rel h f h' f' \<and>
    (\<exists>data rest. pending s = data @ rest \<and> length data \<le> n \<and> holds h' f' (bs @ data) \<and>
      (r \<noteq> - 1 \<and> r \<noteq> - 2 \<longrightarrow> length data = n \<and> r = sint (c + isr_count_byte_values data) \<and>
        rest = enc_u64 (c + isr_count_byte_values data) @ pending s'))"
  using assms
proof (induction s h f n c arbitrary: bs rule: rx_uncompressed.induct)
  case (1 s h f n c)
  let ?m = "if n < ISR_IO_BUFSIZE then n else ISR_IO_BUFSIZE"
  show ?case
  proof (cases "0 < n")
    case False
    with "1.prems" have "rx_checksum s c = (r, s')" "f' = f" "h' = h"
      by (auto simp: rx_uncompressed.simps [of s h f n c] split: prod.splits)
    with False "1.prems"(1) rx_checksum_result [of s c r s'] show ?thesis
      by (intro conjI exI [of _ "[]"] exI [of _ "pending s"]) auto
  next
    case True
    obtain o1 s1 where s1: "net_recv_exact s ?m = (o1, s1)" by force
    show ?thesis
    proof (cases o1)
      case None
      with "1.prems" True s1 have "r = - 1" "f' = f" "h' = h"
        by (simp_all add: rx_uncompressed.simps [of s h f n c] Let_def)
      with "1.prems"(1) show ?thesis by (intro conjI exI [of _ "[]"] exI [of _ "pending s"]) auto
    next
      case (Some xs)
      have xs: "pending s = xs @ pending s1" "length xs = ?m"
        using net_recv_exact_consumes [of s ?m xs s1] s1 Some by simp_all
      obtain b f1 h1 where w1: "isr_write_all h f xs = (b, f1, h1)" by (metis prod_cases3)
      note w = isr_write_all_inv [OF w1 "1.prems"(1)]
      show ?thesis
      proof (cases b)
        case False
        with "1.prems" True s1 w1 Some have e: "r = - 1" "f' = f1" "h' = h1"
          by (simp_all add: rx_uncompressed.simps [of s h f n c] Let_def)
        from w obtain k where k: "k \<le> length xs" "holds h1 f1 (bs @ take k xs)" by blast
        have "pending s = take k xs @ drop k xs @ pending s1" unfolding xs(1) by simp
        moreover have "length (take k xs) \<le> n" using xs(2) by (auto split: if_splits)
        ultimately show ?thesis
          using w e k(2) by blast
      next
        case t: True
        with w have h1: "holds h1 f1 (bs @ xs)" by auto
        have run: "rx_uncompressed s1 h1 f1 (n - ?m) (c + isr_count_byte_values xs) = (r, s', f', h')"
          using "1.prems"(2) True s1 w1 t Some
          by (simp only: rx_uncompressed.simps [of s h f n c] Let_def) simp
        from "1.IH" [OF True refl s1 [symmetric] Some refl w1 [symmetric] eqTrueI [OF t] refl h1 run]
        obtain data rest where d: "pending s1 = data @ rest" "length data \<le> n - ?m"
          "holds h' f' ((bs @ xs) @ data)" and rel: "file_rel h1 f1 h' f'"
          and fin: "r \<noteq> - 1 \<and> r \<noteq> - 2 \<longrightarrow> length data = n - ?m \<and>
            r = sint (c + isr_count_byte_values xs + isr_count_byte_values data) \<and>
            rest = enc_u64 (c + isr_count_byte_values xs + isr_count_byte_values data) @ pending s'"
          by blast
        have len: "length (xs @ data) \<le> n" "length (xs @ data) = n \<longleftrightarrow> length data = n - ?m"
          using xs(2) d(2) True by auto
        have "r \<noteq> - 1 \<and> r \<noteq> - 2 \<longrightarrow> length (xs @ data) = n \<and>
            r = sint (c + isr_count_byte_values (xs @ data)) \<and>
            rest = enc_u64 (c + isr_count_byte_values (xs @ data)) @ pending s'"
          using fin unfolding len(2) by (simp add: add.assoc)
        moreover have "pending s = (xs @ data) @ rest" using xs(1) d(1) by simp
        moreover have "holds h' f' (bs @ xs @ data)" using d(3) by simp
        moreover have "file_rel h f h' f'" using w rel by (blast intro: file_rel_trans)
        ultimately show ?thesis using len(1) by blast
      qed
    qed
  qed
qed

section \<open>The stream of compressed blocks\<close>

text \<open>
  \<open>comp_frames m data w\<close>: \<open>w\<close> is \<open>data\<close> cut into non-empty pieces of at most \<open>m\<close> bytes,
  each sent as the length of a block that stands for it and that block.
\<close>

inductive comp_frames :: "nat \<Rightarrow> bytes \<Rightarrow> bytes \<Rightarrow> bool" for m :: nat where
  frames_Nil: "comp_frames m [] []"
| frames_Cons: "src \<noteq> [] \<Longrightarrow> length src \<le> m \<Longrightarrow> is_block src blk \<Longrightarrow>
    int (length blk) \<le> LZ4_compressBound (int m) \<Longrightarrow> comp_frames m data w \<Longrightarrow>
    comp_frames m (src @ data) (enc_u32 (word_of_nat (length blk)) @ blk @ w)"

inductive_cases comp_frames_nonempty: "comp_frames m (b # data) w"

lemma LZ4_compressBound_mono:
  "0 \<le> a \<Longrightarrow> a \<le> b \<Longrightarrow> b \<le> LZ4_MAX_INPUT_SIZE \<Longrightarrow> LZ4_compressBound a \<le> LZ4_compressBound b"
  by (simp add: LZ4_compressBound_def add_mono zdiv_mono1)

lemma LZ4_compressBound_less:
  "LZ4_compressBound n < 2 ^ 31" "0 \<le> LZ4_compressBound n"
  by (auto simp: LZ4_compressBound_def)

definition block_size_ok :: "u32 \<Rightarrow> bool" where
  "block_size_ok b \<longleftrightarrow> 0 < unat b \<and> int (unat b) \<le> LZ4_MAX_INPUT_SIZE"

text \<open>One block: the loop goes round once.\<close>

lemma tx_frame:
  assumes "isr_read h f (unat b) = (int (length bs), bs, f1, h1)" "bs \<noteq> []" "length bs \<le> unat b"
    and "block_size_ok b" "tx_live s"
  obtains s2 blk where "tx_compressed s h f b (LZ4_compressBound (int (unat b))) c =
      tx_compressed s2 h1 f1 b (LZ4_compressBound (int (unat b))) (c + isr_count_byte_values bs)"
    "is_block bs blk" "int (length blk) \<le> LZ4_compressBound (int (unat b))"
    "tx s2 = tx s @ enc_u32 (word_of_nat (length blk)) @ blk" "pending s2 = pending s" "sock_ok s2 = sock_ok s" "tx_live s2"
proof -
  let ?max = "LZ4_compressBound (int (unat b))"
  have b: "int (unat b) \<le> LZ4_MAX_INPUT_SIZE"
    using assms(4) by (simp add: block_size_ok_def)
  have len: "int (length bs) \<le> LZ4_MAX_INPUT_SIZE" using assms(3) b by linarith
  then have ti: "to_int (int (length bs)) = int (length bs)" by (simp add: to_int_small)
  have bound: "LZ4_compressBound (int (length bs)) \<le> ?max"
    using assms(3) b by (intro LZ4_compressBound_mono) linarith+
  obtain z dst where z: "LZ4_compress_default bs (replicate (nat ?max) 0) (to_int (int (length bs))) ?max = Some (z, dst)"
    "length dst = nat ?max" "0 < z" "z \<le> ?max" "is_block bs (take (nat z) dst)"
    using LZ4_compress_default_ok [OF len, of ?max "replicate (nat ?max) 0"] bound
    unfolding ti by auto
  let ?blk = "take (nat z) dst"
  have blk: "length ?blk = nat z" using z(2-4) by simp
  have zw: "(word_of_int z :: u32) = word_of_nat (length ?blk)"
    using z(3) blk by simp
  obtain s1 where s1: "net_send_exact s (enc_u32 (word_of_int z)) = (True, s1)"
    "tx s1 = tx s @ enc_u32 (word_of_int z)" "pending s1 = pending s" "sock_ok s1 = sock_ok s" "tx_live s1"
    using tcp.send_live [OF assms(5)] .
  obtain s2 where s2: "net_send_exact s1 ?blk = (True, s2)" "tx s2 = tx s1 @ ?blk"
    "pending s2 = pending s1" "sock_ok s2 = sock_ok s1" "tx_live s2"
    using tcp.send_live [OF s1(5)] .
  have "tx_compressed s h f b ?max c = tx_compressed s2 h1 f1 b ?max (c + isr_count_byte_values bs)"
    using assms(1,2) z(1,3) s1(1) s2(1) by (simp add: tx_compressed.simps [of s h f b])
  moreover have "tx s2 = tx s @ enc_u32 (word_of_nat (length ?blk)) @ ?blk"
    using s1(2) s2(2) unfolding zw by simp
  moreover have "int (length ?blk) \<le> ?max" using z(3,4) blk by simp
  moreover have "pending s2 = pending s" "sock_ok s2 = sock_ok s" using s1 s2 by simp_all
  ultimately show ?thesis using that z(5) s2(5) by blast
qed

lemma tx_compressed_live:
  assumes "node_at h (fd_path f) = Some (File content)" "rd_live h" "tx_live s" "block_size_ok b"
  shows "\<exists>s' h' w. tx_compressed s h f b (LZ4_compressBound (int (unat b))) c =
      Some (sint (c + isr_count_byte_values (unread h f)), s', h') \<and>
    comp_frames (unat b) (unread h f) w \<and>
    tx s' = tx s @ w @ enc_u64 (c + isr_count_byte_values (unread h f)) \<and>
    pending s' = pending s \<and> sock_ok s' = sock_ok s \<and> tx_live s' \<and> rd_only h h' \<and> rd_live h'"
  using assms
proof (induction "length (unread h f)" arbitrary: s h f c rule: less_induct)
  case less
  let ?max = "LZ4_compressBound (int (unat b))"
  obtain r bs f1 h1 where e: "isr_read h f (unat b) = (r, bs, f1, h1)" by (metis prod_cases4)
  note only = isr_read_only [OF e]
  have b: "0 < unat b" using less.prems(4) by (simp add: block_size_ok_def)
  have r: "r = int (length bs)" "length bs \<le> unat b" "bs = [] \<longleftrightarrow> unread h f = []" "fd_path f1 = fd_path f"
    "rd_live h1" "unread h f = bs @ unread h1 f1"
    using isr_read_live [OF less.prems(1,2) b e] by blast+
  show ?case
  proof (cases "bs = []")
    case True
    obtain s1 where "net_send_exact s (enc_u64 c) = (True, s1)" "tx s1 = tx s @ enc_u64 c"
      "pending s1 = pending s" "sock_ok s1 = sock_ok s" "tx_live s1"
      using tcp.send_live [OF less.prems(3)] .
    with True e r(1,3,5) only frames_Nil show ?thesis by (simp add: tx_compressed.simps [of s h f b])
  next
    case False
    obtain s2 blk where s2: "tx_compressed s h f b ?max c = tx_compressed s2 h1 f1 b ?max (c + isr_count_byte_values bs)"
      "is_block bs blk" "int (length blk) \<le> ?max"
      "tx s2 = tx s @ enc_u32 (word_of_nat (length blk)) @ blk" "pending s2 = pending s" "sock_ok s2 = sock_ok s" "tx_live s2"
      using tx_frame [OF e [unfolded r(1)] False r(2) less.prems(4,3)] by metis
    have node: "node_at h1 (fd_path f1) = Some (File content)"
      using rd_only_node_at [OF only] r(4) less.prems(1) by simp
    have "length (unread h1 f1) < length (unread h f)" using False r(6) by simp
    from less.hyps [OF this node r(5) s2(7) less.prems(4), of "c + isr_count_byte_values bs"]
    obtain s' h' w where rest: "tx_compressed s2 h1 f1 b ?max (c + isr_count_byte_values bs) =
        Some (sint (c + isr_count_byte_values bs + isr_count_byte_values (unread h1 f1)), s', h')"
      "comp_frames (unat b) (unread h1 f1) w"
      "tx s' = tx s2 @ w @ enc_u64 (c + isr_count_byte_values bs + isr_count_byte_values (unread h1 f1))"
      "pending s' = pending s2" "sock_ok s' = sock_ok s2" "tx_live s'" "rd_only h1 h'" "rd_live h'"
      by blast
    have "comp_frames (unat b) (unread h f) (enc_u32 (word_of_nat (length blk)) @ blk @ w)"
      unfolding r(6) by (rule frames_Cons [OF False r(2) s2(2,3) rest(2)])
    with s2 rest rd_only_trans [OF only rest(7)] show ?thesis
      unfolding r(6) by (intro exI [of _ s'] exI [of _ h'] exI [of _ "enc_u32 (word_of_nat (length blk)) @ blk @ w"])
        (simp add: add.assoc)
  qed
qed

text \<open>The bytes that a run of successful reads gives, each as much as it says, at most \<open>n\<close>.\<close>

definition read_total :: "nat \<Rightarrow> nat list \<Rightarrow> nat" where
  "read_total n ks = sum_list (map (\<lambda>k. min k n) ks)"

lemma tx_compressed_fails_reading:
  assumes "node_at h (fd_path f) = Some (File content)" "tx_live s" "block_size_ok b"
    and "rd_sched h = map Part ks @ IoErr # es" "0 \<notin> set ks" "read_total (unat b) ks \<le> length (unread h f)"
  shows "\<exists>s' h' w. tx_compressed s h f b (LZ4_compressBound (int (unat b))) c =
      Some (sint (c + isr_count_byte_values (take (read_total (unat b) ks) (unread h f))), s', h') \<and>
    comp_frames (unat b) (take (read_total (unat b) ks) (unread h f)) w \<and>
    tx s' = tx s @ w @ enc_u64 (c + isr_count_byte_values (take (read_total (unat b) ks) (unread h f)))"
  using assms(1,2,4-)
proof (induction ks arbitrary: s h f c)
  case Nil
  obtain s1 where "net_send_exact s (enc_u64 c) = (True, s1)" "tx s1 = tx s @ enc_u64 c"
    using tcp.send_live [OF Nil(2)] by metis
  with Nil frames_Nil show ?case
    by (simp add: tx_compressed.simps [of s h f b] isr_read_def read_total_def)
next
  case (Cons k ks)
  let ?n = "min k (unat b)" and ?max = "LZ4_compressBound (int (unat b))"
  let ?bs = "take ?n (unread h f)" and ?f = "f\<lparr>fd_pos := fd_pos f + ?n\<rparr>" and ?h = "h\<lparr>rd_sched := map Part ks @ IoErr # es\<rparr>"
  have u: "unread h f = drop (fd_pos f) content" using Cons.prems(1) by (simp add: unread_def)
  have tot: "read_total (unat b) (k # ks) = ?n + read_total (unat b) ks" by (simp add: read_total_def)
  have n: "0 < ?n" "?n \<le> length (unread h f)" "length ?bs = ?n" "?bs \<noteq> []" "length ?bs \<le> unat b"
    using Cons.prems(4,5) assms(3) by (auto simp: tot block_size_ok_def)
  have e: "isr_read h f (unat b) = (int (length ?bs), ?bs, ?f, ?h)"
    using Cons.prems(1,3) n(2,3) by (simp add: isr_read_def u Let_def)
  obtain s2 blk where s2: "tx_compressed s h f b ?max c = tx_compressed s2 ?h ?f b ?max (c + isr_count_byte_values ?bs)"
    "is_block ?bs blk" "int (length blk) \<le> ?max" "tx s2 = tx s @ enc_u32 (word_of_nat (length blk)) @ blk" "tx_live s2"
    using tx_frame [OF e n(4,5) assms(3) Cons.prems(2)] by metis
  have rest: "unread ?h ?f = drop ?n (unread h f)"
    using Cons.prems(1) by (simp add: unread_def add.commute)
  have prem: "node_at ?h (fd_path ?f) = Some (File content)" "rd_sched ?h = map Part ks @ IoErr # es" "0 \<notin> set ks"
    "read_total (unat b) ks \<le> length (unread ?h ?f)"
    using Cons.prems(1,4,5) by (simp_all add: rest tot)
  let ?later = "take (read_total (unat b) ks) (unread ?h ?f)"
  obtain s' h' w where s': "tx_compressed s2 ?h ?f b ?max (c + isr_count_byte_values ?bs) =
      Some (sint (c + isr_count_byte_values ?bs + isr_count_byte_values ?later), s', h')"
    "comp_frames (unat b) ?later w"
    "tx s' = tx s2 @ w @ enc_u64 (c + isr_count_byte_values ?bs + isr_count_byte_values ?later)"
    using Cons.IH [OF prem(1) s2(5) prem(2-4), of "c + isr_count_byte_values ?bs"] by blast
  have whole: "take (read_total (unat b) (k # ks)) (unread h f) = ?bs @ ?later"
    unfolding tot rest by (rule take_add)
  have "comp_frames (unat b) (?bs @ ?later) (enc_u32 (word_of_nat (length blk)) @ blk @ w)"
    by (rule frames_Cons [OF n(4,5) s2(2,3) s'(2)])
  with s2 s' show ?case
    unfolding whole by (intro exI [of _ s'] exI [of _ h'] exI [of _ "enc_u32 (word_of_nat (length blk)) @ blk @ w"])
        (simp add: add.assoc)
qed

section \<open>The receiver with compression\<close>

text \<open>\<open>malloc\<close> never returns a block that reaches past the end of the address space.\<close>

definition heap_ok :: "host \<Rightarrow> bool" where
  "heap_ok h \<longleftrightarrow> (\<forall>n a. heap_at h n = Some a \<longrightarrow> a + n < 2 ^ 64)"

definition buffers_ok :: "u32 \<Rightarrow> nat \<Rightarrow> nat \<Rightarrow> nat \<Rightarrow> bool" where
  "buffers_ok b csize caddr daddr \<longleftrightarrow> csize = nat (LZ4_compressBound (to_int (int (unat b)))) \<and>
     caddr + csize < 2 ^ 64 \<and> daddr + unat b < 2 ^ 64"

lemma to_int_block_size: "block_size_ok b \<Longrightarrow> to_int (int (unat b)) = int (unat b)"
  by (simp add: block_size_ok_def to_int_small)

lemma recv_into_fits:
  assumes "sock_ok s" "pending s = xs @ ys" "length xs = n" "n \<le> capacity"
  obtains s' where "recv_into s capacity n = Some (Some xs, s')" "pending s' = ys" "sock_ok s'" "tx s' = tx s"
    "tx_live s' = tx_live s"
  using tcp.recv_exact [OF assms(1,2,3)] assms(4) that by (metis recv_into_def leD)

text \<open>One block: the loop goes round once.\<close>

lemma rx_frame:
  assumes "block_size_ok b" "buffers_ok b csize caddr daddr" "src \<noteq> []" "length src \<le> unat b"
    and "is_block src blk" "int (length blk) \<le> LZ4_compressBound (int (unat b))" "remaining \<noteq> 0"
    and "sock_ok s" "holds h f bs" "wr_live h"
    and "pending s = enc_u32 (word_of_nat (length blk)) @ blk @ rest"
  shows "\<exists>s' f' h'. rx_compressed s h f b csize caddr daddr remaining c =
      rx_compressed s' h' f' b csize caddr daddr (remaining - word_of_nat (length src))
        (c + isr_count_byte_values src) \<and>
    pending s' = rest \<and> sock_ok s' \<and> tx s' = tx s \<and> tx_live s' = tx_live s \<and>
    holds h' f' (bs @ src) \<and> wr_live h' \<and> file_rel h f h' f'"
proof -
  have cs: "csize = nat (LZ4_compressBound (int (unat b)))" "caddr + csize < 2 ^ 64" "daddr + unat b < 2 ^ 64"
    using assms(2) to_int_block_size [OF assms(1)] by (simp_all add: buffers_ok_def)
  have "int (length blk) < 2 ^ 31"
    using assms(6) LZ4_compressBound_less(1) by (rule le_less_trans)
  then have blk: "length blk \<le> csize" "length blk < 2 ^ 31"
    using assms(6) cs(1) by simp_all
  have n: "unat (word_of_nat (length blk) :: u32) = length blk" using blk(2) by simp
  obtain s1 where s1: "net_recv_exact s 4 = (Some (enc_u32 (word_of_nat (length blk))), s1)"
    "pending s1 = blk @ rest" "sock_ok s1" "tx s1 = tx s" "tx_live s1 = tx_live s"
    using tcp_u32.recv_frame [OF assms(8,11) TrueI] by metis
  obtain s2 where s2: "recv_into s1 csize (length blk) = Some (Some blk, s2)" "pending s2 = rest" "sock_ok s2"
    "tx s2 = tx s1" "tx_live s2 = tx_live s1"
    using recv_into_fits [OF s1(3,2) refl blk(1)] .
  have "caddr + length blk < 2 ^ 64" using cs(2) blk(1) by linarith
  with LZ4_decompress_block [OF assms(5,4), of "replicate (unat b) 0" caddr daddr] cs(3)
  obtain dst where z: "LZ4_decompress_safe blk caddr (replicate (unat b) 0) daddr (to_int (int (unat b))) =
      Some (int (length src), dst)" "take (length src) dst = src"
    using to_int_block_size [OF assms(1)] by auto
  obtain f1 h1 where w1: "isr_write_all h f src = (True, f1, h1)" "holds h1 f1 (bs @ src)" "wr_live h1"
    "file_rel h f h1 f1"
    using disk.put_ok [OF assms(9,10)] .
  have "rx_compressed s h f b csize caddr daddr remaining c =
      rx_compressed s2 h1 f1 b csize caddr daddr (remaining - word_of_nat (length src))
        (c + isr_count_byte_values src)"
    using assms(3,7) s1(1) s2(1) n z w1(1) by (subst rx_compressed.simps) (simp add: Let_def)
  with s1 s2 w1 show ?thesis by auto
qed

lemma rx_frames:
  assumes "comp_frames (unat b) data w" "block_size_ok b" "buffers_ok b csize caddr daddr"
    and "length data \<le> unat remaining"
    and "sock_ok s" "holds h f bs" "wr_live h" "pending s = w @ rest"
  shows "\<exists>s' f' h'. rx_compressed s h f b csize caddr daddr remaining c =
      rx_compressed s' h' f' b csize caddr daddr (remaining - word_of_nat (length data))
        (c + isr_count_byte_values data) \<and>
    pending s' = rest \<and> sock_ok s' \<and> tx s' = tx s \<and> tx_live s' = tx_live s \<and>
    holds h' f' (bs @ data) \<and> wr_live h' \<and> file_rel h f h' f'"
  using assms(1,4-8)
proof (induction data w arbitrary: s h f bs remaining c rule: comp_frames.induct)
  case frames_Nil
  then show ?case
    by (intro exI [of _ s] exI [of _ f] exI [of _ h]) simp
next
  case (frames_Cons src blk data w)
  have rem: "remaining \<noteq> 0" "length src \<le> unat remaining" "length src + length data \<le> unat remaining"
    using frames_Cons.prems(1) frames_Cons.hyps(1) by (auto simp flip: length_greater_0_conv)
  have p: "pending s = enc_u32 (word_of_nat (length blk)) @ blk @ w @ rest"
    using frames_Cons.prems(5) by simp
  obtain s1 f1 h1 where s1: "rx_compressed s h f b csize caddr daddr remaining c =
      rx_compressed s1 h1 f1 b csize caddr daddr (remaining - word_of_nat (length src))
        (c + isr_count_byte_values src)"
    "pending s1 = w @ rest" "sock_ok s1" "tx s1 = tx s" "tx_live s1 = tx_live s" "holds h1 f1 (bs @ src)"
    "wr_live h1" "file_rel h f h1 f1"
    using rx_frame [OF assms(2,3) frames_Cons.hyps(1-4) rem(1) frames_Cons.prems(2-4) p] by blast
  have "length src < 2 ^ 64" using rem(2) unsigned_less [of remaining] by (simp add: le_less_trans)
  then have "unat (remaining - word_of_nat (length src)) = unat remaining - length src"
    using rem(2) by (subst unat_sub) (simp_all add: word_le_nat_alt unat_of_nat)
  then have "length data \<le> unat (remaining - word_of_nat (length src))" using rem(3) by simp
  from frames_Cons.IH [OF this s1(3,6,7,2), of "c + isr_count_byte_values src"]
  obtain s' f' h' where "rx_compressed s1 h1 f1 b csize caddr daddr (remaining - word_of_nat (length src))
        (c + isr_count_byte_values src) =
      rx_compressed s' h' f' b csize caddr daddr
        (remaining - word_of_nat (length src) - word_of_nat (length data))
        (c + isr_count_byte_values src + isr_count_byte_values data)"
    "pending s' = rest" "sock_ok s'" "tx s' = tx s1" "tx_live s' = tx_live s1"
    "holds h' f' ((bs @ src) @ data)" "wr_live h'" "file_rel h1 f1 h' f'"
    by blast
  with s1 show ?case
    by (intro exI [of _ s'] exI [of _ f'] exI [of _ h'])
      (auto simp: algebra_simps intro: file_rel_trans)
qed

text \<open>
  The streams whose reception overflows the block buffer. \<open>overruns bsize csize remaining stream\<close>
  reads the stream as the receiver does, block by block: at the next header there is still
  something to receive, and either the length announced there is more than \<open>csize\<close>, the size of
  the buffer, and more than \<open>csize\<close> bytes follow; or the block is there in full, stands for
  between one and \<open>bsize\<close> bytes in the block format, and the stream after it overruns with that
  much less to receive.
\<close>

function overruns :: "nat \<Rightarrow> nat \<Rightarrow> u64 \<Rightarrow> bytes \<Rightarrow> bool" where
  "overruns bsize csize remaining stream =
     (if remaining = 0 \<or> length stream < 4 then False
      else
        (let n = unat (dec_u32 (take 4 stream)); rest = drop 4 stream in
         if csize < n then csize < length rest
         else if length rest < n then False
         else
           (case lz4_decode (take n rest) [] of
              None \<Rightarrow> False
            | Some out \<Rightarrow>
                if out = [] \<or> bsize < length out then False
                else overruns bsize csize (remaining - word_of_nat (length out)) (drop n rest))))"
  by pat_completeness auto
termination
  by (relation "measure (\<lambda>(b, c, r, stream). length stream)") auto

declare overruns.simps [simp del]

text \<open>
  What holds of every run: it is undefined only for these streams, and otherwise the file grows
  and nothing else changes.
\<close>

lemma LZ4_decompress_safe_total:
  assumes "buffers_ok b csize caddr daddr" "length blk \<le> csize"
  obtains z dst where
    "LZ4_decompress_safe blk caddr (replicate (unat b) 0) daddr (to_int (int (unat b))) = Some (z, dst)"
    "0 < z \<longrightarrow> length (take (nat z) dst) = nat z"
proof (cases "unat b < 2 ^ 31")
  case True
  have "caddr + length blk < 2 ^ 64" "daddr + unat b < 2 ^ 64"
    using assms by (simp_all add: buffers_ok_def)
  then obtain n dst' where d: "LZ4_decompress_safe blk caddr (replicate (unat b) 0) daddr (int (unat b)) = Some (n, dst')"
    "length dst' = unat b" "0 \<le> n \<longrightarrow> n \<le> int (unat b)"
    using LZ4_decompress_safe_ok [of "unat b" "replicate (unat b) 0" caddr blk daddr] by auto
  have "0 < n \<Longrightarrow> length (take (nat n) dst') = nat n"
    using d(2,3) by (simp add: nat_le_iff)
  moreover have "to_int (int (unat b)) = int (unat b)"
    using True by (rule to_int_nat)
  ultimately show ?thesis using that d(1) by simp
next
  case False
  then have "to_int (int (unat b)) < 0"
    using unat_u32_less [of b] by (intro to_int_neg) simp_all
  then show ?thesis using that by (simp add: LZ4_decompress_safe_def)
qed

lemma LZ4_decompress_safe_out:
  assumes "buffers_ok b csize caddr daddr" "length blk \<le> csize"
    and "LZ4_decompress_safe blk caddr (replicate (unat b) 0) daddr (to_int (int (unat b))) = Some (z, dst)" "0 < z"
  shows "length (take (nat z) dst) = nat z" "nat z \<le> unat b" "lz4_decode blk [] = Some (take (nat z) dst)"
proof -
  have b: "unat b < 2 ^ 31"
  proof (rule ccontr)
    assume "\<not> unat b < 2 ^ 31"
    then have "to_int (int (unat b)) < 0" using unat_u32_less [of b] by (intro to_int_neg) simp_all
    with assms(3,4) show False by (simp add: LZ4_decompress_safe_def)
  qed
  have "caddr + length blk < 2 ^ 64" "daddr + unat b < 2 ^ 64"
    using assms(1,2) by (simp_all add: buffers_ok_def)
  then obtain n dst' where d: "LZ4_decompress_safe blk caddr (replicate (unat b) 0) daddr (int (unat b)) = Some (n, dst')"
    "length dst' = unat b" "0 \<le> n \<longrightarrow> n \<le> int (unat b) \<and> lz4_decode blk [] = Some (take (nat n) dst')"
    using LZ4_decompress_safe_ok [of "unat b" "replicate (unat b) 0" caddr blk daddr] by auto
  have "n = z" "dst' = dst" using d(1) assms(3) to_int_nat [OF b] by simp_all
  with d(2,3) assms(4) have "nat z \<le> unat b" "lz4_decode blk [] = Some (take (nat z) dst)" "length dst = unat b"
    by (simp_all add: nat_le_iff)
  then show "length (take (nat z) dst) = nat z" "nat z \<le> unat b" "lz4_decode blk [] = Some (take (nat z) dst)"
    by simp_all
qed

lemma rx_compressed_defined:
  assumes "buffers_ok b csize caddr daddr" "rx_compressed s h f b csize caddr daddr remaining c = None"
  shows "overruns (unat b) csize remaining (pending s)"
  using assms
proof (induction s h f b csize caddr daddr remaining c rule: rx_compressed.induct)
  case (1 s h f b csize caddr daddr remaining c)
  have rem: "remaining \<noteq> 0"
    using "1.prems"(2) by (auto simp: rx_compressed.simps [of s] split: prod.splits)
  obtain hd s1 where s1: "net_recv_exact s 4 = (Some hd, s1)"
    using "1.prems"(2) rem by (cases "net_recv_exact s 4") (auto simp: rx_compressed.simps [of s] split: option.splits)
  have hd: "pending s = hd @ pending s1" "length hd = 4"
    using net_recv_exact_consumes [OF s1] by simp_all
  show ?case
  proof (cases "recv_into s1 csize (unat (dec_u32 hd))")
    case None
    then have "csize < unat (dec_u32 hd)" "csize < length (pending s1)"
      by (auto simp: recv_into_def split: if_splits)
    with hd rem show ?thesis by (subst overruns.simps) simp
  next
    case (Some res)
    then obtain blk s2 where s2: "recv_into s1 csize (unat (dec_u32 hd)) = Some (Some blk, s2)"
      using "1.prems"(2) rem s1
      by (cases res) (auto simp: rx_compressed.simps [of s] Let_def split: option.splits)
    have blk: "pending s1 = blk @ pending s2" "length blk \<le> csize" "length blk = unat (dec_u32 hd)"
      using s2 net_recv_exact_consumes [of s1 "unat (dec_u32 hd)" blk s2]
      by (auto simp: recv_into_def split: if_splits)
    obtain z dst where z: "LZ4_decompress_safe blk caddr (replicate (unat b) 0) daddr (to_int (int (unat b))) = Some (z, dst)"
      using LZ4_decompress_safe_total [OF "1.prems"(1) blk(2)] .
    obtain ok f1 h1 where w1: "isr_write_all h f (take (nat z) dst) = (ok, f1, h1)" by (metis prod_cases3)
    have go: "\<not> z \<le> 0" "ok"
      "rx_compressed s2 h1 f1 b csize caddr daddr (remaining - word_of_int z)
        (c + isr_count_byte_values (take (nat z) dst)) = None"
      using "1.prems"(2) rem s1 s2 z w1
      by (auto simp: rx_compressed.simps [of s] Let_def split: if_splits bool.splits)
    have later: "overruns (unat b) csize (remaining - word_of_int z) (pending s2)"
      by (rule "1.IH" [OF rem s1 [symmetric] refl s2 refl refl z refl go(1) refl refl w1 [symmetric] _ refl "1.prems"(1) go(3)])
        (use go(2) in simp)
    have pos: "0 < z" using go(1) by simp
    note out = LZ4_decompress_safe_out [OF "1.prems"(1) blk(2) z pos]
    have "word_of_nat (length (take (nat z) dst)) = (word_of_int z :: u64)" using out(1) pos by simp
    with out pos rem hd blk later show ?thesis
      by (subst overruns.simps) (auto simp: Let_def)
  qed
qed

lemma rx_compressed_inv:
  assumes "holds h f bs" "rx_compressed s h f b csize caddr daddr remaining c = Some (r, s', f', h')"
    and "buffers_ok b csize caddr daddr"
  shows "file_rel h f h' f' \<and> (\<exists>data. holds h' f' (bs @ data) \<and>
    (r \<noteq> - 1 \<and> r \<noteq> - 2 \<longrightarrow> r = sint (c + isr_count_byte_values data) \<and>
      word_of_nat (length data) = remaining \<and>
      (\<exists>pre. pending s = pre @ enc_u64 (c + isr_count_byte_values data) @ pending s')))"
  using assms
proof (induction s h f b csize caddr daddr remaining c arbitrary: bs rule: rx_compressed.induct)
  case (1 s h f b csize caddr daddr remaining c)
  let ?post = "\<lambda>data. holds h' f' (bs @ data) \<and>
    (r \<noteq> - 1 \<and> r \<noteq> - 2 \<longrightarrow> r = sint (c + isr_count_byte_values data) \<and>
      word_of_nat (length data) = remaining \<and>
      (\<exists>pre. pending s = pre @ enc_u64 (c + isr_count_byte_values data) @ pending s'))"
  have stop: "r = - 1 \<Longrightarrow> f' = f \<Longrightarrow> h' = h \<Longrightarrow> file_rel h f h' f' \<and> (\<exists>data. ?post data)"
    using "1.prems"(1) by (intro conjI exI [of _ "[]"]) auto
  show ?case
  proof (cases "remaining = 0")
    case True
    with "1.prems"(2) have "rx_checksum s c = (r, s')" "f' = f" "h' = h"
      by (auto simp: rx_compressed.simps [of s] split: prod.splits)
    with True "1.prems"(1) rx_checksum_result [of s c r s'] show ?thesis
      by (intro conjI exI [of _ "[]"]) auto
  next
    case rem: False
    obtain hd s1 where s1: "net_recv_exact s 4 = (hd, s1)" by force
    show ?thesis
    proof (cases hd)
      case None
      with "1.prems"(2) rem s1 show ?thesis by (intro stop) (simp_all add: rx_compressed.simps [of s])
    next
      case hd: (Some hd)
      obtain res s2 where s2: "recv_into s1 csize (unat (dec_u32 hd)) = Some (res, s2)"
        using "1.prems"(2) rem s1 hd
        by (cases "recv_into s1 csize (unat (dec_u32 hd))") (auto simp: rx_compressed.simps [of s])
      show ?thesis
      proof (cases res)
        case None
        with "1.prems"(2) rem s1 s2 hd show ?thesis by (intro stop) (simp_all add: rx_compressed.simps [of s])
      next
        case blk: (Some blk)
        have p: "pending s = (hd @ blk) @ pending s2" "length blk \<le> csize"
          using net_recv_exact_consumes [of s 4 hd s1] net_recv_exact_consumes [of s1 "unat (dec_u32 hd)" blk s2]
            s1 s2 hd blk by (auto simp: recv_into_def split: if_splits)
        obtain z dst where z: "LZ4_decompress_safe blk caddr (replicate (unat b) 0) daddr (to_int (int (unat b))) = Some (z, dst)"
          "0 < z \<longrightarrow> length (take (nat z) dst) = nat z"
          using LZ4_decompress_safe_total [OF "1.prems"(3) p(2)] .
        show ?thesis
        proof (cases "z \<le> 0")
          case True
          with "1.prems"(2) rem s1 s2 z(1) hd blk show ?thesis
            by (intro stop) (simp_all add: rx_compressed.simps [of s])
        next
          case pos: False
          let ?out = "take (nat z) dst"
          obtain ok f1 h1 where w1: "isr_write_all h f ?out = (ok, f1, h1)" by (metis prod_cases3)
          note w = isr_write_all_inv [OF w1 "1.prems"(1)]
          show ?thesis
          proof (cases ok)
            case False
            with "1.prems"(2) rem s1 s2 z(1) w1 hd blk pos have "r = - 1" "f' = f1" "h' = h1"
              by (simp_all add: rx_compressed.simps [of s])
            with w show ?thesis by blast
          next
            case ok: True
            with w have h1: "holds h1 f1 (bs @ ?out)" by auto
            have run: "rx_compressed s2 h1 f1 b csize caddr daddr (remaining - word_of_int z)
                (c + isr_count_byte_values ?out) = Some (r, s', f', h')"
              using "1.prems"(2) rem s1 s2 z(1) w1 hd blk pos ok by (simp add: rx_compressed.simps [of s])
            obtain data where d: "file_rel h1 f1 h' f'" "holds h' f' ((bs @ ?out) @ data)"
              "r \<noteq> - 1 \<and> r \<noteq> - 2 \<longrightarrow> r = sint (c + isr_count_byte_values ?out + isr_count_byte_values data) \<and>
                word_of_nat (length data) = remaining - word_of_int z \<and>
                (\<exists>pre. pending s2 = pre @ enc_u64 (c + isr_count_byte_values ?out + isr_count_byte_values data) @ pending s')"
              using "1.IH" [OF rem s1 [symmetric] hd s2 refl blk z(1) refl pos refl refl w1 [symmetric] eqTrueI [OF ok] refl h1 run "1.prems"(3)]
              by blast
            have "word_of_int z = (word_of_nat (length ?out) :: u64)" using pos z(2) by simp
            with d(3) have "r \<noteq> - 1 \<and> r \<noteq> - 2 \<longrightarrow> r = sint (c + isr_count_byte_values (?out @ data)) \<and>
                word_of_nat (length (?out @ data)) = remaining \<and>
                (\<exists>pre. pending s = pre @ enc_u64 (c + isr_count_byte_values (?out @ data)) @ pending s')"
              using p(1) by (metis (no_types, lifting) add.assoc add.commute append.assoc count_append
                diff_add_cancel length_append of_nat_add)
            moreover have "holds h' f' (bs @ ?out @ data)" using d(2) by simp
            moreover have "file_rel h f h' f'" using w d(1) by (blast intro: file_rel_trans)
            ultimately show ?thesis by blast
          qed
        qed
      qed
    qed
  qed
qed

section \<open>Properties\<close>

lemma unread_start: "node_at h (fd_path f) = Some (File bs) \<Longrightarrow> fd_pos f = 0 \<Longrightarrow> unread h f = bs"
  by (simp add: unread_def)

lemma holds_file: "holds h' f' bs \<Longrightarrow> file_rel h f h' f' \<Longrightarrow> node_at h' (fd_path f) = Some (File bs)"
  by (simp add: holds_def file_rel_def)

lemma buffers_malloc:
  "heap_ok h \<Longrightarrow> malloc h (nat (LZ4_compressBound (to_int (int (unat b))))) = Some ca \<Longrightarrow>
    malloc h (unat b) = Some da \<Longrightarrow>
    buffers_ok b (nat (LZ4_compressBound (to_int (int (unat b))))) ca da"
  by (simp add: buffers_ok_def heap_ok_def malloc_def)

text \<open>The outcomes of a compressed reception.\<close>

lemma isr_receive_file_compressed_cases:
  assumes "holds h f []" "heap_ok h"
  shows "case isr_receive_file_compressed s h f b n of
      None \<Rightarrow> overruns (unat b) (nat (LZ4_compressBound (to_int (int (unat b))))) n (pending s)
    | Some (r, s', f', h') \<Rightarrow> same_but (fd_path f) h h' \<and>
        (\<exists>bs. node_at h' (fd_path f) = Some (File bs) \<and>
          (r = - 1 \<or> r = - 2 \<or> word_of_nat (length bs) = n \<and> r = sint (isr_count_byte_values bs) \<and>
           (\<exists>pre. pending s = pre @ enc_u64 (isr_count_byte_values bs) @ pending s')))"
proof -
  let ?cs = "nat (LZ4_compressBound (to_int (int (unat b))))"
  show ?thesis
  proof (cases "malloc h ?cs = None \<or> malloc h (unat b) = None")
    case True
    then have "isr_receive_file_compressed s h f b n = Some (- 1, s, f, h)"
      by (auto simp: isr_receive_file_compressed_def Let_def split: option.splits)
    then show ?thesis using assms(1) by (simp add: holds_def)
  next
    case False
    then obtain ca da where m: "malloc h ?cs = Some ca" "malloc h (unat b) = Some da" by auto
    note bufs = buffers_malloc [OF assms(2) m]
    have run: "isr_receive_file_compressed s h f b n = rx_compressed s h f b ?cs ca da n 0"
      using m by (simp add: isr_receive_file_compressed_def Let_def)
    show ?thesis
    proof (cases "rx_compressed s h f b ?cs ca da n 0")
      case None
      then show ?thesis unfolding run using rx_compressed_defined [OF bufs None] by simp
    next
      case (Some res)
      obtain r s' f' h' where res: "res = (r, s', f', h')" by (metis prod_cases4)
      obtain data where d: "file_rel h f h' f'" "holds h' f' ([] @ data)"
        "r \<noteq> - 1 \<and> r \<noteq> - 2 \<longrightarrow> r = sint (0 + isr_count_byte_values data) \<and> word_of_nat (length data) = n \<and>
          (\<exists>pre. pending s = pre @ enc_u64 (0 + isr_count_byte_values data) @ pending s')"
        using rx_compressed_inv [OF assms(1) Some [unfolded res] bufs] by blast
      have "node_at h' (fd_path f) = Some (File data)" using holds_file [OF d(2,1)] by simp
      with d(1,3) show ?thesis unfolding run Some res file_rel_def by auto
    qed
  qed
qed

text \<open>A quiet host and a socket, for the examples.\<close>

definition host0 :: "(fpath \<times> node) list \<Rightarrow> host" where
  "host0 ns = \<lparr>nodes = ([], Dir) # ns, cwd = [], deny = (\<lambda>_. False), dir_size = (\<lambda>_. 4096),
     rd_sched = [], wr_sched = [], heap_at = (\<lambda>n. if n < 2 ^ 32 then Some (2 ^ 32 + n) else None), console = []\<rparr>"

definition sock0 :: "bytes \<Rightarrow> sock" where
  "sock0 bs = \<lparr>rx = (if bs = [] then [] else [bs]), rx_err = False, tx = [], tx_sched = []\<rparr>"

lemma host0_simps [simp]:
  "node_at (host0 ns) p = (if p = [] then Some Dir else map_of ns p)" "rd_live (host0 ns)" "wr_live (host0 ns)"
  "heap_ok (host0 ns)" "cwd (host0 ns) = []" "deny (host0 ns) p = False" "console (host0 ns) = []"
  "rd_sched (host0 ns) = []" "wr_sched (host0 ns) = []"
  "n < 2 ^ 32 \<Longrightarrow> malloc (host0 ns) n = Some (2 ^ 32 + n)"
  by (auto simp: host0_def node_at_def rd_live_def wr_live_def heap_ok_def malloc_def)

lemma sock0_simps [simp]:
  "pending (sock0 bs) = bs" "sock_ok (sock0 bs)" "tx (sock0 bs) = []" "tx_live (sock0 bs)"
  by (simp_all add: sock0_def pending_def sock_ok_def tx_live_def)

text \<open>
  C10. A file copied without compression: whatever the reads, writes and segments, the sender
  transmits bytes from which the receiver makes the same file and nothing else, reads no
  further, and both return the sum of the bytes.
\<close>

theorem copy_uncompressed:
  assumes "node_at h (fd_path f) = Some (File bs)" "fd_pos f = 0" "rd_live h" "tx_live s" "length bs < 2 ^ 64"
  shows "\<exists>s' h' w. isr_transmit_file_uncompressed s h f = (sint (isr_count_byte_values bs), s', h') \<and>
    tx s' = tx s @ w \<and>
    (\<forall>t g e rest. sock_ok t \<and> pending t = w @ rest \<and> holds g e [] \<and> wr_live g \<longrightarrow>
      (\<exists>t' e' g'. isr_receive_file_uncompressed t g e (word_of_nat (length bs)) =
          (sint (isr_count_byte_values bs), t', e', g') \<and>
        node_at g' (fd_path e) = Some (File bs) \<and> same_but (fd_path e) g g' \<and> pending t' = rest))"
proof -
  let ?c = "isr_count_byte_values bs"
  obtain s' h' where tx: "isr_transmit_file_uncompressed s h f = (sint ?c, s', h')"
    "tx s' = tx s @ bs @ enc_u64 ?c"
    using tx_uncompressed_live [OF assms(1,3,4), of 0] unread_start [OF assms(1,2)]
    by (auto simp: isr_transmit_file_uncompressed_def)
  have len: "length bs = unat (word_of_nat (length bs) :: u64)" using assms(5) by simp
  have "\<exists>t' e' g'. isr_receive_file_uncompressed t g e (word_of_nat (length bs)) = (sint ?c, t', e', g') \<and>
      node_at g' (fd_path e) = Some (File bs) \<and> same_but (fd_path e) g g' \<and> pending t' = rest"
    if "sock_ok t \<and> pending t = (bs @ enc_u64 ?c) @ rest \<and> holds g e [] \<and> wr_live g" for t g e rest
  proof -
    from that have "pending t = bs @ enc_u64 ?c @ rest" by simp
    from rx_uncompressed_ok [of t g e "[]", OF _ _ _ this len, of 0] that holds_file show ?thesis
      by (fastforce simp: isr_receive_file_uncompressed_def file_rel_def)
  qed
  with tx show ?thesis by blast
qed

theorem copy_uncompressed_witness:
  "\<exists>s' h'. isr_transmit_file_uncompressed (sock0 []) (host0 [([''a''], File [1, 2, 3])]) \<lparr>fd_path = [''a''], fd_pos = 0\<rparr> =
      (6, s', h') \<and>
    (\<exists>t' e' g'. isr_receive_file_uncompressed (sock0 (tx s')) (host0 [([''b''], File [])]) \<lparr>fd_path = [''b''], fd_pos = 0\<rparr> 3 =
       (6, t', e', g') \<and> node_at g' [''b''] = Some (File [1, 2, 3]))"
proof -
  obtain s' h' w where 1: "isr_transmit_file_uncompressed (sock0 []) (host0 [([''a''], File [1, 2, 3])]) \<lparr>fd_path = [''a''], fd_pos = 0\<rparr> =
      (6, s', h')" "tx s' = w"
    and 2: "\<forall>t g e rest. sock_ok t \<and> pending t = w @ rest \<and> holds g e [] \<and> wr_live g \<longrightarrow>
      (\<exists>t' e' g'. isr_receive_file_uncompressed t g e 3 = (6, t', e', g') \<and>
        node_at g' (fd_path e) = Some (File [1, 2, 3]) \<and> same_but (fd_path e) g g' \<and> pending t' = rest)"
    using copy_uncompressed [of "host0 [([''a''], File [1, 2, 3])]" "\<lparr>fd_path = [''a''], fd_pos = 0\<rparr>" "[1, 2, 3]" "sock0 []"]
    by auto
  from 2 [rule_format, of "sock0 w" "[]" "host0 [([''b''], File [])]" "\<lparr>fd_path = [''b''], fd_pos = 0\<rparr>"] 1
  show ?thesis by (auto simp: holds_def)
qed

text \<open>
  C9. A file copied with compression, in blocks of any size the codec takes: the stream is a
  sequence of LZ4 blocks for consecutive pieces of the file, the receiver makes the same file
  from it and nothing else, no buffer overflows on either side, and both return the sum of the
  bytes.
\<close>

theorem copy_compressed:
  assumes "node_at h (fd_path f) = Some (File bs)" "fd_pos f = 0" "rd_live h" "tx_live s" "length bs < 2 ^ 64"
    and "block_size_ok b" "malloc h (unat b) \<noteq> None" "malloc h (nat (LZ4_compressBound (int (unat b)))) \<noteq> None"
  shows "\<exists>s' h' w. isr_transmit_file_compressed s h f b = Some (sint (isr_count_byte_values bs), s', h') \<and>
    comp_frames (unat b) bs w \<and> tx s' = tx s @ w @ enc_u64 (isr_count_byte_values bs) \<and>
    (\<forall>t g e rest. sock_ok t \<and> pending t = w @ enc_u64 (isr_count_byte_values bs) @ rest \<and> holds g e [] \<and>
        wr_live g \<and> heap_ok g \<and> malloc g (unat b) \<noteq> None \<and>
        malloc g (nat (LZ4_compressBound (int (unat b)))) \<noteq> None \<longrightarrow>
      (\<exists>t' e' g'. isr_receive_file_compressed t g e b (word_of_nat (length bs)) =
          Some (sint (isr_count_byte_values bs), t', e', g') \<and>
        node_at g' (fd_path e) = Some (File bs) \<and> same_but (fd_path e) g g' \<and> pending t' = rest))"
proof -
  let ?c = "isr_count_byte_values bs" and ?len = "word_of_nat (length bs) :: u64"
  note ti = to_int_block_size [OF assms(6)]
  obtain s' h' w where tx: "isr_transmit_file_compressed s h f b = Some (sint ?c, s', h')"
    "comp_frames (unat b) bs w" "tx s' = tx s @ w @ enc_u64 ?c"
    using tx_compressed_live [OF assms(1,3,4,6), of 0] unread_start [OF assms(1,2)] assms(7,8)
    unfolding isr_transmit_file_compressed_def ti by (auto simp: Let_def)
  have "\<exists>t' e' g'. isr_receive_file_compressed t g e b ?len = Some (sint ?c, t', e', g') \<and>
      node_at g' (fd_path e) = Some (File bs) \<and> same_but (fd_path e) g g' \<and> pending t' = rest"
    if t: "sock_ok t" "pending t = w @ enc_u64 ?c @ rest" "holds g e []" "wr_live g" "heap_ok g"
      "malloc g (unat b) \<noteq> None" "malloc g (nat (LZ4_compressBound (int (unat b)))) \<noteq> None" for t g e rest
  proof -
    from t(6,7) obtain da ca where m: "malloc g (unat b) = Some da"
      "malloc g (nat (LZ4_compressBound (to_int (int (unat b))))) = Some ca"
      unfolding ti by blast
    note bufs = buffers_malloc [OF t(5) m(2,1)]
    have len: "length bs \<le> unat ?len" using assms(5) by simp
    obtain t1 e1 g1 where 1: "rx_compressed t g e b (nat (LZ4_compressBound (to_int (int (unat b))))) ca da ?len 0 =
        rx_compressed t1 g1 e1 b (nat (LZ4_compressBound (to_int (int (unat b))))) ca da 0 ?c"
      "pending t1 = enc_u64 ?c @ rest" "sock_ok t1" "holds g1 e1 bs" "file_rel g e g1 e1"
      using rx_frames [OF tx(2) assms(6) bufs len t(1,3,4,2), of 0] by auto
    obtain t2 where "rx_checksum t1 ?c = (sint ?c, t2)" "pending t2 = rest"
      using rx_checksum_ok [OF 1(3,2), of ?c] by auto
    then have "isr_receive_file_compressed t g e b ?len = Some (sint ?c, t2, e1, g1)"
      using m 1(1) by (simp add: isr_receive_file_compressed_def Let_def rx_compressed.simps [of t1])
    with 1 holds_file [OF 1(4,5)] \<open>pending t2 = rest\<close> show ?thesis by (auto simp: file_rel_def)
  qed
  with tx show ?thesis by blast
qed

theorem copy_compressed_witness:
  "\<exists>s' h'. isr_transmit_file_compressed (sock0 []) (host0 [([''a''], File [1, 2, 3])]) \<lparr>fd_path = [''a''], fd_pos = 0\<rparr> 2 =
      Some (6, s', h') \<and>
    (\<exists>t' e' g'. isr_receive_file_compressed (sock0 (tx s')) (host0 [([''b''], File [])]) \<lparr>fd_path = [''b''], fd_pos = 0\<rparr> 2 3 =
       Some (6, t', e', g') \<and> node_at g' [''b''] = Some (File [1, 2, 3]))"
proof -
  obtain s' h' w where 1: "isr_transmit_file_compressed (sock0 []) (host0 [([''a''], File [1, 2, 3])]) \<lparr>fd_path = [''a''], fd_pos = 0\<rparr> 2 =
      Some (6, s', h')" "tx s' = w @ enc_u64 6"
    and 2: "\<forall>t g e rest. sock_ok t \<and> pending t = w @ enc_u64 6 @ rest \<and> holds g e [] \<and> wr_live g \<and> heap_ok g \<and>
        malloc g 2 \<noteq> None \<and> malloc g 18 \<noteq> None \<longrightarrow>
      (\<exists>t' e' g'. isr_receive_file_compressed t g e 2 3 = Some (6, t', e', g') \<and>
        node_at g' (fd_path e) = Some (File [1, 2, 3]) \<and> same_but (fd_path e) g g' \<and> pending t' = rest)"
    using copy_compressed [of "host0 [([''a''], File [1, 2, 3])]" "\<lparr>fd_path = [''a''], fd_pos = 0\<rparr>" "[1, 2, 3]" "sock0 []" 2]
    by (auto simp: block_size_ok_def LZ4_compressBound_def)
  from 2 [rule_format, of "sock0 (w @ enc_u64 6)" "[]" "host0 [([''b''], File [])]" "\<lparr>fd_path = [''b''], fd_pos = 0\<rparr>"] 1
  show ?thesis by (auto simp: holds_def)
qed

text \<open>
  C24. What a successful uncompressed reception means, whatever the peer sent and however the
  writes went: the file holds exactly as many bytes as announced, they are the next bytes of
  the stream, followed by their sum, and nothing else on the disk changed.
\<close>

theorem receive_uncompressed_integrity:
  assumes "holds h f []" "isr_receive_file_uncompressed s h f n = (r, s', f', h')" "r \<noteq> - 1" "r \<noteq> - 2"
  shows "\<exists>bs. node_at h' (fd_path f) = Some (File bs) \<and> length bs = unat n \<and>
    r = sint (isr_count_byte_values bs) \<and>
    pending s = bs @ enc_u64 (isr_count_byte_values bs) @ pending s' \<and> same_but (fd_path f) h h'"
proof -
  obtain data rest where d: "file_rel h f h' f'" "pending s = data @ rest" "holds h' f' ([] @ data)"
    and fin: "length data = unat n" "r = sint (0 + isr_count_byte_values data)"
      "rest = enc_u64 (0 + isr_count_byte_values data) @ pending s'"
    using rx_uncompressed_inv [OF assms(1) assms(2) [unfolded isr_receive_file_uncompressed_def]] assms(3,4)
    by blast
  have "node_at h' (fd_path f) = Some (File data)" using holds_file [OF d(3,1)] by simp
  moreover have "pending s = data @ enc_u64 (isr_count_byte_values data) @ pending s'"
    using d(2) fin(3) by simp
  ultimately show ?thesis using d(1) fin(1,2) by (auto simp: file_rel_def)
qed

theorem receive_uncompressed_integrity_witness:
  "\<exists>bs. node_at (snd (snd (snd (isr_receive_file_uncompressed (sock0 ([7] @ enc_u64 7))
      (host0 [([''b''], File [])]) \<lparr>fd_path = [''b''], fd_pos = 0\<rparr> 1)))) [''b''] = Some (File bs) \<and>
    length bs = 1"
proof -
  let ?s = "sock0 ([7] @ enc_u64 7)" and ?h = "host0 [([''b''], File [])]"
    and ?f = "\<lparr>fd_path = [''b''], fd_pos = 0\<rparr>"
  have h: "holds ?h ?f []" by (simp add: holds_def)
  have "\<exists>s' f' h'. rx_uncompressed ?s ?h ?f 1 0 =
      (if 7 = 0 + isr_count_byte_values [7] then sint (7 :: u64) else - 2, s', f', h')"
    using rx_uncompressed_ok [of ?s ?h ?f "[]" "[7]" 7 "[]" 1 0] h by (simp only: sock0_simps host0_simps) auto
  then obtain s' f' h' where e: "isr_receive_file_uncompressed ?s ?h ?f 1 = (7, s', f', h')"
    by (auto simp: isr_receive_file_uncompressed_def)
  obtain bs where "node_at h' (fd_path ?f) = Some (File bs)" "length bs = unat (1 :: u64)"
    using receive_uncompressed_integrity [OF h e] by auto
  with e show ?thesis by auto
qed

text \<open>
  C11. The compressed reception, whatever the peer sends: the only undefined behaviour is the
  overflow of the block buffer, on a stream that, read block by block, announces a block larger
  than it (\<open>overruns\<close>). In every other case the file is the only thing that changed, and success
  means that it holds the announced number of bytes modulo $2^{64}$ and that the stream carried
  their sum.
\<close>

theorem receive_compressed_outcome:
  assumes "holds h f []" "heap_ok h"
  shows "case isr_receive_file_compressed s h f b n of
      None \<Rightarrow> overruns (unat b) (nat (LZ4_compressBound (to_int (int (unat b))))) n (pending s)
    | Some (r, s', f', h') \<Rightarrow> same_but (fd_path f) h h' \<and>
        (\<exists>bs. node_at h' (fd_path f) = Some (File bs) \<and>
          (r = - 1 \<or> r = - 2 \<or> word_of_nat (length bs) = n \<and> r = sint (isr_count_byte_values bs) \<and>
           (\<exists>pre. pending s = pre @ enc_u64 (isr_count_byte_values bs) @ pending s')))"
  by (rule isr_receive_file_compressed_cases [OF assms])

theorem receive_compressed_outcome_witness:
  "\<exists>r s' f' h'. isr_receive_file_compressed (sock0 (concat (replicate 10 [0, 0, 0, 2, 0x10, 7])))
      (host0 [([''b''], File [])]) \<lparr>fd_path = [''b''], fd_pos = 0\<rparr> 1 10 = Some (r, s', f', h') \<and>
    same_but [''b''] (host0 [([''b''], File [])]) h' \<and> (\<exists>bs. node_at h' [''b''] = Some (File bs))"
proof -
  let ?s = "sock0 (concat (replicate 10 [0, 0, 0, 2, 0x10, 7]))"
    and ?h = "host0 [([''b''], File [])]" and ?f = "\<lparr>fd_path = [''b''], fd_pos = 0\<rparr>"
  have "holds ?h ?f []" by (simp add: holds_def)
  note out = receive_compressed_outcome [OF this host0_simps(4), where s = ?s and b = 1 and n = 10]
  have "nat (LZ4_compressBound (to_int (int (unat (1 :: u32))))) = 17"
    by (simp add: to_int_def LZ4_compressBound_def)
  moreover have "\<not> overruns (unat (1 :: u32)) 17 10 (concat (replicate 10 [0, 0, 0, 2, 0x10, 7]))"
    by code_simp
  ultimately have "\<not> overruns (unat (1 :: u32)) (nat (LZ4_compressBound (to_int (int (unat (1 :: u32)))))) 10 (pending ?s)"
    by (simp only: sock0_simps not_False_eq_True)
  with out show ?thesis by (auto simp del: sock0_simps split: option.splits)
qed

text \<open>
  C30. The overflow happens: a peer that announces a block longer than the buffer, and sends more
  than the buffer holds, makes \<open>isr_receive_file_compressed\<close> write past the end of it.
\<close>

theorem receive_compressed_overflow:
  assumes "sock_ok s" "pending s = enc_u32 m @ payload" "n \<noteq> 0"
    and "nat (LZ4_compressBound (to_int (int (unat b)))) < unat m"
    and "nat (LZ4_compressBound (to_int (int (unat b)))) < length payload"
    and "malloc h (unat b) \<noteq> None" "malloc h (nat (LZ4_compressBound (to_int (int (unat b))))) \<noteq> None"
  shows "isr_receive_file_compressed s h f b n = None"
proof -
  obtain s1 where "net_recv_exact s 4 = (Some (enc_u32 m), s1)" "pending s1 = payload"
    using tcp_u32.recv_frame [OF assms(1,2) TrueI] by metis
  with assms(3-7) show ?thesis
    by (auto simp: isr_receive_file_compressed_def Let_def rx_compressed.simps [of s] recv_into_def)
qed

theorem receive_compressed_overflow_witness:
  "isr_receive_file_compressed (sock0 (enc_u32 100 @ replicate 50 0)) (host0 [([''b''], File [])])
     \<lparr>fd_path = [''b''], fd_pos = 0\<rparr> 1 1 = None"
  by (rule receive_compressed_overflow [where m = 100 and payload = "replicate 50 0"])
    (simp_all add: to_int_def LZ4_compressBound_def)

text \<open>
  C32. A checksum that does not match is reported as \<open>-2\<close>, after the bytes were written: the
  file keeps the corrupt content.
\<close>

theorem receive_uncompressed_mismatch:
  assumes "sock_ok s" "pending s = bs @ enc_u64 w @ rest" "length bs = unat n" "w \<noteq> isr_count_byte_values bs"
    and "holds h f []" "wr_live h"
  shows "\<exists>s' f' h'. isr_receive_file_uncompressed s h f n = (- 2, s', f', h') \<and>
    node_at h' (fd_path f) = Some (File bs) \<and> pending s' = rest"
  using rx_uncompressed_ok [OF assms(1,5,6,2,3), of 0] assms(4) holds_file [of _ _ bs h f]
  by (auto simp: isr_receive_file_uncompressed_def)

theorem receive_uncompressed_mismatch_witness:
  "\<exists>s' f' h'. isr_receive_file_uncompressed (sock0 ([7] @ enc_u64 8)) (host0 [([''b''], File [])])
     \<lparr>fd_path = [''b''], fd_pos = 0\<rparr> 1 = (- 2, s', f', h') \<and> node_at h' [''b''] = Some (File [7])"
  using receive_uncompressed_mismatch [of "sock0 ([7] @ enc_u64 8)" "[7]" 8 "[]" 1
    "host0 [([''b''], File [])]" "\<lparr>fd_path = [''b''], fd_pos = 0\<rparr>"]
  by (auto simp: holds_def)

text \<open>
  C33. With compression a failing \<open>read\<close> is taken for the end of the file, wherever it comes: after
  any number of blocks that were read in full or in part, the sender has sent the frames of the
  bytes it had so far, closes the transfer with the checksum of these, and reports success.
\<close>

theorem transmit_compressed_read_error:
  assumes "node_at h (fd_path f) = Some (File bs)" "fd_pos f = 0" "tx_live s"
    and "rd_sched h = map Part ks @ IoErr # es" "0 \<notin> set ks" "read_total (unat b) ks \<le> length bs"
    and "block_size_ok b" "malloc h (unat b) \<noteq> None" "malloc h (nat (LZ4_compressBound (int (unat b)))) \<noteq> None"
  shows "\<exists>s' h' w. isr_transmit_file_compressed s h f b =
      Some (sint (isr_count_byte_values (take (read_total (unat b) ks) bs)), s', h') \<and>
    comp_frames (unat b) (take (read_total (unat b) ks) bs) w \<and>
    tx s' = tx s @ w @ enc_u64 (isr_count_byte_values (take (read_total (unat b) ks) bs))"
  using tx_compressed_fails_reading [OF assms(1,3,7,4,5), of 0] unread_start [OF assms(1,2)] assms(6,8,9)
  unfolding isr_transmit_file_compressed_def to_int_block_size [OF assms(7)] by (auto simp: Let_def)

theorem transmit_compressed_read_error_witness:
  "\<exists>s' h' w. isr_transmit_file_compressed (sock0 []) ((host0 [([''a''], File [1, 2, 3, 4, 5])])\<lparr>rd_sched := [Part 2, Part 1, IoErr]\<rparr>)
     \<lparr>fd_path = [''a''], fd_pos = 0\<rparr> 1024 = Some (6, s', h') \<and> comp_frames 1024 [1, 2, 3] w \<and> tx s' = w @ enc_u64 6"
  using transmit_compressed_read_error [of "(host0 [([''a''], File [1, 2, 3, 4, 5])])\<lparr>rd_sched := [Part 2, Part 1, IoErr]\<rparr>"
    "\<lparr>fd_path = [''a''], fd_pos = 0\<rparr>" "[1, 2, 3, 4, 5]" "sock0 []" "[2, 1]" "[]" 1024]
  by (simp add: host0_def node_at_def malloc_def read_total_def block_size_ok_def LZ4_compressBound_def)

text \<open>
  C31. The announced size is no bound on what is written: when a block decompresses to more than
  the rest of the file, \<open>remaining\<close> wraps around and the receiver takes every block that
  follows, until the peer closes the connection.
\<close>

theorem receive_compressed_overshoot:
  assumes "sock_ok s" "pending s = enc_u32 (word_of_nat (length blk)) @ blk @ w"
    and "is_block src blk" "length src \<le> unat b" "int (length blk) \<le> LZ4_compressBound (int (unat b))"
    and "comp_frames (unat b) data w" "0 < unat n" "unat n < length src"
    and "length src + length data < 2 ^ 64" "block_size_ok b" "holds h f []" "wr_live h" "heap_ok h"
    and "malloc h (unat b) \<noteq> None" "malloc h (nat (LZ4_compressBound (to_int (int (unat b))))) \<noteq> None"
  shows "\<exists>s' f' h'. isr_receive_file_compressed s h f b n = Some (- 1, s', f', h') \<and>
    node_at h' (fd_path f) = Some (File (src @ data))"
proof -
  let ?cs = "nat (LZ4_compressBound (to_int (int (unat b))))"
  obtain ca da where m: "malloc h ?cs = Some ca" "malloc h (unat b) = Some da" using assms(14,15) by auto
  note bufs = buffers_malloc [OF assms(13) m]
  have src: "src \<noteq> []" "n \<noteq> 0" using assms(7,8) by auto
  have p: "pending s = enc_u32 (word_of_nat (length blk)) @ blk @ w @ []" using assms(2) by simp
  let ?rem = "n - word_of_nat (length src)"
  obtain s1 f1 h1 where 1: "rx_compressed s h f b ?cs ca da n 0 =
      rx_compressed s1 h1 f1 b ?cs ca da ?rem (0 + isr_count_byte_values src)"
    "pending s1 = w @ []" "sock_ok s1" "holds h1 f1 ([] @ src)" "wr_live h1" "file_rel h f h1 f1"
    using rx_frame [OF assms(10) bufs src(1) assms(4,3,5) src(2) assms(1,11,12) p] by blast
  have "unat ?rem = 2 ^ 64 + unat n - length src"
    using assms(8,9) by (simp add: unat_sub_if_size unat_of_nat word_size)
  then have rem: "length data \<le> unat ?rem" "unat ?rem \<noteq> length data" using assms(7,9) by linarith+
  obtain s2 f2 h2 where 2: "rx_compressed s1 h1 f1 b ?cs ca da ?rem (0 + isr_count_byte_values src) =
      rx_compressed s2 h2 f2 b ?cs ca da (?rem - word_of_nat (length data))
        (0 + isr_count_byte_values src + isr_count_byte_values data)"
    "pending s2 = []" "sock_ok s2" "holds h2 f2 (([] @ src) @ data)" "file_rel h1 f1 h2 f2"
    using rx_frames [OF assms(6,10) bufs rem(1) 1(3,4,5,2)] by blast
  have "?rem - word_of_nat (length data) \<noteq> 0"
    using rem assms(9) by (auto simp: unat_of_nat)
  moreover obtain s3 where "net_recv_exact s2 4 = (None, s3)"
    using tcp.recv_short [OF 2(3), of 4] 2(2) by (metis length_greater_0_conv list.size(3) zero_less_numeral)
  ultimately have "isr_receive_file_compressed s h f b n = Some (- 1, s3, f2, h2)"
    using m 1(1) 2(1) by (simp add: isr_receive_file_compressed_def Let_def rx_compressed.simps [of s2])
  moreover have "node_at h2 (fd_path f) = Some (File (src @ data))"
    using holds_file [OF 2(4) file_rel_trans [OF 1(6) 2(5)]] by simp
  ultimately show ?thesis by blast
qed

theorem receive_compressed_overshoot_witness:
  "\<exists>s' f' h'. isr_receive_file_compressed (sock0 (enc_u32 4 @ [0x30, 9, 8, 7])) (host0 [([''b''], File [])])
     \<lparr>fd_path = [''b''], fd_pos = 0\<rparr> 64 1 = Some (- 1, s', f', h') \<and>
     node_at h' [''b''] = Some (File [9, 8, 7])"
proof -
  have "is_block [9, 8, 7] [0x30, 9, 8, 7]"
    by code_simp
  from receive_compressed_overshoot [OF _ _ this _ _ frames_Nil, where s = "sock0 (enc_u32 4 @ [0x30, 9, 8, 7])"
      and b = 64 and n = 1 and h = "host0 [([''b''], File [])]" and f = "\<lparr>fd_path = [''b''], fd_pos = 0\<rparr>"]
  show ?thesis by (simp add: block_size_ok_def holds_def to_int_def LZ4_compressBound_def)
qed

end
