(* ===== verification/Listing.thy ===== *)
theory Listing
  imports File_Transfer
begin

text \<open>
  Directory listings: \<open>isr_transmit_recv_directory_listing\<close> and
  \<open>isr_receive_directory_listing\<close> of \<open>lib/isr.c\<close>, \<open>recv_verified_listing\<close> and
  \<open>isr_cli_parse_directory_listing\<close> of \<open>lib/isr-cli.c\<close>, and the specification they meet: a
  listing is a sequence of entries, each a type byte, a size, a name length and the name.

  Directories hold fewer than $2^{31}$ entries, so the \<open>int\<close> counters do not overflow. What
  \<open>printf\<close> and \<open>fprintf(stderr, ...)\<close> write is kept line by line in the console of the host.
\<close>

section \<open>Entries on the wire\<close>

type_synonym raw_entry = "u8 \<times> u64 \<times> bytes"

fun enc_entry :: "raw_entry \<Rightarrow> bytes" where
  "enc_entry (t, sz, nm) = t # enc_u64 sz @ enc_u16 (word_of_nat (length nm)) @ nm"

definition enc_listing :: "raw_entry list \<Rightarrow> bytes" where
  "enc_listing es = concat (map enc_entry es)"

definition name_length :: "bytes \<Rightarrow> nat" where
  "name_length buf = unat (dec_u16 (take 2 (drop 9 buf)))"

text \<open>The specification of the three loops that walk through a listing.\<close>

function entries_of :: "bytes \<Rightarrow> raw_entry list" where
  "entries_of buf =
     (if length buf < 11 \<or> length buf < 11 + name_length buf then []
      else (hd buf, dec_u64 (take 8 (drop 1 buf)), take (name_length buf) (drop 11 buf)) #
        entries_of (drop (11 + name_length buf) buf))"
  by pat_completeness auto
termination
  by (relation "measure length") auto

declare entries_of.simps [simp del]

lemma length_enc_entry [simp]: "length (enc_entry (t, sz, nm)) = 11 + length nm"
  by simp

lemma enc_entry_fields:
  assumes "length nm < 65536"
  shows "name_length (enc_entry (t, sz, nm) @ bs) = length nm" "hd (enc_entry (t, sz, nm) @ bs) = t"
    "dec_u64 (take 8 (drop 1 (enc_entry (t, sz, nm) @ bs))) = sz"
    "take (length nm) (drop 11 (enc_entry (t, sz, nm) @ bs)) = nm"
  using assms by (simp_all add: name_length_def)

lemma drop_enc_entry: "drop (11 + length nm) (enc_entry (t, sz, nm) @ bs) = bs"
  by (metis append_eq_conv_conj length_enc_entry)

lemma entries_of_enc:
  assumes "\<forall>(t, sz, nm) \<in> set es. length nm < 65536"
  shows "entries_of (enc_listing es) = es"
  using assms
proof (induction es)
  case Nil
  show ?case by (simp add: enc_listing_def entries_of.simps)
next
  case (Cons e es)
  obtain t sz nm where e: "e = (t, sz, nm)" using prod_cases3 by blast
  have enc: "enc_listing (e # es) = enc_entry (t, sz, nm) @ enc_listing es"
    by (simp add: enc_listing_def e)
  have len: "length nm < 65536" using Cons.prems e by simp
  note fs = enc_entry_fields [OF len, of t sz "enc_listing es", folded enc]
  have long: "\<not> (length (enc_listing (e # es)) < 11 \<or> length (enc_listing (e # es)) < 11 + length nm)"
    unfolding enc by (simp del: enc_entry.simps)
  have "entries_of (enc_listing es) = es" using Cons by simp
  then show ?case
    using fs drop_enc_entry [of nm t sz "enc_listing es", folded enc] long by (subst entries_of.simps) (simp add: e)
qed

lemma entry_of_bytes:
  assumes "11 + name_length buf \<le> length buf"
  shows "enc_entry (hd buf, dec_u64 (take 8 (drop 1 buf)), take (name_length buf) (drop 11 buf)) @
    drop (11 + name_length buf) buf = buf"
proof -
  let ?n = "name_length buf"
  have n: "enc_u16 (word_of_nat ?n) = take 2 (drop 9 buf)"
    using assms by (simp add: name_length_def)
  have "take 8 (drop 1 buf) @ take 2 (drop 9 buf) @ take ?n (drop 11 buf) @ drop (11 + ?n) buf = drop 1 buf"
    using take_drop_pieces [of 1 8 9 buf] take_drop_pieces [of 9 2 11 buf] take_drop_pieces [of 11 ?n _ buf]
    by simp
  moreover have "hd buf # drop 1 buf = buf" using assms by (cases buf) auto
  ultimately show ?thesis using n assms by simp
qed

text \<open>The entries found are a listing at the start of the buffer, with too little behind it for one more.\<close>

lemma entries_of_bytes:
  obtains rest where "buf = enc_listing (entries_of buf) @ rest"
    "length rest < 11 \<or> length rest < 11 + name_length rest"
proof (induction buf arbitrary: thesis rule: entries_of.induct)
  case (1 buf)
  show ?case
  proof (cases "length buf < 11 \<or> length buf < 11 + name_length buf")
    case True
    then show ?thesis using 1(2) [of buf] by (simp add: entries_of.simps [of buf] enc_listing_def)
  next
    case False
    let ?rest = "drop (11 + name_length buf) buf"
    obtain rest where r: "?rest = enc_listing (entries_of ?rest) @ rest"
      "length rest < 11 \<or> length rest < 11 + name_length rest"
      using 1(1) [OF False] by blast
    have "enc_listing (entries_of buf) =
        enc_entry (hd buf, dec_u64 (take 8 (drop 1 buf)), take (name_length buf) (drop 11 buf)) @
        enc_listing (entries_of ?rest)"
      using False by (subst entries_of.simps) (simp add: enc_listing_def del: enc_entry.simps)
    with r(1) entry_of_bytes [of buf] False have "buf = enc_listing (entries_of buf) @ rest"
      by (metis append.assoc not_less)
    with r(2) show ?thesis using 1(2) by blast
  qed
qed

section \<open>The server sends a listing\<close>

record entry_t =
  e_name :: string
  e_size :: u64
  e_is_dir :: u8

definition sizeof_entry_t :: nat where
  "sizeof_entry_t = 272"

text \<open>
  The loop over \<open>readdir\<close>. The array grows by doubling; the \<open>None\<close> is a failing
  \<open>realloc\<close>. A failing \<open>isr_stat\<close> leaves the two variables at zero.
\<close>

fun collect_entries ::
    "host \<Rightarrow> string \<Rightarrow> string list \<Rightarrow> entry_t list \<Rightarrow> nat \<Rightarrow> u64 \<Rightarrow> (entry_t list \<times> u64) option" where
  "collect_entries h path [] entries capacity total_size = Some (entries, total_size)"
| "collect_entries h path (d_name # ds) entries capacity total_size =
     (if d_name = ''.'' \<or> d_name = ''..'' then collect_entries h path ds entries capacity total_size
      else
        (let full = capacity \<le> length entries;
             capacity' = (if full then capacity * 2 else capacity) in
         if full \<and> malloc h (capacity' * sizeof_entry_t) = None then None
         else
           (let name = copy_n 256 d_name;
                full_path = fst (snprintf_path ISR_PATH_MAX path d_name);
                (is_dir, fsize) = (case isr_stat h full_path of None \<Rightarrow> (False, 0) | Some r \<Rightarrow> r);
                nlen = (word_of_nat (length name) :: u16)
            in collect_entries h path ds
                 (entries @ [\<lparr>e_name = name, e_size = fsize, e_is_dir = (if is_dir then 1 else 0)\<rparr>])
                 capacity' (total_size + 11 + ucast nlen))))"

fun tx_entries :: "sock \<Rightarrow> entry_t list \<Rightarrow> u64 \<Rightarrow> u64 option \<times> sock" where
  "tx_entries s [] checksum = (Some checksum, s)"
| "tx_entries s (e # es) checksum =
     (let nlen = (word_of_nat (length (e_name e)) :: u16);
          hdr = e_is_dir e # enc_u64 (e_size e) @ enc_u16 nlen;
          name = take (unat nlen) (bytes_of (e_name e));
          checksum' = checksum + isr_count_byte_values hdr + isr_count_byte_values name in
      case net_send_exact s hdr of
        (False, s1) \<Rightarrow> (None, s1)
      | (True, s1) \<Rightarrow>
          if 0 < nlen then
            (case net_send_exact s1 name of
               (False, s2) \<Rightarrow> (None, s2) | (True, s2) \<Rightarrow> tx_entries s2 es checksum')
          else tx_entries s1 es checksum')"

definition isr_transmit_recv_directory_listing :: "sock \<Rightarrow> host \<Rightarrow> string \<Rightarrow> int \<times> sock" where
  "isr_transmit_recv_directory_listing s h path =
     (if malloc h (256 * sizeof_entry_t) = None then (- 1, s)
      else
        (case opendir h path of
           None \<Rightarrow> (- 1, s)
         | Some dir \<Rightarrow>
             (case collect_entries h path dir [] 256 0 of
                None \<Rightarrow> (- 1, s)
              | Some (entries, total_size) \<Rightarrow>
                  (case isr_send_recv_confirmation s ISR_RECV_TYPE_DIRECTORY total_size of
                     (False, s1) \<Rightarrow> (- 1, s1)
                   | (True, s1) \<Rightarrow>
                       (case net_recv_exact s1 1 of
                          (None, s2) \<Rightarrow> (- 1, s2)
                        | (Some go, s2) \<Rightarrow>
                            if hd go = ISR_RECV_UNABLE then (0, s2)
                            else
                              (case tx_entries s2 entries 0 of
                                 (None, s3) \<Rightarrow> (- 1, s3)
                               | (Some checksum, s3) \<Rightarrow>
                                   (case net_send_exact s3 (enc_u64 checksum) of
                                      (False, s4) \<Rightarrow> (- 1, s4) | (True, s4) \<Rightarrow> (0, s4))))))))"

text \<open>The entries of a directory, as a list without the loop.\<close>

definition served_entry :: "host \<Rightarrow> string \<Rightarrow> string \<Rightarrow> entry_t" where
  "served_entry h path d =
     (case isr_stat h (copy_n ISR_PATH_MAX (join_path path d)) of
        None \<Rightarrow> \<lparr>e_name = copy_n 256 d, e_size = 0, e_is_dir = 0\<rparr>
      | Some (is_dir, fsize) \<Rightarrow> \<lparr>e_name = copy_n 256 d, e_size = fsize, e_is_dir = (if is_dir then 1 else 0)\<rparr>)"

definition served :: "host \<Rightarrow> string \<Rightarrow> string list \<Rightarrow> entry_t list" where
  "served h path dir = map (served_entry h path) (filter (\<lambda>d. d \<noteq> ''.'' \<and> d \<noteq> ''..'') dir)"

definition raw :: "entry_t \<Rightarrow> raw_entry" where
  "raw e = (e_is_dir e, e_size e, bytes_of (e_name e))"

lemma ucast_u16_of_nat: "n < 65536 \<Longrightarrow> (ucast (word_of_nat n :: u16) :: u64) = word_of_nat n"
  by (simp add: word_unat_eq_iff unsigned_ucast_eq take_bit_nat_eq_self)

lemma served_Cons:
  "served h path (d # ds) =
     (if d = ''.'' \<or> d = ''..'' then [] else [served_entry h path d]) @ served h path ds"
  by (auto simp: served_def)

lemma served_name: "length (e_name (served_entry h path d)) \<le> 255"
  by (simp add: served_entry_def copy_n_def split: option.splits prod.splits)

lemma length_enc_listing_raw:
  "length (enc_listing (raw e # rs)) = 11 + length (e_name e) + length (enc_listing rs)"
  by (simp add: enc_listing_def raw_def)

text \<open>One turn of the loop.\<close>

lemma collect_entries_step:
  fixes h :: host and path d :: string and capacity :: nat and entries :: "entry_t list"
  assumes "d \<noteq> ''.''" "d \<noteq> ''..''"
  defines "e \<equiv> served_entry h path d"
    and "cap \<equiv> if capacity \<le> length entries then capacity * 2 else capacity"
  shows "collect_entries h path (d # ds) entries capacity acc =
    (if capacity \<le> length entries \<and> malloc h (cap * sizeof_entry_t) = None then None
     else collect_entries h path ds (entries @ [e]) cap (acc + 11 + word_of_nat (length (e_name e))))"
proof -
  have "length (e_name e) < 65536" using served_name [of h path d] unfolding e_def by linarith
  with assms(1,2) show ?thesis
    unfolding e_def cap_def
    by (auto simp: Let_def served_entry_def snprintf_path_def ucast_u16_of_nat split: option.splits prod.splits)
qed

lemma collect_entries_served:
  assumes "\<forall>n \<le> 2 * sizeof_entry_t * (length entries + length ds). malloc h n \<noteq> None"
  shows "collect_entries h path ds entries capacity acc =
    Some (entries @ served h path ds, acc + word_of_nat (length (enc_listing (map raw (served h path ds)))))"
  using assms
proof (induction ds arbitrary: entries capacity acc)
  case Nil
  show ?case by (simp add: served_def enc_listing_def)
next
  case (Cons d ds)
  show ?case
  proof (cases "d = ''.'' \<or> d = ''..''")
    case True
    with Cons show ?thesis by (auto simp: served_Cons)
  next
    case False
    let ?e = "served_entry h path d"
    let ?cap = "if capacity \<le> length entries then capacity * 2 else capacity"
    have "?cap * sizeof_entry_t \<le> 2 * sizeof_entry_t * (length entries + length (d # ds))"
      if "capacity \<le> length entries"
      using that mult_le_mono1 [of "capacity * 2" "2 * (length entries + length (d # ds))" sizeof_entry_t]
      by (simp add: algebra_simps)
    then have grow: "\<not> (capacity \<le> length entries \<and> malloc h (?cap * sizeof_entry_t) = None)"
      using Cons.prems by blast
    have step: "collect_entries h path (d # ds) entries capacity acc =
        collect_entries h path ds (entries @ [?e]) ?cap (acc + 11 + word_of_nat (length (e_name ?e)))"
      using False grow collect_entries_step [of d h path ds entries capacity acc]
      by (simp del: collect_entries.simps not_None_eq)
    have "\<forall>n \<le> 2 * sizeof_entry_t * (length (entries @ [?e]) + length ds). malloc h n \<noteq> None"
      using Cons.prems by simp
    from Cons.IH [OF this, of ?cap "acc + 11 + word_of_nat (length (e_name ?e))"] show ?thesis
      unfolding step using False by (simp add: served_Cons length_enc_listing_raw add.assoc)
  qed
qed

text \<open>Short of memory, the loop gives up; otherwise it has the same result.\<close>

lemma collect_entries_cases:
  "collect_entries h path ds entries capacity acc = None \<or>
   collect_entries h path ds entries capacity acc =
     Some (entries @ served h path ds, acc + word_of_nat (length (enc_listing (map raw (served h path ds)))))"
proof (induction ds arbitrary: entries capacity acc)
  case Nil
  show ?case by (simp add: served_def enc_listing_def)
next
  case (Cons d ds)
  show ?case
  proof (cases "d = ''.'' \<or> d = ''..''")
    case True
    with Cons.IH [of entries capacity acc] show ?thesis by (auto simp: served_Cons)
  next
    case False
    let ?e = "served_entry h path d"
    let ?cap = "if capacity \<le> length entries then capacity * 2 else capacity"
    from Cons.IH [of "entries @ [?e]" ?cap "acc + 11 + word_of_nat (length (e_name ?e))"] False
      collect_entries_step [of d h path ds entries capacity acc]
    show ?thesis by (auto simp: served_Cons length_enc_listing_raw add.assoc simp del: collect_entries.simps(2))
  qed
qed

lemma tx_entries_live:
  assumes "tx_live s" "\<forall>e \<in> set es. length (e_name e) \<le> 255"
  shows "\<exists>s'. tx_entries s es c = (Some (c + isr_count_byte_values (enc_listing (map raw es))), s') \<and>
    tx s' = tx s @ enc_listing (map raw es) \<and> pending s' = pending s \<and> sock_ok s' = sock_ok s \<and> tx_live s'"
  using assms
proof (induction es arbitrary: s c)
  case Nil
  then show ?case by (simp add: enc_listing_def)
next
  case (Cons e es)
  let ?nm = "bytes_of (e_name e)"
  let ?hdr = "e_is_dir e # enc_u64 (e_size e) @ enc_u16 (word_of_nat (length ?nm))"
  have len: "length (e_name e) < 65536" using Cons.prems(2) by fastforce
  have enc: "enc_listing (map raw (e # es)) = ?hdr @ ?nm @ enc_listing (map raw es)"
    by (simp add: enc_listing_def raw_def)
  let ?c = "c + isr_count_byte_values ?hdr + isr_count_byte_values ?nm"
  obtain s1 where s1: "net_send_exact s ?hdr = (True, s1)" "tx s1 = tx s @ ?hdr"
    "pending s1 = pending s" "sock_ok s1 = sock_ok s" "tx_live s1"
    using tcp.send_live [OF Cons.prems(1)] .
  obtain s2 where s2: "net_send_exact s1 ?nm = (True, s2)" "tx s2 = tx s1 @ ?nm"
    "pending s2 = pending s1" "sock_ok s2 = sock_ok s1" "tx_live s2"
    using tcp.send_live [OF s1(5)] .
  have all: "take (unat (word_of_nat (length ?nm) :: u16)) ?nm = ?nm" using len by simp
  have empty: "s2 = s1" if "?nm = []" using s2(1) that by (simp add: net_send_exact.simps)
  have zero: "0 < (word_of_nat (length ?nm) :: u16) \<longleftrightarrow> ?nm \<noteq> []"
    using len by (auto simp: word_less_nat_alt bytes_of_def)
  have "tx_entries s (e # es) c = tx_entries s2 es ?c"
    using s1(1) s2(1) all zero empty by (auto simp: Let_def)
  moreover obtain s' where "tx_entries s2 es ?c = (Some (?c + isr_count_byte_values (enc_listing (map raw es))), s')"
    "tx s' = tx s2 @ enc_listing (map raw es)" "pending s' = pending s2" "sock_ok s' = sock_ok s2" "tx_live s'"
    using Cons.IH [OF s2(5), of ?c] Cons.prems(2) by auto
  ultimately show ?case unfolding enc using s1 s2 by (simp add: add.assoc)
qed

lemma transmit_listing_collected:
  assumes "tx_live s" "sock_ok s" "pending s = go # rest" "opendir h path = Some dir"
    and "malloc h (256 * sizeof_entry_t) \<noteq> None" "collect_entries h path dir [] 256 0 \<noteq> None"
  defines "listing \<equiv> enc_listing (map raw (served h path dir))"
  shows "\<exists>s'. isr_transmit_recv_directory_listing s h path = (0, s') \<and> pending s' = rest \<and> sock_ok s' \<and> tx_live s' \<and>
    tx s' = tx s @ enc_confirmation \<lparr>conf_type = ISR_RECV_TYPE_DIRECTORY, conf_length = word_of_nat (length listing)\<rparr> @
      (if go = ISR_RECV_UNABLE then [] else listing @ enc_u64 (isr_count_byte_values listing))"
proof -
  let ?conf = "enc_confirmation \<lparr>conf_type = ISR_RECV_TYPE_DIRECTORY, conf_length = word_of_nat (length listing)\<rparr>"
  have "collect_entries h path dir [] 256 0 = Some (served h path dir, word_of_nat (length listing))"
    using collect_entries_cases [of h path dir "[]" 256 0] assms(6) unfolding listing_def by simp
  note start = assms(5,4) this
  obtain s1 where s1: "net_send_exact s ?conf = (True, s1)" "tx s1 = tx s @ ?conf"
    "pending s1 = pending s" "sock_ok s1 = sock_ok s" "tx_live s1"
    using tcp.send_live [OF assms(1)] .
  have ok1: "sock_ok s1" "pending s1 = [go] @ rest" using s1 assms(2,3) by simp_all
  obtain s2 where s2: "net_recv_exact s1 1 = (Some [go], s2)" "pending s2 = rest" "sock_ok s2" "tx s2 = tx s1"
    "tx_live s2 = tx_live s1"
    using tcp.recv_exact [OF ok1, of 1] by auto
  show ?thesis
  proof (cases "go = ISR_RECV_UNABLE")
    case True
    with start s1 s2 show ?thesis
      by (auto simp: isr_transmit_recv_directory_listing_def isr_send_recv_confirmation_def)
  next
    case False
    have "\<forall>e \<in> set (served h path dir). length (e_name e) \<le> 255"
      by (auto simp: served_def served_name)
    then obtain s3 where s3: "tx_entries s2 (served h path dir) 0 = (Some (isr_count_byte_values listing), s3)"
      "tx s3 = tx s2 @ listing" "pending s3 = pending s2" "sock_ok s3 = sock_ok s2" "tx_live s3"
      using tx_entries_live [of s2 "served h path dir" 0] s1(5) s2(5) unfolding listing_def by auto
    obtain s4 where "net_send_exact s3 (enc_u64 (isr_count_byte_values listing)) = (True, s4)"
      "tx s4 = tx s3 @ enc_u64 (isr_count_byte_values listing)"
      "pending s4 = pending s3" "sock_ok s4 = sock_ok s3" "tx_live s4"
      using tcp.send_live [OF s3(5)] .
    with False start s1 s2 s3 show ?thesis
      by (simp add: isr_transmit_recv_directory_listing_def isr_send_recv_confirmation_def)
  qed
qed

lemma isr_transmit_recv_directory_listing_live:
  assumes "tx_live s" "sock_ok s" "pending s = go # rest" "opendir h path = Some dir"
    and "\<forall>n \<le> 2 * sizeof_entry_t * (length dir + 256). malloc h n \<noteq> None"
  defines "listing \<equiv> enc_listing (map raw (served h path dir))"
  shows "\<exists>s'. isr_transmit_recv_directory_listing s h path = (0, s') \<and> pending s' = rest \<and> sock_ok s' \<and> tx_live s' \<and>
    tx s' = tx s @ enc_confirmation \<lparr>conf_type = ISR_RECV_TYPE_DIRECTORY, conf_length = word_of_nat (length listing)\<rparr> @
      (if go = ISR_RECV_UNABLE then [] else listing @ enc_u64 (isr_count_byte_values listing))"
  unfolding listing_def
proof (rule transmit_listing_collected [OF assms(1-4)])
  show "malloc h (256 * sizeof_entry_t) \<noteq> None" using assms(5) by simp
  have "\<forall>n \<le> 2 * sizeof_entry_t * (length ([] :: entry_t list) + length dir). malloc h n \<noteq> None"
    using assms(5) by (simp add: distrib_left)
  then show "collect_entries h path dir [] 256 0 \<noteq> None" using collect_entries_served by blast
qed

section \<open>The client takes a listing\<close>

text \<open>The buffer of the listing, checked against the sum that follows it.\<close>

definition recv_verified_listing :: "sock \<Rightarrow> host \<Rightarrow> u64 \<Rightarrow> bytes option \<times> sock \<times> host" where
  "recv_verified_listing s h effective_length =
     (if malloc h (unat effective_length) = None then (None, s, h)
      else
        (case net_recv_exact s (unat effective_length) of
           (None, s1) \<Rightarrow> (None, s1, h)
         | (Some buf, s1) \<Rightarrow>
             (let checksum = isr_count_byte_values buf in
              case net_recv_exact s1 8 of
                (None, s2) \<Rightarrow> (None, s2, h)
              | (Some wire, s2) \<Rightarrow>
                  if dec_u64 wire \<noteq> checksum then
                    (None, s2, say ''Checksum mismatch for directory listing'' h)
                  else (Some buf, s2, h))))"

record isr_cli_dir_entry =
  de_name :: string
  de_size :: u64
  de_is_directory :: u8

text \<open>The two passes of the parser: counting the entries, then building them.\<close>

function count_entries :: "bytes \<Rightarrow> nat \<Rightarrow> nat \<Rightarrow> nat" where
  "count_entries buf offset count =
     (if offset < length buf then
        if length buf < offset + 11 then count
        else
          (let name_len = unat (dec_u16 (take 2 (drop (offset + 9) buf))) in
           if length buf < offset + 11 + name_len then count
           else count_entries buf (offset + 11 + name_len) (count + 1))
      else count)"
  by pat_completeness auto
termination
  by (relation "measure (\<lambda>(buf, offset, count). length buf - offset)") auto

function parse_entries ::
    "host \<Rightarrow> bytes \<Rightarrow> nat \<Rightarrow> nat \<Rightarrow> isr_cli_dir_entry list \<Rightarrow> isr_cli_dir_entry list option" where
  "parse_entries h buf offset count entries =
     (if offset < length buf \<and> length entries < count then
        if length buf < offset + 11 then Some entries
        else
          (let is_directory = buf ! offset;
               size_be = take 8 (drop (offset + 1) buf);
               name_len = unat (dec_u16 (take 2 (drop (offset + 9) buf))) in
           if length buf < offset + 11 + name_len then Some entries
           else if malloc h (name_len + 1) = None then None
           else
             parse_entries h buf (offset + 11 + name_len) count
               (entries @ [\<lparr>de_name = cstr (take name_len (drop (offset + 11) buf)),
                  de_size = dec_u64 size_be, de_is_directory = is_directory\<rparr>]))
      else Some entries)"
  by pat_completeness auto
termination
  by (relation "measure (\<lambda>(h, buf, offset, count, entries). length buf - offset)") auto

declare count_entries.simps [simp del] parse_entries.simps [simp del]

text \<open>The returned pointer (\<open>None\<close> is \<open>NULL\<close>) and \<open>*entry_count\<close>.\<close>

definition isr_cli_parse_directory_listing ::
    "host \<Rightarrow> bytes \<Rightarrow> isr_cli_dir_entry list option \<times> nat" where
  "isr_cli_parse_directory_listing h buf =
     (let count = count_entries buf 0 0 in
      if count = 0 then (None, 0)
      else if malloc h (count * 24) = None then (None, 0)
      else
        (case parse_entries h buf 0 count [] of
           None \<Rightarrow> (None, 0) | Some entries \<Rightarrow> (Some entries, length entries)))"

text \<open>The entries a client makes of a listing.\<close>

fun cooked :: "raw_entry \<Rightarrow> isr_cli_dir_entry" where
  "cooked (t, sz, nm) = \<lparr>de_name = cstr nm, de_size = sz, de_is_directory = t\<rparr>"

lemma entries_of_at:
  "entries_of (drop off buf) =
     (if length buf < off + 11 \<or> length buf < off + 11 + unat (dec_u16 (take 2 (drop (off + 9) buf))) then []
      else (buf ! off, dec_u64 (take 8 (drop (off + 1) buf)),
          take (unat (dec_u16 (take 2 (drop (off + 9) buf)))) (drop (off + 11) buf)) #
        entries_of (drop (off + 11 + unat (dec_u16 (take 2 (drop (off + 9) buf)))) buf))"
  by (subst entries_of.simps)
    (auto simp: name_length_def hd_drop_conv_nth add.commute add.left_commute add.assoc)

lemma count_entries_of: "count_entries buf off c = c + length (entries_of (drop off buf))"
proof (induction buf off c rule: count_entries.induct)
  case (1 buf off c)
  show ?case
    using 1 by (subst count_entries.simps, subst entries_of_at) (auto simp: Let_def)
qed

lemma parse_entries_of:
  assumes "\<forall>n \<le> 65536. malloc h n \<noteq> None" "count = length acc + length (entries_of (drop off buf))"
  shows "parse_entries h buf off count acc = Some (acc @ map cooked (entries_of (drop off buf)))"
  using assms
proof (induction h buf off count acc rule: parse_entries.induct)
  case (1 h buf off count acc)
  let ?n = "unat (dec_u16 (take 2 (drop (off + 9) buf)))"
  show ?case
  proof (cases "length buf < off + 11 \<or> length buf < off + 11 + ?n")
    case True
    then have "entries_of (drop off buf) = []" by (simp add: entries_of_at)
    with "1.prems"(2) show ?thesis by (simp add: parse_entries.simps [of h buf off])
  next
    case False
    let ?e = "(buf ! off, dec_u64 (take 8 (drop (off + 1) buf)), take ?n (drop (off + 11) buf))"
    have es: "entries_of (drop off buf) = ?e # entries_of (drop (off + 11 + ?n) buf)"
      using False by (subst entries_of_at) simp
    have go: "off < length buf \<and> length acc < count" using False es "1.prems"(2) by auto
    have nm: "malloc h (?n + 1) \<noteq> None"
      using "1.prems"(1) unat_u16_less [of "dec_u16 (take 2 (drop (off + 9) buf))"]
      by (metis Suc_eq_plus1 Suc_leI)
    have cnt: "count = length (acc @ [cooked ?e]) + length (entries_of (drop (off + 11 + ?n) buf))"
      using "1.prems"(2) es by simp
    have "parse_entries h buf off count acc = parse_entries h buf (off + 11 + ?n) count (acc @ [cooked ?e])"
      using go False nm by (subst parse_entries.simps) (auto simp: Let_def)
    moreover have "parse_entries h buf (off + 11 + ?n) count (acc @ [cooked ?e]) =
        Some ((acc @ [cooked ?e]) @ map cooked (entries_of (drop (off + 11 + ?n) buf)))"
      unfolding cooked.simps
      by (rule "1.IH" [OF go _ refl refl refl _ nm "1.prems"(1) cnt [unfolded cooked.simps]]) (use False in auto)
    ultimately show ?thesis using es by simp
  qed
qed

lemma isr_cli_parse_directory_listing_of:
  assumes "\<forall>n \<le> 65536. malloc h n \<noteq> None" "malloc h (length (entries_of buf) * 24) \<noteq> None"
  shows "isr_cli_parse_directory_listing h buf =
    (if entries_of buf = [] then None else Some (map cooked (entries_of buf)), length (entries_of buf))"
  using assms parse_entries_of [OF assms(1), of "length (entries_of buf)" "[]" 0 buf]
  by (auto simp: isr_cli_parse_directory_listing_def count_entries_of)

section \<open>The client prints a listing\<close>

text \<open>\<open>printf\<close> of an unsigned number, plain and padded with blanks to ten places.\<close>

fun udec :: "nat \<Rightarrow> string" where
  "udec n = (if n < 10 then [char_of (48 + n)] else udec (n div 10) @ [char_of (48 + n mod 10)])"

declare udec.simps [simp del]

definition pad10 :: "string \<Rightarrow> string" where
  "pad10 s = replicate (10 - length s) CHR '' '' @ s"

definition entry_line :: "u8 \<Rightarrow> u64 \<Rightarrow> string \<Rightarrow> string" where
  "entry_line type fsize name =
     (if type = 1 then ''  [DIR]  '' @ name else ''  '' @ pad10 (udec (unat fsize)) @ ''  '' @ name)"

function print_entries :: "bytes \<Rightarrow> nat \<Rightarrow> host \<Rightarrow> host" where
  "print_entries buf offset h =
     (if offset < length buf then
        if length buf < offset + 11 then h
        else
          (let type = buf ! offset;
               fsize = dec_u64 (take 8 (drop (offset + 1) buf));
               nlen = unat (dec_u16 (take 2 (drop (offset + 9) buf))) in
           if length buf < offset + 11 + nlen then h
           else
             (let copy_len = (if nlen < ISR_PATH_MAX - 1 then nlen else ISR_PATH_MAX - 1);
                  name = cstr (take copy_len (drop (offset + 11) buf)) in
              print_entries buf (offset + 11 + nlen) (say (entry_line type fsize name) h)))
      else h)"
  by pat_completeness auto
termination
  by (relation "measure (\<lambda>(buf, offset, h). length buf - offset)") auto

declare print_entries.simps [simp del]

definition isr_receive_directory_listing :: "sock \<Rightarrow> host \<Rightarrow> u64 \<Rightarrow> int \<times> sock \<times> host" where
  "isr_receive_directory_listing s h effective_length =
     (if malloc h (unat effective_length) = None then (- 1, s, h)
      else
        (case net_recv_exact s (unat effective_length) of
           (None, s1) \<Rightarrow> (- 1, s1, h)
         | (Some buf, s1) \<Rightarrow>
             (let checksum = isr_count_byte_values buf in
              case net_recv_exact s1 8 of
                (None, s2) \<Rightarrow> (- 1, s2, h)
              | (Some wire, s2) \<Rightarrow>
                  if dec_u64 wire \<noteq> checksum then (- 1, s2, h) else (0, s2, print_entries buf 0 h))))"

text \<open>The line printed for an entry.\<close>

fun line_of :: "raw_entry \<Rightarrow> string" where
  "line_of (t, sz, nm) = entry_line t sz (cstr (take (ISR_PATH_MAX - 1) nm))"

lemma say_console: "say l h = h\<lparr>console := console h @ [l]\<rparr>"
  by (simp add: say_def)

lemma print_entries_of:
  "print_entries buf off h = h\<lparr>console := console h @ map line_of (entries_of (drop off buf))\<rparr>"
proof (induction buf off h rule: print_entries.induct)
  case (1 buf off h)
  let ?n = "unat (dec_u16 (take 2 (drop (off + 9) buf)))"
  let ?m = "if ?n < ISR_PATH_MAX - 1 then ?n else ISR_PATH_MAX - 1"
  show ?case
  proof (cases "length buf < off + 11 \<or> length buf < off + 11 + ?n")
    case True
    then have "entries_of (drop off buf) = []" by (simp add: entries_of_at)
    with True show ?thesis by (subst print_entries.simps) (auto simp: Let_def)
  next
    case False
    let ?e = "(buf ! off, dec_u64 (take 8 (drop (off + 1) buf)), take ?n (drop (off + 11) buf))"
    let ?l = "entry_line (buf ! off) (dec_u64 (take 8 (drop (off + 1) buf))) (cstr (take ?m (drop (off + 11) buf)))"
    have es: "entries_of (drop off buf) = ?e # entries_of (drop (off + 11 + ?n) buf)"
      using False by (subst entries_of_at) simp
    have l: "?l = line_of ?e" by (simp add: min_def)
    have "print_entries buf off h = print_entries buf (off + 11 + ?n) (say ?l h)"
      using False by (subst print_entries.simps) (simp add: Let_def)
    moreover have "print_entries buf (off + 11 + ?n) (say ?l h) =
        (say ?l h)\<lparr>console := console (say ?l h) @ map line_of (entries_of (drop (off + 11 + ?n) buf))\<rparr>"
      by (rule "1.IH" [OF _ _ refl refl refl _ refl refl]) (use False in auto)
    ultimately show ?thesis unfolding es l by (simp add: say_console)
  qed
qed

section \<open>What arrives\<close>

lemma recv_verified_listing_ok:
  assumes "sock_ok s" "pending s = listing @ enc_u64 (isr_count_byte_values listing) @ rest"
    "length listing < 2 ^ 64" "malloc h (length listing) \<noteq> None"
  shows "\<exists>s'. recv_verified_listing s h (word_of_nat (length listing)) = (Some listing, s', h) \<and>
    pending s' = rest \<and> sock_ok s' \<and> tx s' = tx s"
proof -
  obtain s1 where s1: "net_recv_exact s (length listing) = (Some listing, s1)" "sock_ok s1" "tx s1 = tx s"
    "pending s1 = enc_u64 (isr_count_byte_values listing) @ rest"
    using tcp.recv_exact [OF assms(1,2) refl] by metis
  obtain s2 where "net_recv_exact s1 8 = (Some (enc_u64 (isr_count_byte_values listing)), s2)"
    "pending s2 = rest" "sock_ok s2" "tx s2 = tx s1"
    using tcp_u64.recv_frame [OF s1(2,4) TrueI] by metis
  with s1(1,3) assms(3,4) show ?thesis by (simp add: recv_verified_listing_def Let_def)
qed

lemma isr_receive_directory_listing_cases:
  assumes "sock_ok s" "pending s = listing @ enc_u64 c @ rest" "length listing < 2 ^ 64"
    "malloc h (length listing) \<noteq> None"
  shows "\<exists>s'. isr_receive_directory_listing s h (word_of_nat (length listing)) =
      (if c = isr_count_byte_values listing then (0, s', h\<lparr>console := console h @ map line_of (entries_of listing)\<rparr>)
       else (- 1, s', h)) \<and> pending s' = rest"
proof -
  obtain s1 where s1: "net_recv_exact s (length listing) = (Some listing, s1)" "sock_ok s1"
    "pending s1 = enc_u64 c @ rest"
    using tcp.recv_exact [OF assms(1,2) refl] by metis
  obtain s2 where "net_recv_exact s1 8 = (Some (enc_u64 c), s2)" "pending s2 = rest"
    using tcp_u64.recv_frame [OF s1(2,3) TrueI] by metis
  with s1(1) assms(3,4) show ?thesis
    by (auto simp: isr_receive_directory_listing_def Let_def print_entries_of)
qed

section \<open>Properties\<close>

text \<open>What a client should see of the directory entry \<open>d\<close>.\<close>

definition entry_seen :: "host \<Rightarrow> string \<Rightarrow> string \<Rightarrow> isr_cli_dir_entry" where
  "entry_seen h path d =
     (case isr_stat h (copy_n ISR_PATH_MAX (join_path path d)) of
        None \<Rightarrow> \<lparr>de_name = d, de_size = 0, de_is_directory = 0\<rparr>
      | Some (is_dir, sz) \<Rightarrow> \<lparr>de_name = d, de_size = sz, de_is_directory = (if is_dir then 1 else 0)\<rparr>)"

definition visible :: "string list \<Rightarrow> string list" where
  "visible dir = filter (\<lambda>d. d \<noteq> ''.'' \<and> d \<noteq> ''..'') dir"

lemma cooked_served:
  "length d \<le> 255 \<Longrightarrow> NUL \<notin> set d \<Longrightarrow> cooked (raw (served_entry h path d)) = entry_seen h path d"
  by (simp add: served_entry_def entry_seen_def raw_def copy_n_def cstr_bytes_of split: option.splits prod.splits)

lemma map_cooked_served:
  assumes "\<forall>d \<in> set dir. length d \<le> 255 \<and> NUL \<notin> set d"
  shows "map cooked (map raw (served h path dir)) = map (entry_seen h path) (visible dir)"
  using assms by (auto simp: served_def visible_def cooked_served)

lemma entries_of_served:
  "entries_of (enc_listing (map raw (served h path dir))) = map raw (served h path dir)"
proof (rule entries_of_enc)
  have "length (e_name e) < 65536" if "e \<in> set (served h path dir)" for e
  proof -
    obtain d where "e = served_entry h path d" using \<open>e \<in> _\<close> by (auto simp: served_def)
    with served_name [of h path d] show ?thesis by simp
  qed
  then show "\<forall>(t, sz, nm) \<in> set (map raw (served h path dir)). length nm < 65536"
    by (auto simp: raw_def)
qed

lemma length_enc_listing_ge: "11 * length es \<le> length (enc_listing es)"
  by (induction es) (auto simp: enc_listing_def)

lemma length_served_listing: "length (enc_listing (map raw (served h path dir))) \<le> 266 * length dir"
proof (induction dir)
  case (Cons d dir)
  then show ?case
    using served_name [of h path d] by (simp add: served_Cons length_enc_listing_raw)
qed (simp add: served_def enc_listing_def)

text \<open>
  C15. A directory listing served to a client: the confirmation announces its exact size, the
  client receives it whole, and its parser returns one entry for each file and directory but
  \<open>.\<close> and \<open>..\<close>, in order, with its name, type and size.
\<close>

theorem directory_listing_round_trip:
  assumes "tx_live s" "sock_ok s" "pending s = go # later" "go \<noteq> ISR_RECV_UNABLE" "opendir h path = Some dir"
    and "\<forall>n \<le> 2 * sizeof_entry_t * (length dir + 256). malloc h n \<noteq> None"
    and "\<forall>d \<in> set dir. length d \<le> 255 \<and> NUL \<notin> set d" "length dir < 2 ^ 31"
  shows "\<exists>s' w len. isr_transmit_recv_directory_listing s h path = (0, s') \<and>
    tx s' = tx s @ enc_confirmation \<lparr>conf_type = ISR_RECV_TYPE_DIRECTORY, conf_length = len\<rparr> @ w \<and>
    unat len \<le> 266 * length dir \<and>
    (\<forall>t g rest. sock_ok t \<and> pending t = w @ rest \<and> (\<forall>n \<le> 65536 + 24 * unat len. malloc g n \<noteq> None) \<longrightarrow>
      (\<exists>t' buf. recv_verified_listing t g len = (Some buf, t', g) \<and> pending t' = rest \<and>
        isr_cli_parse_directory_listing g buf =
          (if visible dir = [] then None else Some (map (entry_seen h path) (visible dir)), length (visible dir))))"
proof -
  let ?l = "enc_listing (map raw (served h path dir))"
  have "266 * length dir < 2 ^ 64" using assms(8) by simp
  with length_served_listing have len: "length ?l < 2 ^ 64" by (rule le_less_trans)
  then have u: "unat (word_of_nat (length ?l) :: u64) = length ?l" by simp
  obtain s' where s': "isr_transmit_recv_directory_listing s h path = (0, s')"
    "tx s' = tx s @ enc_confirmation \<lparr>conf_type = ISR_RECV_TYPE_DIRECTORY, conf_length = word_of_nat (length ?l)\<rparr> @
      ?l @ enc_u64 (isr_count_byte_values ?l)"
    using isr_transmit_recv_directory_listing_live [OF assms(1-3,5,6)] assms(4) by auto
  have seen: "map cooked (entries_of ?l) = map (entry_seen h path) (visible dir)"
    unfolding entries_of_served by (rule map_cooked_served [OF assms(7)])
  then have vis: "length (entries_of ?l) = length (visible dir)" "entries_of ?l = [] \<longleftrightarrow> visible dir = []"
    by (metis length_map, metis map_is_Nil_conv)
  have few: "length (entries_of ?l) * 24 \<le> 24 * length ?l"
    unfolding entries_of_served
    using length_enc_listing_ge [of "map raw (served h path dir)"] by simp
  have "\<exists>t' buf. recv_verified_listing t g (word_of_nat (length ?l)) = (Some buf, t', g) \<and> pending t' = rest \<and>
        isr_cli_parse_directory_listing g buf =
          (if visible dir = [] then None else Some (map (entry_seen h path) (visible dir)), length (visible dir))"
    if t: "sock_ok t" "pending t = (?l @ enc_u64 (isr_count_byte_values ?l)) @ rest"
      "\<forall>n \<le> 65536 + 24 * unat (word_of_nat (length ?l) :: u64). malloc g n \<noteq> None" for t g rest
  proof -
    have m: "malloc g (length ?l) \<noteq> None" "\<forall>n \<le> 65536. malloc g n \<noteq> None"
      "malloc g (length (entries_of ?l) * 24) \<noteq> None"
      using t(3) few unfolding u by auto
    obtain t' where "recv_verified_listing t g (word_of_nat (length ?l)) = (Some ?l, t', g)" "pending t' = rest"
      using recv_verified_listing_ok [OF t(1) _ len m(1)] t(2) by auto
    with isr_cli_parse_directory_listing_of [OF m(2,3)] show ?thesis
      unfolding seen vis by blast
  qed
  moreover have "unat (word_of_nat (length ?l) :: u64) \<le> 266 * length dir"
    unfolding u by (rule length_served_listing)
  ultimately show ?thesis using s' by blast
qed

theorem directory_listing_round_trip_witness:
  "\<exists>s' len w t' buf. isr_transmit_recv_directory_listing (sock0 [1])
       (host0 [([''d''], Dir), ([''d'', ''x''], File [7, 8]), ([''d'', ''y''], Dir)]) ''/d'' = (0, s') \<and>
     tx s' = enc_confirmation \<lparr>conf_type = ISR_RECV_TYPE_DIRECTORY, conf_length = len\<rparr> @ w \<and>
     recv_verified_listing (sock0 w) (host0 []) len = (Some buf, t', host0 []) \<and>
     isr_cli_parse_directory_listing (host0 []) buf =
       (Some [\<lparr>de_name = ''x'', de_size = 2, de_is_directory = 0\<rparr>,
              \<lparr>de_name = ''y'', de_size = 4096, de_is_directory = 1\<rparr>], 2)"
proof -
  let ?h = "host0 [([''d''], Dir), ([''d'', ''x''], File [7, 8]), ([''d'', ''y''], Dir)]"
  have dir: "opendir ?h ''/d'' = Some [''.'', ''..'', ''x'', ''y'']" by (simp add: opendir_def lookup_def dir_entries_def host0_def node_at_def)
  have seen: "map (entry_seen ?h ''/d'') (visible [''.'', ''..'', ''x'', ''y'']) =
      [\<lparr>de_name = ''x'', de_size = 2, de_is_directory = 0\<rparr>, \<lparr>de_name = ''y'', de_size = 4096, de_is_directory = 1\<rparr>]"
    by (simp add: entry_seen_def visible_def isr_stat_def lookup_def host0_def node_at_def join_path_def
      copy_n_def ISR_PATH_MAX_def)
  have vis: "visible [''.'', ''..'', ''x'', ''y''] = [''x'', ''y'']" by code_simp
  have sock: "tx_live (sock0 [1])" "sock_ok (sock0 [1])" "pending (sock0 [1]) = 1 # []" by simp_all
  have fit: "\<forall>n \<le> 2 * sizeof_entry_t * (length [''.'', ''..'', ''x'', ''y''] + 256). malloc ?h n \<noteq> None"
    by (simp add: sizeof_entry_t_def)
  have go: "1 \<noteq> ISR_RECV_UNABLE" by (simp add: ISR_RECV_UNABLE_def)
  have names: "\<forall>d \<in> set [''.'', ''..'', ''x'', ''y'']. length d \<le> 255 \<and> NUL \<notin> set d" by simp
  have few: "length [''.'', ''..'', ''x'', ''y''] < 2 ^ 31" by simp
  obtain s' w len where 1: "isr_transmit_recv_directory_listing (sock0 [1]) ?h ''/d'' = (0, s')"
    "tx s' = tx (sock0 [1]) @ enc_confirmation \<lparr>conf_type = ISR_RECV_TYPE_DIRECTORY, conf_length = len\<rparr> @ w"
    and small: "unat len \<le> 266 * length [''.'', ''..'', ''x'', ''y'']"
    and 2: "\<forall>t g rest. sock_ok t \<and> pending t = w @ rest \<and> (\<forall>n \<le> 65536 + 24 * unat len. malloc g n \<noteq> None) \<longrightarrow>
      (\<exists>t' buf. recv_verified_listing t g len = (Some buf, t', g) \<and> pending t' = rest \<and>
        isr_cli_parse_directory_listing g buf =
          (if visible [''.'', ''..'', ''x'', ''y''] = [] then None
           else Some (map (entry_seen ?h ''/d'') (visible [''.'', ''..'', ''x'', ''y''])),
           length (visible [''.'', ''..'', ''x'', ''y''])))"
    using directory_listing_round_trip [OF sock go dir fit names few] by blast
  have "\<exists>t' buf. recv_verified_listing (sock0 w) (host0 []) len = (Some buf, t', host0 []) \<and>
       isr_cli_parse_directory_listing (host0 []) buf =
         (Some [\<lparr>de_name = ''x'', de_size = 2, de_is_directory = 0\<rparr>,
                \<lparr>de_name = ''y'', de_size = 4096, de_is_directory = 1\<rparr>], 2)"
    using 2 [rule_format, of "sock0 w" "[]" "host0 []"] small unfolding seen by (auto simp: vis)
  with 1 show ?thesis by auto
qed

text \<open>
  C26. The parser against the specification of the format, on any buffer: it returns the entries
  that a complete listing at the start of the buffer stands for, as many as it counted, and stops
  only where what is left is too short for one more entry.
\<close>

theorem parse_listing_exact:
  assumes "\<forall>n \<le> 65536. malloc h n \<noteq> None" "malloc h (length (entries_of buf) * 24) \<noteq> None"
  shows "\<exists>es rest. buf = enc_listing es @ rest \<and> length rest < 11 + (if length rest < 11 then 0 else name_length rest) \<and>
    isr_cli_parse_directory_listing h buf = (if es = [] then None else Some (map cooked es), length es)"
proof -
  obtain rest where "buf = enc_listing (entries_of buf) @ rest" "length rest < 11 \<or> length rest < 11 + name_length rest"
    by (rule entries_of_bytes)
  with isr_cli_parse_directory_listing_of [OF assms] show ?thesis
    by (intro exI [of _ "entries_of buf"] exI [of _ rest]) auto
qed

theorem parse_listing_exact_witness:
  "\<exists>es rest. [0, 0, 0, 0, 0, 0, 0, 0, 5, 0, 1, 97, 9, 9] = enc_listing es @ rest \<and>
    length rest < 11 + (if length rest < 11 then 0 else name_length rest) \<and>
    isr_cli_parse_directory_listing (host0 []) [0, 0, 0, 0, 0, 0, 0, 0, 5, 0, 1, 97, 9, 9] =
      (if es = [] then None else Some (map cooked es), length es)"
proof (rule parse_listing_exact)
  have "length (entries_of [0, 0, 0, 0, 0, 0, 0, 0, 5, 0, 1, 97, 9, 9]) = 1" by code_simp
  then show "malloc (host0 []) (length (entries_of [0, 0, 0, 0, 0, 0, 0, 0, 5, 0, 1, 97, 9, 9]) * 24) \<noteq> None"
    by simp
qed simp

text \<open>
  The listing a client prints with \<open>isr recv\<close>: one line for each entry of the stream, in
  order, nothing when the sum that follows it is wrong.
\<close>

theorem printed_listing:
  assumes "sock_ok s" "pending s = listing @ enc_u64 c @ rest" "length listing < 2 ^ 64"
    "malloc h (length listing) \<noteq> None"
  shows "\<exists>s'. isr_receive_directory_listing s h (word_of_nat (length listing)) =
      (if c = isr_count_byte_values listing then (0, s', h\<lparr>console := console h @ map line_of (entries_of listing)\<rparr>)
       else (- 1, s', h))"
  using isr_receive_directory_listing_cases [OF assms] by blast

theorem printed_listing_witness:
  "\<exists>s'. isr_receive_directory_listing (sock0 (enc_listing [(1, 0, [100])] @ enc_u64 (isr_count_byte_values (enc_listing [(1, 0, [100])]))))
     (host0 []) 12 = (0, s', (host0 [])\<lparr>console := [''  [DIR]  d'']\<rparr>)"
proof -
  have l: "length (enc_listing [(1, 0, [100])]) = 12" by (simp add: enc_listing_def)
  have e: "entries_of (enc_listing [(1, 0, [100])]) = [(1, 0, [100])]" by (rule entries_of_enc) simp
  have n: "line_of (1, 0, [100]) = ''  [DIR]  d''"
    by code_simp
  from printed_listing [of "sock0 (enc_listing [(1, 0, [100])] @ enc_u64 (isr_count_byte_values (enc_listing [(1, 0, [100])])))"
      "enc_listing [(1, 0, [100])]" "isr_count_byte_values (enc_listing [(1, 0, [100])])" "[]" "host0 []"]
  show ?thesis unfolding l e by (simp add: n del: line_of.simps)
qed

end
