(* ===== verification/Server.thy ===== *)
theory Server
  imports Listing
begin

text \<open>
  The server side of \<open>lib/isr.c\<close>: the server root, \<open>isr_resolve_path\<close>, and the handlers
  \<open>isr_receive_command\<close>, \<open>isr_receive_send_command\<close> and \<open>isr_receive_recv_command\<close>.

  A handler takes the server root, the socket, the host and the request information that
  \<open>cmd_serve\<close> logs (the pointer \<open>info\<close> is never \<open>NULL\<close> there), and returns 0 or \<open>-1\<close> with
  their new states; \<open>None\<close> is undefined behaviour. The static \<open>isr_server_root_path\<close> is the
  argument \<open>root\<close>.
\<close>

section \<open>Paths under the root\<close>

definition isr_set_server_root :: "string \<Rightarrow> string" where
  "isr_set_server_root root = copy_n ISR_PATH_MAX root"

text \<open>\<open>strncat(d, s, sizeof(d) - strlen(d) - 1)\<close> on a buffer of \<open>n\<close> bytes.\<close>

definition strncat :: "nat \<Rightarrow> string \<Rightarrow> string \<Rightarrow> string" where
  "strncat n d s = d @ take (n - length d - 1) s"

definition isr_resolve_path :: "host \<Rightarrow> string \<Rightarrow> string \<Rightarrow> nat \<Rightarrow> string option" where
  "isr_resolve_path h root relative out_size =
     (case snprintf_path out_size root relative of (out, n) \<Rightarrow>
        if out_size \<le> n then None
        else
          (let tmp = copy_n ISR_PATH_MAX out;
               resolved =
                 (case strrchr tmp CHR ''/'' of
                    Some (Suc i) \<Rightarrow>
                      (let basename_buf = copy_n ISR_PATH_MAX (drop (Suc (Suc i)) tmp) in
                       case realpath h (take (Suc i) tmp) of
                         None \<Rightarrow> copy_n ISR_PATH_MAX out
                       | Some rp \<Rightarrow> strncat ISR_PATH_MAX (strncat ISR_PATH_MAX rp ''/'') basename_buf)
                  | _ \<Rightarrow>
                      (case realpath h out of None \<Rightarrow> copy_n ISR_PATH_MAX out | Some rp \<Rightarrow> rp))
           in if take (length root) resolved \<noteq> root then None else Some (copy_n out_size resolved)))"

section \<open>The request handlers\<close>

record isr_request_info =
  ri_cmd :: u8
  ri_path :: string
  ri_file_size :: u64
  ri_is_dir :: bool
  ri_is_compressed :: bool
  ri_is_overwrite :: bool
  ri_is_mkdir :: bool
  ri_not_found :: bool

definition info0 :: isr_request_info where
  "info0 = \<lparr>ri_cmd = 0, ri_path = [], ri_file_size = 0, ri_is_dir = False, ri_is_compressed = False,
     ri_is_overwrite = False, ri_is_mkdir = False, ri_not_found = False\<rparr>"

text \<open>The result of a handler, with the states it leaves.\<close>

type_synonym outcome = "int \<times> sock \<times> host \<times> isr_request_info"

definition reply_error :: "sock \<Rightarrow> host \<Rightarrow> isr_request_info \<Rightarrow> string \<Rightarrow> outcome" where
  "reply_error s h info msg =
     (- 1, snd (isr_transmit_send_response s ISR_RESULT_OTHER_FAILURE (Some msg)), h, info)"

text \<open>The end of \<open>isr_receive_send_command\<close>: receive the data, close the file, send the result.\<close>

definition receive_upload ::
    "sock \<Rightarrow> host \<Rightarrow> fd \<Rightarrow> isr_send_command_header \<Rightarrow> isr_request_info \<Rightarrow> outcome option" where
  "receive_upload s h f header info =
     (case (if has_flag (sh_flags header) ISR_FLAG_USE_COMPRESSION
            then isr_receive_file_compressed s h f (sh_block_size header) (sh_effective_length header)
            else Some (isr_receive_file_uncompressed s h f (sh_effective_length header))) of
        None \<Rightarrow> None
      | Some (result, s1, f1, h1) \<Rightarrow>
          if result = - 1 then
            Some (- 1, snd (isr_transmit_send_result s1 ISR_RESULT_OTHER_FAILURE), h1, info)
          else if result = - 2 then
            Some (- 1, snd (isr_transmit_send_result s1 ISR_RESULT_CHECKSUM_BAD), h1, info)
          else Some (0, snd (isr_transmit_send_result s1 ISR_RESULT_OK), h1, info))"

definition isr_receive_send_command ::
    "string \<Rightarrow> sock \<Rightarrow> host \<Rightarrow> isr_send_command_header \<Rightarrow> string \<Rightarrow> isr_request_info \<Rightarrow> outcome option"
where
  "isr_receive_send_command root s h header path info =
     (if isr_validate_path path = - 1 then Some (reply_error s h info ''Invalid path'')
      else
        (case isr_resolve_path h root path ISR_PATH_MAX of
           None \<Rightarrow> Some (reply_error s h info ''Path resolution failed'')
         | Some full_path \<Rightarrow>
             if has_flag (sh_flags header) ISR_FLAG_CREATE_DIRECTORY then
               (case isr_mkdir_recursive h full_path of (r, h1) \<Rightarrow>
                  if r = - 1 then Some (reply_error s h1 info ''Failed to create directory'')
                  else Some (0, snd (isr_transmit_send_response s ISR_RESULT_OK None), h1, info))
             else
               (let st = isr_stat h full_path;
                    exists = (st \<noteq> None);
                    is_dir = (case st of Some (d, _) \<Rightarrow> d | None \<Rightarrow> False);
                    info1 = info\<lparr>ri_is_overwrite := exists\<rparr> in
                if exists \<and> is_dir then Some (reply_error s h info1 ''Path is a directory'')
                else if exists \<and> \<not> has_flag (sh_flags header) ISR_FLAG_OVERWRITE then
                  Some (reply_error s h info1 ''File exists, overwrite not set'')
                else
                  (let h1 = (case isr_parent_dir full_path ISR_PATH_MAX of
                               Some parent \<Rightarrow> snd (isr_mkdir_recursive h parent) | None \<Rightarrow> h);
                       resp_type = (if exists then ISR_SEND_RESPONSE_OVERWRITING
                                    else ISR_SEND_RESPONSE_CREATING) in
                   case isr_transmit_send_response s resp_type None of
                     (False, s1) \<Rightarrow> Some (- 1, s1, h1, info1)
                   | (True, s1) \<Rightarrow>
                       (case isr_open_write h1 full_path of
                          (None, h2) \<Rightarrow> Some (- 1, s1, h2, info1)
                        | (Some f, h2) \<Rightarrow> receive_upload s1 h2 f header info1)))))"

definition isr_receive_recv_command ::
    "string \<Rightarrow> sock \<Rightarrow> host \<Rightarrow> isr_recv_command_header \<Rightarrow> string \<Rightarrow> isr_request_info \<Rightarrow> outcome option"
where
  "isr_receive_recv_command root s h header path info =
     (if isr_validate_path path = - 1 then
        Some (- 1, snd (isr_send_recv_confirmation s ISR_RESULT_OTHER_FAILURE 0), h, info)
      else
        (case isr_resolve_path h root path ISR_PATH_MAX of
           None \<Rightarrow> Some (- 1, snd (isr_send_recv_confirmation s ISR_RESULT_OTHER_FAILURE 0), h, info)
         | Some full_path \<Rightarrow>
             (case isr_stat h full_path of
                None \<Rightarrow>
                  Some (0, snd (isr_send_recv_confirmation s ISR_RECV_TYPE_NOT_FOUND 0), h,
                    info\<lparr>ri_not_found := True\<rparr>)
              | Some (is_dir, file_size) \<Rightarrow>
                  (let info1 = info\<lparr>ri_is_dir := is_dir, ri_file_size := (if is_dir then 0 else file_size)\<rparr> in
                   if is_dir then
                     (case isr_transmit_recv_directory_listing s h full_path of
                        (r, s1) \<Rightarrow> Some (r, s1, h, info1))
                   else
                     (case isr_send_recv_confirmation s ISR_RECV_TYPE_FILE file_size of
                        (False, s1) \<Rightarrow> Some (- 1, s1, h, info1)
                      | (True, s1) \<Rightarrow>
                          (case net_recv_exact s1 1 of
                             (None, s2) \<Rightarrow> Some (- 1, s2, h, info1)
                           | (Some go, s2) \<Rightarrow>
                               if hd go = ISR_RECV_UNABLE then Some (0, s2, h, info1)
                               else
                                 (case isr_open_read h full_path of
                                    None \<Rightarrow> Some (- 1, s2, h, info1)
                                  | Some f \<Rightarrow>
                                      (case (if has_flag (rh_flags header) ISR_FLAG_USE_COMPRESSION
                                             then isr_transmit_file_compressed s2 h f (rh_block_size header)
                                             else Some (isr_transmit_file_uncompressed s2 h f)) of
                                         None \<Rightarrow> None
                                       | Some (result, s3, h1) \<Rightarrow>
                                           Some (if 0 \<le> result then 0 else - 1, s3, h1, info1))))))))) "

text \<open>\<open>fprintf\<close> with \<open>0x%02x\<close>.\<close>

definition hex_digit :: "nat \<Rightarrow> char" where
  "hex_digit n = char_of (if n < 10 then 48 + n else 87 + n)"

definition hex2 :: "u8 \<Rightarrow> string" where
  "hex2 b = ''0x'' @ [hex_digit (unat b div 16), hex_digit (unat b mod 16)]"

definition isr_receive_command :: "string \<Rightarrow> sock \<Rightarrow> host \<Rightarrow> isr_request_info \<Rightarrow> outcome option" where
  "isr_receive_command root s h info =
     (case net_recv_exact s 1 of
        (None, s1) \<Rightarrow> Some (- 1, s1, h, info)
      | (Some cmd, s1) \<Rightarrow>
          if hd cmd = ISR_COMMAND_SEND then
            (case net_recv_exact s1 15 of
               (None, s2) \<Rightarrow> Some (- 1, s2, h, info)
             | (Some bs, s2) \<Rightarrow>
                 (let header = dec_send_header bs in
                  if ISR_PATH_MAX \<le> unat (sh_path_length header) then Some (- 1, s2, h, info)
                  else
                    (case net_recv_exact s2 (unat (sh_path_length header)) of
                       (None, s3) \<Rightarrow> Some (- 1, s3, h, info)
                     | (Some pb, s3) \<Rightarrow>
                         (let path = cstr pb in
                          isr_receive_send_command root s3 h header path
                            (info\<lparr>ri_cmd := ISR_COMMAND_SEND, ri_path := path,
                               ri_file_size := sh_effective_length header,
                               ri_is_compressed := has_flag (sh_flags header) ISR_FLAG_USE_COMPRESSION,
                               ri_is_overwrite := False,
                               ri_is_mkdir := has_flag (sh_flags header) ISR_FLAG_CREATE_DIRECTORY,
                               ri_is_dir := False\<rparr>)))))
          else if hd cmd = ISR_COMMAND_RECV then
            (case net_recv_exact s1 7 of
               (None, s2) \<Rightarrow> Some (- 1, s2, h, info)
             | (Some bs, s2) \<Rightarrow>
                 (let header = dec_recv_header bs in
                  if ISR_PATH_MAX \<le> unat (rh_path_length header) then Some (- 1, s2, h, info)
                  else
                    (case net_recv_exact s2 (unat (rh_path_length header)) of
                       (None, s3) \<Rightarrow> Some (- 1, s3, h, info)
                     | (Some pb, s3) \<Rightarrow>
                         (let path = cstr pb in
                          isr_receive_recv_command root s3 h header path
                            (info\<lparr>ri_cmd := ISR_COMMAND_RECV, ri_path := path,
                               ri_is_compressed := has_flag (rh_flags header) ISR_FLAG_USE_COMPRESSION,
                               ri_is_overwrite := False, ri_is_mkdir := False, ri_file_size := 0,
                               ri_is_dir := False\<rparr>)))))
          else Some (- 1, s1, say (''Unknown command type: '' @ hex2 (hd cmd)) h, info))"

end
