(* ===== verification/Session.thy ===== *)
theory Session
  imports Server
begin

text \<open>
  The dialogues of the server with a peer that keeps to the protocol: what the server receives
  when it is sent a request and a payload, and what it sends. A payload is the data of a file
  with its checksum, in the plain or the compressed form.
\<close>

section \<open>Payloads\<close>

definition is_payload :: "bool \<Rightarrow> u32 \<Rightarrow> bytes \<Rightarrow> bytes \<Rightarrow> bool" where
  "is_payload compressed b data w \<longleftrightarrow>
     (if compressed then \<exists>fs. comp_frames (unat b) data fs \<and> w = fs @ enc_u64 (isr_count_byte_values data)
      else w = data @ enc_u64 (isr_count_byte_values data))"

text \<open>What compression asks of the block size and the allocator.\<close>

definition can_compress :: "bool \<Rightarrow> u32 \<Rightarrow> host \<Rightarrow> bool" where
  "can_compress compressed b h \<longleftrightarrow> \<not> compressed \<or> block_size_ok b \<and> heap_ok h \<and>
     malloc h (unat b) \<noteq> None \<and> malloc h (nat (LZ4_compressBound (to_int (int (unat b))))) \<noteq> None"

lemma count_small:
  assumes "length bs < 2 ^ 55"
  shows "0 \<le> sint (isr_count_byte_values bs)"
proof -
  have "sum_list (map unat bs) \<le> 255 * length bs"
    by (induction bs) (auto simp: add_mono unat_u8_le)
  moreover have "unat (isr_count_byte_values bs) = sum_list (map unat bs)"
    using assms by (intro count_unat) simp
  ultimately have "unat (isr_count_byte_values bs) < 2 ^ 63" using assms by simp
  then have "int (unat (isr_count_byte_values bs)) < int (2 ^ 63)" by (simp only: of_nat_less_iff)
  then have "uint (isr_count_byte_values bs) < 2 ^ 63" by simp
  then show ?thesis
    by (simp add: sint_uint signed_take_bit_eq_if_positive bit_iff_odd)
qed

lemma tx_payload:
  assumes "node_at h (fd_path f) = Some (File data)" "fd_pos f = 0" "rd_live h" "tx_live s"
    and "can_compress compressed b h"
  shows "\<exists>s' h' w. (if compressed then isr_transmit_file_compressed s h f b
      else Some (isr_transmit_file_uncompressed s h f)) = Some (sint (isr_count_byte_values data), s', h') \<and>
    is_payload compressed b data w \<and> tx s' = tx s @ w \<and> pending s' = pending s \<and> sock_ok s' = sock_ok s \<and>
    tx_live s' \<and> rd_only h h' \<and> rd_live h'"
proof (cases compressed)
  case True
  with assms(5) have c: "block_size_ok b" "malloc h (unat b) \<noteq> None"
    "malloc h (nat (LZ4_compressBound (int (unat b)))) \<noteq> None"
    using to_int_block_size [of b] by (auto simp: can_compress_def)
  from tx_compressed_live [OF assms(1,3,4) c(1), of 0] unread_start [OF assms(1,2)] c(2,3) True show ?thesis
    unfolding isr_transmit_file_compressed_def to_int_block_size [OF c(1)] is_payload_def
    by (auto simp: Let_def)
next
  case False
  with tx_uncompressed_live [OF assms(1,3,4), of 0] unread_start [OF assms(1,2)] show ?thesis
    by (auto simp: isr_transmit_file_uncompressed_def is_payload_def)
qed

lemma rx_payload:
  assumes "is_payload compressed b data w" "can_compress compressed b h" "length data < 2 ^ 64"
    and "sock_ok s" "pending s = w @ rest" "holds h f []" "wr_live h"
  shows "\<exists>s' f' h'. (if compressed then isr_receive_file_compressed s h f b (word_of_nat (length data))
      else Some (isr_receive_file_uncompressed s h f (word_of_nat (length data)))) =
      Some (sint (isr_count_byte_values data), s', f', h') \<and>
    holds h' f' data \<and> file_rel h f h' f' \<and> wr_live h' \<and> pending s' = rest \<and> sock_ok s' \<and> tx s' = tx s \<and>
    tx_live s' = tx_live s"
proof (cases compressed)
  case False
  then have p: "pending s = data @ enc_u64 (isr_count_byte_values data) @ rest"
    using assms(1,5) by (simp add: is_payload_def)
  have "length data = unat (word_of_nat (length data) :: u64)" using assms(3) by simp
  from rx_uncompressed_ok [OF assms(4,6,7) p this, of 0] False show ?thesis
    by (auto simp: isr_receive_file_uncompressed_def)
next
  case True
  let ?c = "isr_count_byte_values data" and ?len = "word_of_nat (length data) :: u64"
  obtain fs where fs: "comp_frames (unat b) data fs" "w = fs @ enc_u64 ?c"
    using assms(1) True by (auto simp: is_payload_def)
  have p: "pending s = fs @ enc_u64 ?c @ rest" using assms(5) fs(2) by simp
  obtain ca da where m: "malloc h (nat (LZ4_compressBound (to_int (int (unat b))))) = Some ca"
    "malloc h (unat b) = Some da" and b: "block_size_ok b" "heap_ok h"
    using assms(2) True by (auto simp: can_compress_def)
  note bufs = buffers_malloc [OF b(2) m]
  have len: "length data \<le> unat ?len" using assms(3) by simp
  obtain s1 f1 h1 where 1: "rx_compressed s h f b (nat (LZ4_compressBound (to_int (int (unat b))))) ca da ?len 0 =
      rx_compressed s1 h1 f1 b (nat (LZ4_compressBound (to_int (int (unat b))))) ca da 0 ?c"
    "pending s1 = enc_u64 ?c @ rest" "sock_ok s1" "tx s1 = tx s" "tx_live s1 = tx_live s" "holds h1 f1 data"
    "file_rel h f h1 f1" "wr_live h1"
    using rx_frames [OF fs(1) b(1) bufs len assms(4,6,7) p, of 0] by auto
  obtain s2 where s2: "rx_checksum s1 ?c = (sint ?c, s2)" "pending s2 = rest" "sock_ok s2" "tx s2 = tx s1"
    "tx_live s2 = tx_live s1"
    using rx_checksum_ok [OF 1(3,2), of ?c] by auto
  then have "isr_receive_file_compressed s h f b ?len = Some (sint ?c, s2, f1, h1)"
    using m 1(1) by (simp add: isr_receive_file_compressed_def Let_def rx_compressed.simps [of s1])
  with True 1 s2 show ?thesis by simp
qed

section \<open>Requests\<close>

lemma take_bytes_of: "length path < 65536 \<Longrightarrow> unat (word_of_nat (length path) :: u16) = length path"
  by simp

text \<open>The handler of a \<open>SEND\<close> request gets its header and its path.\<close>

definition send_info :: "isr_request_info \<Rightarrow> string \<Rightarrow> u8 \<Rightarrow> u64 \<Rightarrow> isr_request_info" where
  "send_info info path flags len =
     info\<lparr>ri_cmd := ISR_COMMAND_SEND, ri_path := path, ri_file_size := len,
       ri_is_compressed := has_flag flags ISR_FLAG_USE_COMPRESSION, ri_is_overwrite := False,
       ri_is_mkdir := has_flag flags ISR_FLAG_CREATE_DIRECTORY, ri_is_dir := False\<rparr>"

definition recv_info :: "isr_request_info \<Rightarrow> string \<Rightarrow> u8 \<Rightarrow> isr_request_info" where
  "recv_info info path flags =
     info\<lparr>ri_cmd := ISR_COMMAND_RECV, ri_path := path,
       ri_is_compressed := has_flag flags ISR_FLAG_USE_COMPRESSION, ri_is_overwrite := False,
       ri_is_mkdir := False, ri_file_size := 0, ri_is_dir := False\<rparr>"

definition good_path :: "string \<Rightarrow> bool" where
  "good_path path \<longleftrightarrow> NUL \<notin> set path \<and> length path < ISR_PATH_MAX"

lemma receive_send_request:
  assumes "sock_ok s" "good_path path" "pending s = send_request path flags b len @ rest"
  obtains s' where "isr_receive_command root s h info =
      isr_receive_send_command root s' h
        \<lparr>sh_flags = flags, sh_path_length = word_of_nat (length path), sh_block_size = b, sh_effective_length = len\<rparr>
        path (send_info info path flags len)"
    "pending s' = rest" "sock_ok s'" "tx s' = tx s" "tx_live s' = tx_live s"
proof -
  let ?hd = "\<lparr>sh_flags = flags, sh_path_length = word_of_nat (length path), sh_block_size = b, sh_effective_length = len\<rparr>"
  have path: "NUL \<notin> set path" "length path < 4096" using assms(2) by (simp_all add: good_path_def ISR_PATH_MAX_def)
  have p0: "pending s = [ISR_COMMAND_SEND] @ enc_send_header ?hd @ bytes_of path @ rest"
    using assms(3) by (simp add: send_request_def)
  obtain s1 where s1: "net_recv_exact s 1 = (Some [ISR_COMMAND_SEND], s1)"
    "pending s1 = enc_send_header ?hd @ bytes_of path @ rest" "sock_ok s1" "tx s1 = tx s" "tx_live s1 = tx_live s"
    using tcp.recv_exact [OF assms(1) p0, of 1] by auto
  obtain s2 where s2: "net_recv_exact s1 15 = (Some (enc_send_header ?hd), s2)" "dec_send_header (enc_send_header ?hd) = ?hd"
    "pending s2 = bytes_of path @ rest" "sock_ok s2" "tx s2 = tx s1" "tx_live s2 = tx_live s1"
    using tcp_send_header.recv_frame [OF s1(3,2) TrueI] .
  obtain s3 where s3: "net_recv_exact s2 (length path) = (Some (bytes_of path), s3)" "pending s3 = rest" "sock_ok s3"
    "tx s3 = tx s2" "tx_live s3 = tx_live s2"
    using tcp.recv_exact [OF s2(4,3), of "length path"] by auto
  have "isr_receive_command root s h info = isr_receive_send_command root s3 h ?hd path (send_info info path flags len)"
    using s1(1) s2(1,2) s3(1) path
    by (simp add: isr_receive_command_def Let_def cstr_bytes_of send_info_def ISR_PATH_MAX_def)
  with that s1 s2 s3 show ?thesis by simp
qed

lemma receive_recv_request:
  assumes "sock_ok s" "good_path path" "pending s = recv_request path flags b @ rest"
  obtains s' where "isr_receive_command root s h info =
      isr_receive_recv_command root s' h
        \<lparr>rh_flags = flags, rh_path_length = word_of_nat (length path), rh_block_size = b\<rparr>
        path (recv_info info path flags)"
    "pending s' = rest" "sock_ok s'" "tx s' = tx s" "tx_live s' = tx_live s"
proof -
  let ?hd = "\<lparr>rh_flags = flags, rh_path_length = word_of_nat (length path), rh_block_size = b\<rparr>"
  have path: "NUL \<notin> set path" "length path < 4096" using assms(2) by (simp_all add: good_path_def ISR_PATH_MAX_def)
  have p0: "pending s = [ISR_COMMAND_RECV] @ enc_recv_header ?hd @ bytes_of path @ rest"
    using assms(3) by (simp add: recv_request_def)
  obtain s1 where s1: "net_recv_exact s 1 = (Some [ISR_COMMAND_RECV], s1)"
    "pending s1 = enc_recv_header ?hd @ bytes_of path @ rest" "sock_ok s1" "tx s1 = tx s" "tx_live s1 = tx_live s"
    using tcp.recv_exact [OF assms(1) p0, of 1] by auto
  obtain s2 where s2: "net_recv_exact s1 7 = (Some (enc_recv_header ?hd), s2)" "dec_recv_header (enc_recv_header ?hd) = ?hd"
    "pending s2 = bytes_of path @ rest" "sock_ok s2" "tx s2 = tx s1" "tx_live s2 = tx_live s1"
    using tcp_recv_header.recv_frame [OF s1(3,2) TrueI] .
  obtain s3 where s3: "net_recv_exact s2 (length path) = (Some (bytes_of path), s3)" "pending s3 = rest" "sock_ok s3"
    "tx s3 = tx s2" "tx_live s3 = tx_live s2"
    using tcp.recv_exact [OF s2(4,3), of "length path"] by auto
  have "isr_receive_command root s h info = isr_receive_recv_command root s3 h ?hd path (recv_info info path flags)"
    using s1(1) s2(1,2) s3(1) path
    by (simp add: isr_receive_command_def Let_def cstr_bytes_of recv_info_def ISR_PATH_MAX_def
      ISR_COMMAND_SEND_def ISR_COMMAND_RECV_def)
  with that s1 s2 s3 show ?thesis by simp
qed

section \<open>The dialogues\<close>

lemma isr_open_write_Some:
  assumes "isr_open_write h s = (Some f, h')"
  shows "holds h' f [] \<and> same_but (fd_path f) h h' \<and>
    (lookup h s True = Found (fd_path f) \<and> (\<exists>bs. node_at h (fd_path f) = Some (File bs)) \<or>
     lookup h s True = Absent (fd_path f))"
  using assms
  by (auto simp: isr_open_write_def holds_def same_but_def split: place.splits option.splits node.splits if_splits)

lemma isr_open_write_None: "isr_open_write h s = (None, h') \<Longrightarrow> h' = h"
  by (auto simp: isr_open_write_def split: place.splits option.splits node.splits if_splits)

definition made_parents :: "host \<Rightarrow> string \<Rightarrow> host" where
  "made_parents h full = (case isr_parent_dir full ISR_PATH_MAX of
     Some parent \<Rightarrow> snd (isr_mkdir_recursive h parent) | None \<Rightarrow> h)"

lemma same_but_can_compress: "same_but p h h' \<Longrightarrow> can_compress c b h' = can_compress c b h"
  by (simp add: same_but_def can_compress_def heap_ok_def malloc_def)

text \<open>
  A \<open>SEND\<close> request for a file: the server answers, takes the payload, and confirms it. The
  file is created, or overwritten when it exists and the request says so.
\<close>

definition answer_type :: "(bool \<times> u64) option \<Rightarrow> u8" where
  "answer_type st = (if st = None then ISR_SEND_RESPONSE_CREATING else ISR_SEND_RESPONSE_OVERWRITING)"

definition may_write :: "(bool \<times> u64) option \<Rightarrow> u8 \<Rightarrow> bool" where
  "may_write st flags \<longleftrightarrow> \<not> has_flag flags ISR_FLAG_CREATE_DIRECTORY \<and>
     (case st of None \<Rightarrow> True | Some (is_dir, _) \<Rightarrow> \<not> is_dir \<and> has_flag flags ISR_FLAG_OVERWRITE)"

lemma server_upload:
  assumes "sock_ok s" "tx_live s" "good_path path"
    and "pending s = send_request path flags b (word_of_nat (length data)) @ w @ rest"
    and "is_payload (has_flag flags ISR_FLAG_USE_COMPRESSION) b data w" "length data < 2 ^ 55"
    and "isr_validate_path path = 0" "isr_resolve_path h root path ISR_PATH_MAX = Some full"
    and "may_write (isr_stat h full) flags" "isr_open_write (made_parents h full) full = (Some f, h2)"
    and "wr_live h2" "can_compress (has_flag flags ISR_FLAG_USE_COMPRESSION) b h2"
  shows "\<exists>s' h' info'. isr_receive_command root s h info = Some (0, s', h', info') \<and>
    node_at h' (fd_path f) = Some (File data) \<and> same_but (fd_path f) h2 h' \<and> wr_live h' \<and> pending s' = rest \<and>
    tx s' = tx s @ enc_response (isr_response_from_result (answer_type (isr_stat h full))) @
      enc_response (isr_response_from_result ISR_RESULT_OK)"
proof -
  let ?hd = "\<lparr>sh_flags = flags, sh_path_length = word_of_nat (length path), sh_block_size = b,
    sh_effective_length = (word_of_nat (length data) :: u64)\<rparr>"
  let ?info = "send_info info path flags (word_of_nat (length data))"
  let ?info1 = "?info\<lparr>ri_is_overwrite := isr_stat h full \<noteq> None\<rparr>"
  obtain s1 where s1: "isr_receive_command root s h info = isr_receive_send_command root s1 h ?hd path ?info"
    "pending s1 = w @ rest" "sock_ok s1" "tx s1 = tx s" "tx_live s1"
    using receive_send_request [OF assms(1,3,4)] assms(2) by metis
  obtain s2 where s2: "isr_transmit_send_response s1 (answer_type (isr_stat h full)) None = (True, s2)"
    "tx s2 = tx s1 @ enc_response (isr_response_from_result (answer_type (isr_stat h full)))"
    "pending s2 = pending s1" "sock_ok s2 = sock_ok s1" "tx_live s2"
    using tcp.send_live [OF s1(5)] by (auto simp: isr_transmit_send_response_def)
  have run: "isr_receive_send_command root s1 h ?hd path ?info = receive_upload s2 h2 f ?hd ?info1"
    using assms(7-10) s2(1)
    by (auto simp: isr_receive_send_command_def made_parents_def may_write_def answer_type_def Let_def
      split: option.splits)
  have "holds h2 f []" using isr_open_write_Some [OF assms(10)] by simp
  moreover have "length data < 2 ^ 64" using assms(6) by simp
  moreover have "pending s2 = w @ rest" "sock_ok s2" using s1 s2 by simp_all
  ultimately obtain s3 f3 h3 where s3:
    "(if has_flag flags ISR_FLAG_USE_COMPRESSION then isr_receive_file_compressed s2 h2 f b (word_of_nat (length data))
      else Some (isr_receive_file_uncompressed s2 h2 f (word_of_nat (length data)))) =
      Some (sint (isr_count_byte_values data), s3, f3, h3)"
    "holds h3 f3 data" "file_rel h2 f h3 f3" "wr_live h3" "pending s3 = rest" "tx s3 = tx s2" "tx_live s3 = tx_live s2"
    using rx_payload [OF assms(5,12)] assms(11) by blast
  obtain s4 where s4: "isr_transmit_send_result s3 ISR_RESULT_OK = (True, s4)"
    "tx s4 = tx s3 @ enc_response (isr_response_from_result ISR_RESULT_OK)" "pending s4 = pending s3"
    using tcp.send_live [of s3] s2(5) s3(7)
    by (auto simp: isr_transmit_send_result_def isr_transmit_send_response_def)
  have "receive_upload s2 h2 f ?hd ?info1 = Some (0, s4, h3, ?info1)"
    using s3(1) s4(1) count_small [OF assms(6)]
    by (cases "has_flag flags ISR_FLAG_USE_COMPRESSION") (simp_all add: receive_upload_def)
  with run s1 s2 s3 s4 holds_file [OF s3(2,3)] show ?thesis by (simp add: file_rel_def)
qed

text \<open>A \<open>RECV\<close> request for a file that exists, after which the client says go.\<close>

lemma server_download:
  assumes "sock_ok s" "tx_live s" "good_path path" "pending s = recv_request path flags b @ go # rest"
    and "go \<noteq> ISR_RECV_UNABLE" "isr_validate_path path = 0" "isr_resolve_path h root path ISR_PATH_MAX = Some full"
    and "lookup h full True = Found p" "node_at h p = Some (File data)" "\<not> deny h p"
    and "rd_live h" "can_compress (has_flag flags ISR_FLAG_USE_COMPRESSION) b h" "length data < 2 ^ 55"
  shows "\<exists>s' h' info' w. isr_receive_command root s h info = Some (0, s', h', info') \<and>
    is_payload (has_flag flags ISR_FLAG_USE_COMPRESSION) b data w \<and> rd_only h h' \<and> rd_live h' \<and> pending s' = rest \<and>
    tx s' = tx s @ enc_confirmation \<lparr>conf_type = ISR_RECV_TYPE_FILE, conf_length = word_of_nat (length data)\<rparr> @ w"
proof -
  let ?hd = "\<lparr>rh_flags = flags, rh_path_length = word_of_nat (length path), rh_block_size = b\<rparr>"
  let ?conf = "enc_confirmation \<lparr>conf_type = ISR_RECV_TYPE_FILE, conf_length = word_of_nat (length data)\<rparr>"
  let ?f = "\<lparr>fd_path = p, fd_pos = 0\<rparr>"
  obtain s1 where s1: "isr_receive_command root s h info = isr_receive_recv_command root s1 h ?hd path (recv_info info path flags)"
    "pending s1 = go # rest" "sock_ok s1" "tx s1 = tx s" "tx_live s1"
    using receive_recv_request [OF assms(1,3,4)] assms(2) by metis
  obtain s2 where s2: "isr_send_recv_confirmation s1 ISR_RECV_TYPE_FILE (word_of_nat (length data)) = (True, s2)"
    "tx s2 = tx s1 @ ?conf" "pending s2 = pending s1" "sock_ok s2 = sock_ok s1" "tx_live s2"
    using tcp.send_live [OF s1(5)] by (auto simp: isr_send_recv_confirmation_def)
  have "sock_ok s2" "pending s2 = [go] @ rest" using s1 s2 by simp_all
  then obtain s3 where s3: "net_recv_exact s2 1 = (Some [go], s3)" "pending s3 = rest" "sock_ok s3" "tx s3 = tx s2"
    "tx_live s3 = tx_live s2"
    using tcp.recv_exact [of s2 "[go]" rest 1] by auto
  have stat: "isr_stat h full = Some (False, word_of_nat (length data))" "isr_open_read h full = Some ?f"
    using assms(8-10) by (simp_all add: isr_stat_def isr_open_read_def)
  obtain s4 h4 w where s4: "(if has_flag flags ISR_FLAG_USE_COMPRESSION then isr_transmit_file_compressed s3 h ?f b
      else Some (isr_transmit_file_uncompressed s3 h ?f)) = Some (sint (isr_count_byte_values data), s4, h4)"
    "is_payload (has_flag flags ISR_FLAG_USE_COMPRESSION) b data w" "tx s4 = tx s3 @ w" "pending s4 = pending s3"
    "rd_only h h4" "rd_live h4"
    using tx_payload [of h ?f data s3 "has_flag flags ISR_FLAG_USE_COMPRESSION" b] assms(9,11,12) s2(5) s3(5) by auto
  have "isr_receive_recv_command root s1 h ?hd path (recv_info info path flags) =
      Some (0, s4, h4, (recv_info info path flags)\<lparr>ri_is_dir := False, ri_file_size := word_of_nat (length data)\<rparr>)"
    using assms(5-7) stat s2(1) s3(1) s4(1) count_small [OF assms(13)]
    by (cases "has_flag flags ISR_FLAG_USE_COMPRESSION") (simp_all add: isr_receive_recv_command_def Let_def)
  with s1 s2 s3 s4 show ?thesis by simp
qed

end
