(* ===== verification/Client.thy ===== *)
theory Client
  imports Session
begin

text \<open>
  The client of \<open>lib/isr-cli.c\<close>: sending files, directories and \<open>mkdir\<close> requests, receiving
  files, listings and directory trees.

  The connections that \<open>net_connect\<close> will make are a list in the state, \<open>None\<close> for a failing
  one; a closed socket is kept, with what was sent on it. Every function returns 0 or \<open>-1\<close> and
  the new state, or \<open>None\<close> for undefined behaviour: the overflow in
  \<open>isr_receive_file_compressed\<close>, or the \<open>printf\<close> of a \<open>response_data\<close> without a NUL.
\<close>

section \<open>The state of a client\<close>

record world =
  the_host :: host
  conns :: "sock option list"
  closed :: "sock list"
  dialled :: "(string \<times> string) list"

definition net_connect :: "string \<Rightarrow> string \<Rightarrow> world \<Rightarrow> sock option \<times> world" where
  "net_connect host port w =
     (case conns w of
        [] \<Rightarrow> (None, w)
      | c # cs \<Rightarrow> (c, w\<lparr>conns := cs, dialled := dialled w @ [(host, port)]\<rparr>))"

definition net_close :: "sock \<Rightarrow> world \<Rightarrow> world" where
  "net_close s w = w\<lparr>closed := closed w @ [s]\<rparr>"

definition print :: "string \<Rightarrow> world \<Rightarrow> world" where
  "print line w = w\<lparr>the_host := say line (the_host w)\<rparr>"

definition set_host :: "host \<Rightarrow> world \<Rightarrow> world" where
  "set_host h w = w\<lparr>the_host := h\<rparr>"

definition quoted :: "string \<Rightarrow> string" where
  "quoted s = CHR 0x27 # s @ [CHR 0x27]"

text \<open>\<open>%s\<close> of a \<open>char[254]\<close> that came from the peer.\<close>

definition response_text :: "isr_response \<Rightarrow> string option" where
  "response_text r = (if 0 \<in> set (response_data r) then Some (cstr (response_data r)) else None)"

section \<open>Connecting and small steps\<close>

definition recv_connect ::
    "string \<Rightarrow> string \<Rightarrow> string \<Rightarrow> u8 \<Rightarrow> u32 \<Rightarrow> world \<Rightarrow> (sock \<times> isr_recv_confirmation) option \<times> world"
where
  "recv_connect host port remote_path flags block_size w =
     (case net_connect host port w of
        (None, w1) \<Rightarrow> (None, print (''Failed to connect to '' @ host @ '':'' @ port) w1)
      | (Some s, w1) \<Rightarrow>
          (case isr_transmit_recv_command s remote_path flags block_size of
             (False, s1) \<Rightarrow> (None, net_close s1 (print ''Failed to send receive command'' w1))
           | (True, s1) \<Rightarrow>
               (case net_recv_exact s1 9 of
                  (None, s2) \<Rightarrow> (None, net_close s2 (print ''Failed to read server response'' w1))
                | (Some conf, s2) \<Rightarrow> (Some (s2, dec_confirmation conf), w1))))"

definition send_go :: "sock \<Rightarrow> world \<Rightarrow> bool \<times> sock \<times> world" where
  "send_go s w =
     (case net_send s [ISR_RECV_GO] of
        (r, s1) \<Rightarrow> if r = - 1 then (False, s1, print ''Failed to send confirmation'' w) else (True, s1, w))"

definition receive_file_data ::
    "sock \<Rightarrow> host \<Rightarrow> fd \<Rightarrow> u8 \<Rightarrow> u32 \<Rightarrow> u64 \<Rightarrow> (int \<times> sock \<times> host) option" where
  "receive_file_data s h f flags block_size effective_length =
     (case (if has_flag flags ISR_FLAG_USE_COMPRESSION
            then isr_receive_file_compressed s h f block_size effective_length
            else Some (isr_receive_file_uncompressed s h f effective_length)) of
        None \<Rightarrow> None
      | Some (result, s1, f1, h1) \<Rightarrow> Some (if 0 \<le> result then 0 else to_int result, s1, h1))"

section \<open>Sending\<close>

text \<open>The three parts of \<open>isr_cli_send_file\<close>: the result, the data, and the whole.\<close>

definition send_file_result :: "sock \<Rightarrow> world \<Rightarrow> (int \<times> world) option" where
  "send_file_result s w =
     (case net_recv_exact s 255 of
        (None, s1) \<Rightarrow> Some (- 1, net_close s1 (print ''Failed to read server result'' w))
      | (Some bs, s1) \<Rightarrow>
          (let result = dec_response bs in
           if response_type result = ISR_RESULT_OK then
             Some (0, net_close s1 (print ''Send successful.'' w))
           else if response_type result = ISR_RESULT_CHECKSUM_BAD then
             Some (- 1, net_close s1 (print ''Checksum mismatch!'' w))
           else
             (case response_text result of
                None \<Rightarrow> None
              | Some msg \<Rightarrow> Some (- 1, net_close s1 (print (''Server error: '' @ msg) w)))))"

definition send_file_data ::
    "sock \<Rightarrow> fd \<Rightarrow> u8 \<Rightarrow> u32 \<Rightarrow> u64 \<Rightarrow> u8 \<Rightarrow> world \<Rightarrow> (int \<times> world) option" where
  "send_file_data s f flags block_size file_size resp w =
     (let w1 = print (''Server accepted ('' @
            (if resp = ISR_SEND_RESPONSE_CREATING then ''creating'' else ''overwriting'') @
            ''). Sending '' @ udec (unat file_size) @ '' bytes...'') w in
      case (if has_flag flags ISR_FLAG_USE_COMPRESSION
            then isr_transmit_file_compressed s (the_host w1) f block_size
            else Some (isr_transmit_file_uncompressed s (the_host w1) f)) of
        None \<Rightarrow> None
      | Some (checksum, s1, h1) \<Rightarrow>
          (let w2 = set_host h1 w1 in
           if checksum = - 1 then
             Some (- 1, net_close s1 (print ''Failed to transmit file data'' w2))
           else send_file_result s1 w2))"

definition isr_cli_send_file ::
    "string \<Rightarrow> string \<Rightarrow> string \<Rightarrow> string \<Rightarrow> u8 \<Rightarrow> u32 \<Rightarrow> world \<Rightarrow> (int \<times> world) option" where
  "isr_cli_send_file host port remote_path local_file flags block_size w =
     (case isr_stat (the_host w) local_file of
        None \<Rightarrow> Some (- 1, print (''Error: cannot stat '' @ quoted local_file) w)
      | Some (_, file_size) \<Rightarrow>
          (case isr_open_read (the_host w) local_file of
             None \<Rightarrow> Some (- 1, print (''Error: cannot open '' @ quoted local_file) w)
           | Some f \<Rightarrow>
               (case net_connect host port w of
                  (None, w1) \<Rightarrow> Some (- 1, print (''Failed to connect to '' @ host @ '':'' @ port) w1)
                | (Some s, w1) \<Rightarrow>
                    (case isr_transmit_send_command s remote_path flags block_size file_size of
                       (False, s1) \<Rightarrow> Some (- 1, net_close s1 (print ''Failed to send command'' w1))
                     | (True, s1) \<Rightarrow>
                         (case net_recv_exact s1 255 of
                            (None, s2) \<Rightarrow> Some (- 1, net_close s2 (print ''Failed to read server response'' w1))
                          | (Some bs, s2) \<Rightarrow>
                              (let response = dec_response bs in
                               if response_type response = ISR_RESULT_OTHER_FAILURE then
                                 (case response_text response of
                                    None \<Rightarrow> None
                                  | Some msg \<Rightarrow> Some (- 1, net_close s2 (print (''Server error: '' @ msg) w1)))
                               else
                                 send_file_data s2 f flags block_size file_size (response_type response) w1))))))"

definition isr_cli_send_mkdir :: "string \<Rightarrow> string \<Rightarrow> string \<Rightarrow> world \<Rightarrow> (int \<times> world) option" where
  "isr_cli_send_mkdir host port remote_path w =
     (case net_connect host port w of
        (None, w1) \<Rightarrow> Some (- 1, print (''Failed to connect to '' @ host @ '':'' @ port) w1)
      | (Some s, w1) \<Rightarrow>
          (case isr_transmit_send_command s remote_path ISR_FLAG_CREATE_DIRECTORY 0 0 of
             (False, s1) \<Rightarrow> Some (- 1, net_close s1 (print ''Failed to send mkdir command'' w1))
           | (True, s1) \<Rightarrow>
               (case net_recv_exact s1 255 of
                  (None, s2) \<Rightarrow> Some (- 1, net_close s2 (print ''Failed to read server response'' w1))
                | (Some bs, s2) \<Rightarrow>
                    (let response = dec_response bs; w2 = net_close s2 w1 in
                     if response_type response \<noteq> ISR_RESULT_OK then
                       (case response_text response of
                          None \<Rightarrow> None
                        | Some msg \<Rightarrow>
                            Some (- 1, print (''Server error creating directory '' @ quoted remote_path @
                              '': '' @ msg) w2))
                     else Some (0, w2)))))"

text \<open>
  The loop over the entries of a directory; \<open>dir\<close> and \<open>file\<close> are the calls made for a
  directory and a file, with the remote and the local path.
\<close>

type_synonym transfer = "string \<Rightarrow> string \<Rightarrow> world \<Rightarrow> (int \<times> world) option"

fun send_entries ::
    "transfer \<Rightarrow> transfer \<Rightarrow> string \<Rightarrow> string \<Rightarrow> string list \<Rightarrow> int \<Rightarrow> world \<Rightarrow> (int \<times> world) option" where
  "send_entries dir file remote_path local_dir [] result w = Some (result, w)"
| "send_entries dir file remote_path local_dir (d # ds) result w =
     (if d = ''.'' \<or> d = ''..'' then send_entries dir file remote_path local_dir ds result w
      else
        (let local_entry = fst (snprintf_path ISR_PATH_MAX local_dir d);
             remote_entry = fst (snprintf_path ISR_PATH_MAX remote_path d) in
         case isr_stat (the_host w) local_entry of
           None \<Rightarrow>
             send_entries dir file remote_path local_dir ds (- 1)
               (print (''Error: cannot stat '' @ quoted local_entry) w)
         | Some (is_dir, _) \<Rightarrow>
             if is_dir then
               (case dir remote_entry local_entry w of
                  None \<Rightarrow> None
                | Some (r, w1) \<Rightarrow>
                    if r \<noteq> 0 then
                      send_entries dir file remote_path local_dir ds (- 1)
                        (print (''Failed to upload directory: '' @ local_entry) w1)
                    else send_entries dir file remote_path local_dir ds result w1)
             else
               (case file remote_entry local_entry
                       (print (''  Uploading: '' @ local_entry @ '' -> '' @ remote_entry) w) of
                  None \<Rightarrow> None
                | Some (r, w1) \<Rightarrow>
                    if r \<noteq> 0 then
                      send_entries dir file remote_path local_dir ds (- 1)
                        (print (''Failed to upload file: '' @ local_entry) w1)
                    else send_entries dir file remote_path local_dir ds result w1)))"

text \<open>
  One call of \<open>isr_cli_send_directory\<close>, with the recursive call as an argument, and the
  recursion on a bound. Every call that goes on uses up a connection, so the number of
  connections bounds the depth.
\<close>

definition send_directory_with ::
    "transfer \<Rightarrow> string \<Rightarrow> string \<Rightarrow> string \<Rightarrow> string \<Rightarrow> u8 \<Rightarrow> u32 \<Rightarrow> world \<Rightarrow> (int \<times> world) option" where
  "send_directory_with dir host port remote_path local_dir flags block_size w =
     (let w0 = print (''Uploading directory: '' @ local_dir @ '' -> '' @ remote_path) w in
      case isr_cli_send_mkdir host port remote_path w0 of
        None \<Rightarrow> None
      | Some (r, w1) \<Rightarrow>
          if r \<noteq> 0 then Some (- 1, print (''Failed to create remote directory: '' @ remote_path) w1)
          else
            (case opendir (the_host w1) local_dir of
               None \<Rightarrow> Some (- 1, print (''Error: cannot open directory '' @ quoted local_dir) w1)
             | Some entries \<Rightarrow>
                 (case send_entries dir
                         (\<lambda>remote local. isr_cli_send_file host port remote local flags block_size)
                         remote_path local_dir entries 0 w1 of
                    None \<Rightarrow> None
                  | Some (result, w2) \<Rightarrow>
                      Some (result,
                        if result = 0 then print (''Directory upload complete: '' @ remote_path) w2 else w2))))"

primrec send_directory_upto ::
    "nat \<Rightarrow> string \<Rightarrow> string \<Rightarrow> string \<Rightarrow> string \<Rightarrow> u8 \<Rightarrow> u32 \<Rightarrow> world \<Rightarrow> (int \<times> world) option" where
  "send_directory_upto 0 host port remote_path local_dir flags block_size w = None"
| "send_directory_upto (Suc n) host port remote_path local_dir flags block_size w =
     send_directory_with (\<lambda>remote local. send_directory_upto n host port remote local flags block_size)
       host port remote_path local_dir flags block_size w"

definition isr_cli_send_directory ::
    "string \<Rightarrow> string \<Rightarrow> string \<Rightarrow> string \<Rightarrow> u8 \<Rightarrow> u32 \<Rightarrow> world \<Rightarrow> (int \<times> world) option" where
  "isr_cli_send_directory host port remote_path local_dir flags block_size w =
     send_directory_upto (Suc (length (conns w))) host port remote_path local_dir flags block_size w"

section \<open>Receiving\<close>

text \<open>The part that \<open>isr_cli_recv\<close> and \<open>isr_cli_download_file\<close> share: the file is open.\<close>

definition recv_to_file ::
    "string \<Rightarrow> sock \<Rightarrow> fd \<Rightarrow> u8 \<Rightarrow> u32 \<Rightarrow> u64 \<Rightarrow> string \<Rightarrow> world \<Rightarrow> (int \<times> world) option" where
  "recv_to_file indent s f flags block_size effective_length success w =
     (case receive_file_data s (the_host w) f flags block_size effective_length of
        None \<Rightarrow> None
      | Some (result, s1, h1) \<Rightarrow>
          (let w1 = net_close s1 (set_host h1 w) in
           if result = - 1 then Some (- 1, print (indent @ ''Failed to receive file.'') w1)
           else if result = - 2 then Some (- 1, print (indent @ ''Checksum mismatch!'') w1)
           else Some (0, if success = [] then w1 else print success w1)))"

definition isr_cli_recv ::
    "string \<Rightarrow> string \<Rightarrow> string \<Rightarrow> string \<Rightarrow> u8 \<Rightarrow> u32 \<Rightarrow> world \<Rightarrow> (int \<times> world) option" where
  "isr_cli_recv host port remote_path local_dir flags block_size w =
     (case recv_connect host port remote_path flags block_size w of
        (None, w1) \<Rightarrow> Some (- 1, w1)
      | (Some (s, conf), w1) \<Rightarrow>
          (let effective_length = conf_length conf in
           if conf_type conf = ISR_RECV_TYPE_NOT_FOUND then
             Some (- 1, net_close s (print ''Path not found on server.'' w1))
           else if conf_type conf = ISR_RESULT_OTHER_FAILURE then
             Some (- 1, net_close s (print ''Server error.'' w1))
           else if conf_type conf = ISR_RECV_TYPE_DIRECTORY then
             (case send_go s (print (''Directory listing for '' @ quoted remote_path @ '':'') w1) of
                (False, s1, w2) \<Rightarrow> Some (- 1, net_close s1 w2)
              | (True, s1, w2) \<Rightarrow>
                  (case isr_receive_directory_listing s1 (the_host w2) effective_length of
                     (result, s2, h2) \<Rightarrow>
                       Some (if result = 0 then 0 else - 1, net_close s2 (set_host h2 w2))))
           else if conf_type conf = ISR_RECV_TYPE_FILE then
             (case send_go s (print (''Receiving file ('' @ udec (unat effective_length) @ '' bytes)...'') w1) of
                (False, s1, w2) \<Rightarrow> Some (- 1, net_close s1 w2)
              | (True, s1, w2) \<Rightarrow>
                  (let out_path = fst (snprintf_path ISR_PATH_MAX local_dir (base_name remote_path));
                       h1 = snd (isr_mkdir_recursive (the_host w2) local_dir) in
                   case isr_open_write h1 out_path of
                     (None, h2) \<Rightarrow>
                       Some (- 1, net_close s1
                         (print (''Error: cannot open '' @ quoted out_path @ '' for writing'') (set_host h2 w2)))
                   | (Some f, h2) \<Rightarrow>
                       recv_to_file [] s1 f flags block_size effective_length
                         (''Received '' @ quoted out_path @ '' successfully.'') (set_host h2 w2)))
           else
             Some (- 1, net_close s
               (print (''Unexpected response type: '' @ hex2 (conf_type conf)) w1))))"

definition isr_cli_download_file ::
    "string \<Rightarrow> string \<Rightarrow> string \<Rightarrow> string \<Rightarrow> u8 \<Rightarrow> u32 \<Rightarrow> world \<Rightarrow> (int \<times> world) option" where
  "isr_cli_download_file host port remote_path local_path flags block_size w =
     (case recv_connect host port remote_path flags block_size w of
        (None, w1) \<Rightarrow> Some (- 1, w1)
      | (Some (s, conf), w1) \<Rightarrow>
          (let effective_length = conf_length conf in
           if conf_type conf = ISR_RECV_TYPE_NOT_FOUND then
             Some (- 1, net_close s (print (''  File not found: '' @ remote_path) w1))
           else if conf_type conf \<noteq> ISR_RECV_TYPE_FILE then
             Some (- 1, net_close s
               (print (''  Expected file but got type '' @ hex2 (conf_type conf) @ '' for '' @ remote_path) w1))
           else
             (case send_go s w1 of
                (False, s1, w2) \<Rightarrow> Some (- 1, net_close s1 w2)
              | (True, s1, w2) \<Rightarrow>
                  (case isr_open_write (made_parents (the_host w2) local_path) local_path of
                     (None, h2) \<Rightarrow>
                       Some (- 1, net_close s1
                         (print (''Error: cannot open '' @ quoted local_path @ '' for writing'') (set_host h2 w2)))
                   | (Some f, h2) \<Rightarrow>
                       recv_to_file ''  '' s1 f flags block_size effective_length []
                         (print (''  Downloading: '' @ remote_path @ '' -> '' @ local_path @ '' ('' @
                           udec (unat effective_length) @ '' bytes)'') (set_host h2 w2))))))"

text \<open>The loop over the entries of a listing.\<close>

fun download_entries ::
    "transfer \<Rightarrow> transfer \<Rightarrow> string \<Rightarrow> string \<Rightarrow> isr_cli_dir_entry list \<Rightarrow> int \<Rightarrow> world \<Rightarrow> (int \<times> world) option"
where
  "download_entries dir file remote_path local_dir [] result w = Some (result, w)"
| "download_entries dir file remote_path local_dir (e # es) result w =
     (let remote_entry = fst (snprintf_path ISR_PATH_MAX remote_path (de_name e));
          local_entry = fst (snprintf_path ISR_PATH_MAX local_dir (de_name e)) in
      if de_is_directory e \<noteq> 0 then
        (case dir remote_entry local_entry w of
           None \<Rightarrow> None
         | Some (r, w1) \<Rightarrow>
             if r \<noteq> 0 then
               download_entries dir file remote_path local_dir es (- 1)
                 (print (''Failed to download directory: '' @ remote_entry) w1)
             else download_entries dir file remote_path local_dir es result w1)
      else
        (case file remote_entry local_entry w of
           None \<Rightarrow> None
         | Some (r, w1) \<Rightarrow>
             if r \<noteq> 0 then
               download_entries dir file remote_path local_dir es (- 1)
                 (print (''Failed to download file: '' @ remote_entry) w1)
             else download_entries dir file remote_path local_dir es result w1))"

text \<open>The part of \<open>isr_cli_download_directory\<close> after the connection is closed.\<close>

definition download_listed ::
    "transfer \<Rightarrow> transfer \<Rightarrow> string \<Rightarrow> string \<Rightarrow> bytes \<Rightarrow> world \<Rightarrow> (int \<times> world) option" where
  "download_listed dir file remote_path local_dir buf w =
     (case isr_cli_parse_directory_listing (the_host w) buf of
        (entries, entry_count) \<Rightarrow>
          if entries = None \<and> entry_count \<noteq> 0 then
            Some (- 1, print ''Failed to parse directory listing'' w)
          else
            (let w1 = set_host (snd (isr_mkdir_recursive (the_host w) local_dir)) w in
             case download_entries dir file remote_path local_dir
                    (case entries of None \<Rightarrow> [] | Some es \<Rightarrow> es) 0 w1 of
               None \<Rightarrow> None
             | Some (result, w2) \<Rightarrow>
                 Some (result,
                   if result = 0 then print (''Directory download complete: '' @ remote_path) w2 else w2)))"

definition download_directory_with ::
    "transfer \<Rightarrow> string \<Rightarrow> string \<Rightarrow> string \<Rightarrow> string \<Rightarrow> u8 \<Rightarrow> u32 \<Rightarrow> world \<Rightarrow> (int \<times> world) option" where
  "download_directory_with dir host port remote_path local_dir flags block_size w =
     (let w0 = print (''Downloading directory: '' @ remote_path @ '' -> '' @ local_dir) w;
          file = (\<lambda>remote local. isr_cli_download_file host port remote local flags block_size) in
      case recv_connect host port remote_path flags block_size w0 of
        (None, w1) \<Rightarrow> Some (- 1, w1)
      | (Some (s, conf), w1) \<Rightarrow>
          (let effective_length = conf_length conf in
           if conf_type conf = ISR_RECV_TYPE_NOT_FOUND then
             Some (- 1, net_close s (print (''Directory not found on server: '' @ remote_path) w1))
           else if conf_type conf = ISR_RESULT_OTHER_FAILURE then
             Some (- 1, net_close s (print (''Server error for path: '' @ remote_path) w1))
           else if conf_type conf = ISR_RECV_TYPE_FILE then
             file remote_path (fst (snprintf_path ISR_PATH_MAX local_dir (base_name remote_path))) (net_close s w1)
           else if conf_type conf \<noteq> ISR_RECV_TYPE_DIRECTORY then
             Some (- 1, net_close s (print (''Unexpected response type: '' @ hex2 (conf_type conf)) w1))
           else
             (case send_go s w1 of
                (False, s1, w2) \<Rightarrow> Some (- 1, net_close s1 w2)
              | (True, s1, w2) \<Rightarrow>
                  (case recv_verified_listing s1 (the_host w2) effective_length of
                     (buf, s2, h2) \<Rightarrow>
                       (let w3 = net_close s2 (set_host h2 w2) in
                        case buf of
                          None \<Rightarrow> Some (- 1, w3)
                        | Some buf \<Rightarrow> download_listed dir file remote_path local_dir buf w3)))))"

primrec download_directory_upto ::
    "nat \<Rightarrow> string \<Rightarrow> string \<Rightarrow> string \<Rightarrow> string \<Rightarrow> u8 \<Rightarrow> u32 \<Rightarrow> world \<Rightarrow> (int \<times> world) option" where
  "download_directory_upto 0 host port remote_path local_dir flags block_size w = None"
| "download_directory_upto (Suc n) host port remote_path local_dir flags block_size w =
     download_directory_with (\<lambda>remote local. download_directory_upto n host port remote local flags block_size)
       host port remote_path local_dir flags block_size w"

definition isr_cli_download_directory ::
    "string \<Rightarrow> string \<Rightarrow> string \<Rightarrow> string \<Rightarrow> u8 \<Rightarrow> u32 \<Rightarrow> world \<Rightarrow> (int \<times> world) option" where
  "isr_cli_download_directory host port remote_path local_dir flags block_size w =
     download_directory_upto (Suc (length (conns w))) host port remote_path local_dir flags block_size w"

section \<open>Connections bound the recursion\<close>

lemma world_conns [simp]:
  "conns (print l w) = conns w" "conns (net_close s w) = conns w" "conns (set_host h w) = conns w"
  by (simp_all add: print_def net_close_def set_host_def)

abbreviation left :: "world \<Rightarrow> nat" where
  "left w \<equiv> length (conns w)"

lemma net_connect_left:
  "net_connect host port w = (c, w') \<Longrightarrow> left w' \<le> left w \<and> (c = None \<or> left w' < left w)"
  by (auto simp: net_connect_def split: list.splits)

text \<open>A result, if there is one, with at most \<open>k\<close> connections left.\<close>

definition within :: "nat \<Rightarrow> (int \<times> world) option \<Rightarrow> bool" where
  "within k res \<longleftrightarrow> (\<forall>r w. res = Some (r, w) \<longrightarrow> left w \<le> k)"

lemma within_simps [simp]: "within k None" "within k (Some (r, w)) \<longleftrightarrow> left w \<le> k"
  by (simp_all add: within_def)

lemma within_if [simp]: "within k (if c then a else b) \<longleftrightarrow> (if c then within k a else within k b)"
  by simp

definition thrifty :: "transfer \<Rightarrow> bool" where
  "thrifty t \<longleftrightarrow> (\<forall>remote local w. within (left w) (t remote local w))"

lemma thriftyD: "thrifty t \<Longrightarrow> t remote local w = Some (r, w') \<Longrightarrow> left w' \<le> left w"
  unfolding thrifty_def within_def by blast

lemma within_send_file_data: "left w \<le> k \<Longrightarrow> within k (send_file_data s f flags b len t w)"
proof -
  assume "left w \<le> k"
  then have "within k (send_file_result s1 v)" if "left v \<le> k" for s1 v
    using that by (simp add: send_file_result_def Let_def split: option.split prod.split)
  with \<open>left w \<le> k\<close> show ?thesis
    by (simp add: send_file_data_def Let_def split: option.split prod.split)
qed

lemma thrifty_send_file: "thrifty (\<lambda>remote local. isr_cli_send_file host port remote local flags b)"
  unfolding thrifty_def
proof (intro allI)
  fix remote local w
  obtain c w1 where c: "net_connect host port w = (c, w1)" by force
  then have "left w1 \<le> left w" by (auto dest: net_connect_left)
  then show "within (left w) (isr_cli_send_file host port remote local flags b w)"
    unfolding isr_cli_send_file_def c Let_def
    by (simp add: within_send_file_data split: option.split prod.split bool.split)
qed

lemma recv_connect_left:
  "recv_connect host port remote_path flags b w = (res, w') \<Longrightarrow> left w' \<le> left w \<and> (res = None \<or> left w' < left w)"
  by (auto simp: recv_connect_def split: option.splits prod.splits bool.splits dest!: net_connect_left)

lemma within_recv_to_file [simp]:
  "left w \<le> k \<Longrightarrow> within k (recv_to_file indent s f flags b len success w)"
  by (simp add: recv_to_file_def Let_def split: option.split prod.split)

lemma send_go_left: "send_go s w = (ok, s', w') \<Longrightarrow> left w' = left w"
  by (auto simp: send_go_def split: prod.splits if_splits)

lemma thrifty_download_file: "thrifty (\<lambda>remote local. isr_cli_download_file host port remote local flags b)"
  unfolding thrifty_def
proof (intro allI)
  fix remote local w
  obtain c w1 where c: "recv_connect host port remote flags b w = (c, w1)" by force
  then have "left w1 \<le> left w" by (auto dest: recv_connect_left)
  then show "within (left w) (isr_cli_download_file host port remote local flags b w)"
    unfolding isr_cli_download_file_def c Let_def
    by (simp add: send_go_left split: option.split prod.split bool.split)
qed

lemma send_mkdir_left:
  "isr_cli_send_mkdir host port remote_path w = Some (r, w') \<Longrightarrow> left w' \<le> left w \<and> (r = 0 \<longrightarrow> left w' < left w)"
  by (auto simp: isr_cli_send_mkdir_def Let_def split: option.splits prod.splits bool.splits if_splits
    dest!: net_connect_left)

lemma send_entries_left:
  assumes "thrifty dir" "thrifty file" "send_entries dir file remote_path local_dir ds result w = Some (r, w')"
  shows "left w' \<le> left w"
  using assms(3)
proof (induction ds arbitrary: result w)
  case (Cons d ds)
  then show ?case
    by (auto simp: Let_def split: if_splits option.splits prod.splits dest!: thriftyD [OF assms(1)] thriftyD [OF assms(2)])
      force+
qed simp

lemma download_entries_left:
  assumes "thrifty dir" "thrifty file" "download_entries dir file remote_path local_dir es result w = Some (r, w')"
  shows "left w' \<le> left w"
  using assms(3)
proof (induction es arbitrary: result w)
  case (Cons e es)
  then show ?case
    by (auto simp: Let_def split: if_splits option.splits prod.splits dest!: thriftyD [OF assms(1)] thriftyD [OF assms(2)])
      force+
qed simp

text \<open>The loops only call their argument on worlds with no more connections.\<close>

lemma send_entries_cong:
  assumes "thrifty dir" "thrifty file" "\<And>remote local w. left w \<le> k \<Longrightarrow> dir remote local w = dir' remote local w" "left w \<le> k"
  shows "send_entries dir file remote_path local_dir ds result w = send_entries dir' file remote_path local_dir ds result w"
  using assms(4)
proof (induction ds arbitrary: result w)
  case (Cons d ds)
  have "left w1 \<le> k" if "dir remote local v = Some (x, w1)" "left v \<le> k" for remote local v x w1
    using thriftyD [OF assms(1) that(1)] that(2) by simp
  moreover have "left w1 \<le> k" if "file remote local v = Some (x, w1)" "left v \<le> k" for remote local v x w1
    using thriftyD [OF assms(2) that(1)] that(2) by simp
  ultimately show ?case
    using Cons assms(3) by (auto simp: Let_def split: option.splits prod.splits)
qed simp

lemma download_entries_cong:
  assumes "thrifty dir" "thrifty file" "\<And>remote local w. left w \<le> k \<Longrightarrow> dir remote local w = dir' remote local w" "left w \<le> k"
  shows "download_entries dir file remote_path local_dir es result w = download_entries dir' file remote_path local_dir es result w"
  using assms(4)
proof (induction es arbitrary: result w)
  case (Cons e es)
  have "left w1 \<le> k" if "dir remote local v = Some (x, w1)" "left v \<le> k" for remote local v x w1
    using thriftyD [OF assms(1) that(1)] that(2) by simp
  moreover have "left w1 \<le> k" if "file remote local v = Some (x, w1)" "left v \<le> k" for remote local v x w1
    using thriftyD [OF assms(2) that(1)] that(2) by simp
  ultimately show ?case
    using Cons assms(3) by (auto simp: Let_def split: option.splits prod.splits)
qed simp

text \<open>With enough fuel the recursive calls are thrifty and the fuel does not matter.\<close>

lemma thrifty_send_directory_upto:
  "thrifty (\<lambda>remote local. send_directory_upto n host port remote local flags b)"
proof (induction n)
  case (Suc n)
  let ?file = "\<lambda>remote local. isr_cli_send_file host port remote local flags b"
  let ?dir = "\<lambda>remote local. send_directory_upto n host port remote local flags b"
  have "left w' \<le> left w" if "send_directory_with ?dir host port remote local flags b w = Some (r, w')" for remote local w r w'
    using that
    by (auto simp: send_directory_with_def Let_def split: option.splits prod.splits if_splits
      dest!: send_mkdir_left send_entries_left [OF Suc thrifty_send_file])
  then show ?case by (simp add: thrifty_def within_def)
qed (simp add: thrifty_def)

lemma thrifty_download_directory_upto:
  "thrifty (\<lambda>remote local. download_directory_upto n host port remote local flags b)"
proof (induction n)
  case (Suc n)
  let ?file = "\<lambda>remote local. isr_cli_download_file host port remote local flags b"
  let ?dir = "\<lambda>remote local. download_directory_upto n host port remote local flags b"
  have listed: "within k (download_listed ?dir ?file remote local buf v)" if "left v \<le> k" for k remote local buf v
  proof -
    obtain entries n where p: "isr_cli_parse_directory_listing (the_host v) buf = (entries, n)" by force
    show ?thesis
      using that download_entries_left [OF Suc thrifty_download_file]
      by (fastforce simp: download_listed_def p Let_def within_def split: option.splits if_splits)
  qed
  have single: "within k (?file remote local v)" if "left v \<le> k" for k remote local v
    using thrifty_download_file that unfolding thrifty_def within_def by (meson le_trans)
  have "within (left w) (download_directory_with ?dir host port remote local flags b w)" for remote local w
  proof -
    obtain c w1 where c: "recv_connect host port remote flags b (print (''Downloading directory: '' @ remote @ '' -> '' @ local) w) = (c, w1)"
      by force
    then have "left w1 \<le> left w" by (auto dest: recv_connect_left)
    then show ?thesis
      unfolding download_directory_with_def c Let_def
      by (simp add: listed single send_go_left split: option.split prod.split bool.split)
  qed
  then show ?case by (simp add: thrifty_def)
qed (simp add: thrifty_def)

lemma send_directory_upto_enough:
  assumes "left w < n" "left w < m"
  shows "send_directory_upto n host port remote local flags b w = send_directory_upto m host port remote local flags b w"
  using assms
proof (induction n arbitrary: m remote local w)
  case (Suc n)
  obtain m' where m: "m = Suc m'" using Suc.prems(2) by (cases m) auto
  let ?dir = "\<lambda>n remote local. send_directory_upto n host port remote local flags b"
  have loop: "send_entries (?dir n) f remote local ds 0 v = send_entries (?dir m') f remote local ds 0 v"
    if "left v < left w" "thrifty f" for f remote local ds v
  proof (rule send_entries_cong [OF thrifty_send_directory_upto that(2) _ order_refl])
    fix remote local v'
    assume "left v' \<le> left v"
    with that(1) Suc.prems m show "?dir n remote local v' = ?dir m' remote local v'"
      by (intro Suc.IH) simp_all
  qed
  show ?case
    unfolding m send_directory_upto.simps send_directory_with_def Let_def
    by (auto simp: loop [OF _ thrifty_send_file] split: option.splits prod.splits if_splits dest!: send_mkdir_left)
qed simp

lemma download_directory_upto_enough:
  assumes "left w < n" "left w < m"
  shows "download_directory_upto n host port remote local flags b w = download_directory_upto m host port remote local flags b w"
  using assms
proof (induction n arbitrary: m remote local w)
  case (Suc n)
  obtain m' where m: "m = Suc m'" using Suc.prems(2) by (cases m) auto
  let ?dir = "\<lambda>n remote local. download_directory_upto n host port remote local flags b"
  have loop: "download_entries (?dir n) f remote local es 0 v = download_entries (?dir m') f remote local es 0 v"
    if "left v < left w" "thrifty f" for f remote local es v
  proof (rule download_entries_cong [OF thrifty_download_directory_upto that(2) _ order_refl])
    fix remote local v'
    assume "left v' \<le> left v"
    with that(1) Suc.prems m show "?dir n remote local v' = ?dir m' remote local v'"
      by (intro Suc.IH) simp_all
  qed
  obtain c w1 where c: "recv_connect host port remote flags b (print (''Downloading directory: '' @ remote @ '' -> '' @ local) w) = (c, w1)"
    by force
  show ?case
  proof (cases c)
    case (Some sc)
    obtain s conf where sc: "c = Some (s, conf)" using Some by (cases sc) auto
    have "left w1 < left w" using recv_connect_left [OF c] sc by simp
    obtain ok s1 w2 where go: "send_go s w1 = (ok, s1, w2)" by (metis prod_cases3)
    obtain buf s2 h2 where buf: "recv_verified_listing s1 (the_host w2) (conf_length conf) = (buf, s2, h2)"
      by (metis prod_cases3)
    have "left (set_host x (net_close s2 (set_host h2 w2))) < left w" for x
      using send_go_left [OF go] \<open>left w1 < left w\<close> by simp
    note same = loop [OF this thrifty_download_file]
    show ?thesis
      unfolding m download_directory_upto.simps download_directory_with_def c Let_def sc option.case prod.case go buf
        download_listed_def same ..
  next
    case None
    then show ?thesis
      unfolding m download_directory_upto.simps download_directory_with_def Let_def c by simp
  qed
qed simp

section \<open>The client's side of the dialogues\<close>

lemma world_host [simp]:
  "the_host (print l w) = say l (the_host w)" "the_host (net_close s w) = the_host w"
  "the_host (set_host h w) = h" "closed (print l w) = closed w" "closed (set_host h w) = closed w"
  "closed (net_close s w) = closed w @ [s]"
  by (simp_all add: print_def net_close_def set_host_def)

lemma say_host [simp]:
  "node_at (say l h) = node_at h" "rd_live (say l h) = rd_live h" "wr_live (say l h) = wr_live h"
  "can_compress c b (say l h) = can_compress c b h"
  by (simp_all add: say_def rd_live_def wr_live_def can_compress_def heap_ok_def malloc_def)

text \<open>What a client that only reads leaves of its host.\<close>

definition reads :: "host \<Rightarrow> host \<Rightarrow> bool" where
  "reads h h' \<longleftrightarrow> nodes h' = nodes h \<and> cwd h' = cwd h \<and> deny h' = deny h \<and> dir_size h' = dir_size h \<and>
     heap_at h' = heap_at h \<and> (rd_live h \<longrightarrow> rd_live h')"

lemma reads_refl [simp]: "reads h h"
  by (simp add: reads_def)

lemma reads_trans: "reads h h' \<Longrightarrow> reads h' h'' \<Longrightarrow> reads h h''"
  by (simp add: reads_def)

lemma reads_say [simp]: "reads h (say l h')\<longleftrightarrow> reads h h'" "reads (say l h) h' \<longleftrightarrow> reads h h'"
  by (simp_all add: reads_def say_def rd_live_def)

lemma rd_only_reads: "rd_only h h' \<Longrightarrow> rd_live h' \<Longrightarrow> reads h h'"
  unfolding rd_only_def reads_def by (metis host.select_convs(1,2,3,4,7) host.surjective host.update_convs(5))

lemma reads_node_at: "reads h h' \<Longrightarrow> node_at h' = node_at h"
  by (simp add: reads_def node_at_def fun_eq_iff)

text \<open>What a client that writes the file at \<open>p\<close> leaves of its host.\<close>

definition writes :: "fpath \<Rightarrow> host \<Rightarrow> host \<Rightarrow> bool" where
  "writes p h h' \<longleftrightarrow> (\<forall>q. q \<noteq> p \<longrightarrow> node_at h' q = node_at h q) \<and> deny h' = deny h \<and> heap_at h' = heap_at h \<and>
     (wr_live h \<longrightarrow> wr_live h')"

lemma writes_say [simp]: "writes p h (say l h') \<longleftrightarrow> writes p h h'" "writes p (say l h) h' \<longleftrightarrow> writes p h h'"
  by (simp_all add: writes_def) (simp_all add: say_def)

lemma file_rel_writes: "file_rel h f h' f' \<Longrightarrow> wr_live h' \<Longrightarrow> writes (fd_path f) h h'"
  by (simp add: file_rel_def same_but_def writes_def)

lemma recv_response:
  assumes "sock_ok s" "pending s = enc_response (isr_response_from_result t) @ rest"
  obtains bs s' where "net_recv_exact s 255 = (Some bs, s')" "response_type (dec_response bs) = t"
    "pending s' = rest" "sock_ok s'" "tx s' = tx s" "tx_live s' = tx_live s"
proof -
  obtain s' where "net_recv_exact s 255 = (Some (enc_response (isr_response_from_result t)), s')"
    "dec_response (enc_response (isr_response_from_result t)) = isr_response_from_result t"
    "pending s' = rest" "sock_ok s'" "tx s' = tx s" "tx_live s' = tx_live s"
    using tcp_response.recv_frame [OF assms response_wf(2)] .
  with that show ?thesis by simp
qed

lemma answer_type_ok: "answer_type st \<noteq> ISR_RESULT_OTHER_FAILURE"
  by (simp add: answer_type_def isr_consts)

lemma client_upload:
  assumes "lookup (the_host w) local True = Found p" "node_at (the_host w) p = Some (File data)"
    "\<not> deny (the_host w) p" "rd_live (the_host w)" "can_compress (has_flag flags ISR_FLAG_USE_COMPRESSION) b (the_host w)"
    and "length data < 2 ^ 55" "length remote < 65536" "conns w = Some c # cs" "sock_ok c" "tx_live c"
    and "pending c = enc_response (isr_response_from_result (answer_type st)) @
      enc_response (isr_response_from_result ISR_RESULT_OK) @ rest"
  shows "\<exists>w' c' pl. isr_cli_send_file host port remote local flags b w = Some (0, w') \<and>
    closed w' = closed w @ [c'] \<and> is_payload (has_flag flags ISR_FLAG_USE_COMPRESSION) b data pl \<and>
    tx c' = tx c @ send_request remote flags b (word_of_nat (length data)) @ pl \<and>
    conns w' = cs \<and> reads (the_host w) (the_host w')"
proof -
  let ?comp = "has_flag flags ISR_FLAG_USE_COMPRESSION" and ?len = "word_of_nat (length data) :: u64"
  let ?f = "\<lparr>fd_path = p, fd_pos = 0\<rparr>"
  have stat: "isr_stat (the_host w) local = Some (False, ?len)" "isr_open_read (the_host w) local = Some ?f"
    using assms(1-3) by (simp_all add: isr_stat_def isr_open_read_def)
  obtain w1 where w1: "net_connect host port w = (Some c, w1)" "the_host w1 = the_host w" "closed w1 = closed w" "conns w1 = cs"
    using assms(8) by (simp add: net_connect_def)
  obtain s1 where s1: "isr_transmit_send_command c remote flags b ?len = (True, s1)"
    "tx s1 = tx c @ send_request remote flags b ?len" "pending s1 = pending c" "sock_ok s1 = sock_ok c" "tx_live s1"
    using isr_transmit_send_command_live [OF assms(10,7)] .
  have "sock_ok s1" "pending s1 = enc_response (isr_response_from_result (answer_type st)) @
      enc_response (isr_response_from_result ISR_RESULT_OK) @ rest" using s1 assms(9,11) by simp_all
  then obtain bs2 s2 where s2: "net_recv_exact s1 255 = (Some bs2, s2)" "response_type (dec_response bs2) = answer_type st"
    "pending s2 = enc_response (isr_response_from_result ISR_RESULT_OK) @ rest" "sock_ok s2" "tx s2 = tx s1"
    "tx_live s2 = tx_live s1"
    by (rule recv_response)
  define w2 where "w2 = print (''Server accepted ('' @ (if answer_type st = ISR_SEND_RESPONSE_CREATING then ''creating''
      else ''overwriting'') @ ''). Sending '' @ udec (unat ?len) @ '' bytes...'') w1"
  have h2: "node_at (the_host w2) = node_at (the_host w)" "rd_live (the_host w2)" "can_compress ?comp b (the_host w2)"
    "closed w2 = closed w" "conns w2 = cs" "reads (the_host w) (the_host w2)"
    using assms(4,5) w1 by (simp_all add: w2_def)
  obtain s3 h3 pl where s3: "(if ?comp then isr_transmit_file_compressed s2 (the_host w2) ?f b
      else Some (isr_transmit_file_uncompressed s2 (the_host w2) ?f)) = Some (sint (isr_count_byte_values data), s3, h3)"
    "is_payload ?comp b data pl" "tx s3 = tx s2 @ pl" "pending s3 = pending s2" "sock_ok s3 = sock_ok s2" "tx_live s3"
    "rd_only (the_host w2) h3" "rd_live h3"
    using tx_payload [of "the_host w2" ?f data s2 ?comp b] assms(2) h2 s1(5) s2(6) by auto
  have "sock_ok s3" "pending s3 = enc_response (isr_response_from_result ISR_RESULT_OK) @ rest" using s2 s3 by simp_all
  then obtain bs4 s4 where s4: "net_recv_exact s3 255 = (Some bs4, s4)" "response_type (dec_response bs4) = ISR_RESULT_OK"
    "tx s4 = tx s3"
    by (rule recv_response) simp
  have "send_file_data s2 ?f flags b ?len (answer_type st) w1 = send_file_result s3 (set_host h3 w2)"
    using s3(1) count_small [OF assms(6)] unfolding send_file_data_def w2_def [symmetric] Let_def by simp
  moreover have "send_file_result s3 (set_host h3 w2) = Some (0, net_close s4 (print ''Send successful.'' (set_host h3 w2)))"
    using s4 by (simp add: send_file_result_def Let_def)
  moreover have "isr_cli_send_file host port remote local flags b w = send_file_data s2 ?f flags b ?len (answer_type st) w1"
    using stat w1(1) s1(1) s2(1,2) answer_type_ok [of st] by (simp add: isr_cli_send_file_def Let_def)
  ultimately show ?thesis
    using h2 s1 s2 s3 s4 reads_trans [OF h2(6) rd_only_reads [OF s3(7,8)]] by simp
qed

lemma send_go_live:
  assumes "tx_live s"
  obtains s' where "send_go s w = (True, s', w)" "tx s' = tx s @ [ISR_RECV_GO]" "pending s' = pending s"
    "sock_ok s' = sock_ok s" "tx_live s'"
proof -
  obtain r s' where e: "net_send s [ISR_RECV_GO] = (r, s')" by force
  note c = net_send_cases [OF e]
  have "r = 1" using c(4) c(6) [OF assms] by simp
  with e c(1,3) c(5) [OF assms] that [of s'] show ?thesis by (simp add: send_go_def pending_def sock_ok_def)
qed

lemma recv_connect_live:
  assumes "conns w = Some c # cs" "sock_ok c" "tx_live c" "length remote < 65536"
    and "pending c = enc_confirmation conf @ rest"
  obtains s w' where "recv_connect host port remote flags b w = (Some (s, conf), w')" "the_host w' = the_host w"
    "closed w' = closed w" "tx s = tx c @ recv_request remote flags b" "pending s = rest" "sock_ok s" "tx_live s"
    "conns w' = cs"
proof -
  obtain w1 where w1: "net_connect host port w = (Some c, w1)" "the_host w1 = the_host w" "closed w1 = closed w" "conns w1 = cs"
    using assms(1) by (simp add: net_connect_def)
  obtain s1 where s1: "isr_transmit_recv_command c remote flags b = (True, s1)"
    "tx s1 = tx c @ recv_request remote flags b" "pending s1 = pending c" "sock_ok s1 = sock_ok c" "tx_live s1"
    using isr_transmit_recv_command_live [OF assms(3,4)] .
  have "sock_ok s1" "pending s1 = enc_confirmation conf @ rest" using s1 assms(2,5) by simp_all
  then obtain s2 where "net_recv_exact s1 9 = (Some (enc_confirmation conf), s2)"
    "dec_confirmation (enc_confirmation conf) = conf" "pending s2 = rest" "sock_ok s2" "tx s2 = tx s1" "tx_live s2 = tx_live s1"
    by (rule tcp_confirmation.recv_frame [OF _ _ TrueI])
  with that w1 s1 show ?thesis by (simp add: recv_connect_def)
qed

lemma recv_to_file_ok:
  assumes "is_payload (has_flag flags ISR_FLAG_USE_COMPRESSION) b data pl" "length data < 2 ^ 55"
    and "can_compress (has_flag flags ISR_FLAG_USE_COMPRESSION) b (the_host w)" "sock_ok s" "pending s = pl @ rest"
    and "holds (the_host w) f []" "wr_live (the_host w)"
  shows "\<exists>w' s'. recv_to_file indent s f flags b (word_of_nat (length data)) success w = Some (0, w') \<and>
    closed w' = closed w @ [s'] \<and> tx s' = tx s \<and> node_at (the_host w') (fd_path f) = Some (File data) \<and>
    writes (fd_path f) (the_host w) (the_host w') \<and> conns w' = conns w"
proof -
  have len: "length data < 2 ^ 64" using assms(2) by simp
  obtain s1 f1 h1 where r: "(if has_flag flags ISR_FLAG_USE_COMPRESSION
      then isr_receive_file_compressed s (the_host w) f b (word_of_nat (length data))
      else Some (isr_receive_file_uncompressed s (the_host w) f (word_of_nat (length data)))) =
      Some (sint (isr_count_byte_values data), s1, f1, h1)"
    "holds h1 f1 data" "file_rel (the_host w) f h1 f1" "tx s1 = tx s" "wr_live h1"
    using rx_payload [OF assms(1,3) len assms(4-7)] by blast
  have "receive_file_data s (the_host w) f flags b (word_of_nat (length data)) = Some (0, s1, h1)"
    unfolding receive_file_data_def r(1) using count_small [OF assms(2)] by simp
  with r holds_file [OF r(2,3)] file_rel_writes [OF r(3,5)] show ?thesis
    by (simp add: recv_to_file_def Let_def)
qed

lemma client_download:
  assumes "conns w = Some c # cs" "sock_ok c" "tx_live c" "length remote < 65536" "length data < 2 ^ 55"
    and "is_payload (has_flag flags ISR_FLAG_USE_COMPRESSION) b data pl"
    and "pending c = enc_confirmation \<lparr>conf_type = ISR_RECV_TYPE_FILE, conf_length = word_of_nat (length data)\<rparr> @ pl"
    and "isr_open_write (made_parents (the_host w) local) local = (Some f, h2)" "wr_live h2"
    and "can_compress (has_flag flags ISR_FLAG_USE_COMPRESSION) b h2"
  shows "\<exists>w' c'. isr_cli_download_file host port remote local flags b w = Some (0, w') \<and>
    closed w' = closed w @ [c'] \<and> tx c' = tx c @ recv_request remote flags b @ [ISR_RECV_GO] \<and>
    node_at (the_host w') (fd_path f) = Some (File data) \<and> writes (fd_path f) h2 (the_host w') \<and> conns w' = cs"
proof -
  let ?conf = "\<lparr>conf_type = ISR_RECV_TYPE_FILE, conf_length = word_of_nat (length data) :: u64\<rparr>"
  obtain s w1 where 1: "recv_connect host port remote flags b w = (Some (s, ?conf), w1)" "the_host w1 = the_host w"
    "closed w1 = closed w" "tx s = tx c @ recv_request remote flags b" "pending s = pl" "sock_ok s" "tx_live s" "conns w1 = cs"
    using recv_connect_live [OF assms(1-4,7)] .
  obtain s1 where go: "send_go s w1 = (True, s1, w1)" "tx s1 = tx s @ [ISR_RECV_GO]" "pending s1 = pending s"
    "sock_ok s1 = sock_ok s" "tx_live s1"
    using send_go_live [OF 1(7)] .
  define v where "v = print (''  Downloading: '' @ remote @ '' -> '' @ local @ '' ('' @
    udec (unat (word_of_nat (length data) :: u64)) @ '' bytes)'') (set_host h2 w1)"
  have "holds h2 f []" using isr_open_write_Some [OF assms(8)] by simp
  then have v: "can_compress (has_flag flags ISR_FLAG_USE_COMPRESSION) b (the_host v)" "holds (the_host v) f []"
    "wr_live (the_host v)" "closed v = closed w" "conns v = cs"
    using assms(9,10) 1(3,8) by (simp_all add: v_def holds_def)
  have "sock_ok s1" "pending s1 = pl @ []" using go 1 by simp_all
  from recv_to_file_ok [OF assms(6,5) v(1) this v(2,3), of "''  ''" "[]"]
  obtain w' c' where "recv_to_file ''  '' s1 f flags b (word_of_nat (length data)) [] v = Some (0, w')"
    "closed w' = closed v @ [c']" "tx c' = tx s1" "node_at (the_host w') (fd_path f) = Some (File data)"
    "writes (fd_path f) (the_host v) (the_host w')" "conns w' = conns v"
    by blast
  moreover have "isr_cli_download_file host port remote local flags b w =
      recv_to_file ''  '' s1 f flags b (word_of_nat (length data)) [] v"
    unfolding isr_cli_download_file_def 1(1) option.case prod.case Let_def v_def
    using go(1) assms(8) 1(2) by (simp add: isr_consts)
  moreover have "writes (fd_path f) h2 (the_host w')" using calculation(5) by (simp add: v_def)
  ultimately show ?thesis using v 1 go by simp
qed

end
