(* ===== verification/Jail.thy ===== *)
theory Jail
  imports Session
begin

text \<open>
  What the request handlers can reach: the analysis of the paths that \<open>isr_resolve_path\<close>
  returns on a tree without symbolic links, of the directories that \<open>isr_mkdir_recursive\<close> makes
  for them, and the properties of the server that follow. The last section shows what symbolic
  links change.
\<close>

section \<open>Components\<close>

abbreviation dotdot :: string where
  "dotdot \<equiv> ''..''"

definition keep :: "string list \<Rightarrow> string list" where
  "keep cs = filter (\<lambda>c. c \<noteq> [] \<and> c \<noteq> ''.'') cs"

lemma keep_simps [simp]:
  "keep [] = []" "keep (a @ b) = keep a @ keep b"
  "keep (c # cs) = (if c = [] \<or> c = ''.'' then keep cs else c # keep cs)" "keep (keep cs) = keep cs"
  by (simp_all add: keep_def)

lemma keep_id: "\<forall>c \<in> set p. c \<noteq> [] \<and> c \<noteq> ''.'' \<Longrightarrow> keep p = p"
  by (simp add: keep_def)

lemma keep_subset: "set (keep cs) \<subseteq> set cs"
  by (auto simp: keep_def)

definition abs_path :: "string \<Rightarrow> bool" where
  "abs_path s \<longleftrightarrow> s \<noteq> [] \<and> hd s = CHR ''/''"

text \<open>All components, with both separators.\<close>

definition comps :: "string \<Rightarrow> string list" where
  "comps s = keep (split_on is_sep s)"

lemma split_on_refine: "split_on is_sep s = concat (map (split_on is_sep) (split_path s))"
proof (induction s)
  case (Cons c s)
  obtain a as where a: "split_path s = a # as" by (cases "split_path s") auto
  obtain b bs where b: "split_on is_sep a = b # bs" by (cases "split_on is_sep a") auto
  have "is_sep CHR ''/''" by (simp add: is_sep_def)
  with Cons a b show ?case by auto
qed simp

lemma keep_concat: "keep (concat xs) = concat (map keep xs)"
  by (induction xs) (auto simp: keep_def)

lemma comps_dots: "comps [] = []" "comps ''.'' = []"
  by (simp_all add: comps_def is_sep_def backslash_def)

lemma comps_keep: "concat (map comps (keep cs)) = concat (map comps cs)"
  by (induction cs) (auto simp: comps_dots)

lemma comps_refine: "comps s = concat (map comps (keep (split_path s)))"
  unfolding comps_keep unfolding comps_def split_on_refine [of s] keep_concat
  by (induction "split_path s") (simp_all add: comps_def [abs_def] comp_def)

lemma split_path_append: "split_path (a @ CHR ''/'' # b) = split_path a @ split_path b"
  by (simp add: split_on_append_sep)

lemma split_path_plain: "CHR ''/'' \<notin> set c \<Longrightarrow> split_path c = [c]"
  by (rule split_on_no_sep) auto

lemma split_path_canon_append:
  assumes "\<forall>c \<in> set p. CHR ''/'' \<notin> set c"
  shows "split_path (a @ concat (map (\<lambda>c. CHR ''/'' # c) p)) = split_path a @ p"
  using assms
proof (induction p arbitrary: a)
  case (Cons c p)
  have "split_path (a @ concat (map (\<lambda>c. CHR ''/'' # c) (c # p))) =
      split_path a @ split_path (c @ concat (map (\<lambda>c. CHR ''/'' # c) p))"
    by (simp add: split_path_append)
  with Cons split_path_plain [of c] show ?case by simp
qed simp

lemma split_path_canon:
  assumes "\<forall>c \<in> set p. CHR ''/'' \<notin> set c"
  shows "set (split_path (canon p)) \<subseteq> insert [] (set p)" "keep (split_path (canon p)) = keep p"
  using split_path_canon_append [OF assms, of "[]"] by (auto simp: canon_def)

lemma abs_path_canon [simp]: "abs_path (canon p)"
  by (cases p) (auto simp: canon_def abs_path_def)

text \<open>A canonical path is not longer than a path that leads to it.\<close>

lemma length_split_path: "sum_list (map (\<lambda>c. Suc (length c)) (split_path s)) = Suc (length s)"
proof (induction s)
  case (Cons c s)
  obtain a as where "split_path s = a # as" by (cases "split_path s") auto
  with Cons show ?case by auto
qed simp

lemma sum_keep_le: "sum_list (map f (keep cs)) \<le> sum_list (map f cs :: nat list)"
  by (induction cs) auto

lemma length_canon_keep:
  assumes "abs_path s"
  shows "length (canon (keep (split_path s))) \<le> length s"
proof (cases "keep (split_path s) = []")
  case True
  with assms show ?thesis by (cases s) (auto simp: canon_def abs_path_def)
next
  case False
  obtain r where s: "s = CHR ''/'' # r" using assms by (cases s) (auto simp: abs_path_def)
  have "length (canon (keep (split_path s))) = sum_list (map (\<lambda>c. Suc (length c)) (keep (split_path r)))"
    using False s by (simp add: canon_def length_concat comp_def)
  also have "\<dots> \<le> sum_list (map (\<lambda>c. Suc (length c)) (split_path r))"
    by (rule sum_keep_le)
  also have "\<dots> = length s" using length_split_path [of r] s by simp
  finally show ?thesis .
qed

section \<open>Walking a tree without links\<close>

definition no_links :: "host \<Rightarrow> bool" where
  "no_links h \<longleftrightarrow> (\<forall>p t. node_at h p \<noteq> Some (Symlink t))"

lemma walk_Absent: "walk t n cur cs fl = Absent p \<Longrightarrow> t p = None"
  by (induction t n cur cs fl rule: walk.induct)
    (auto split: if_splits option.splits node.splits nat.splits)

lemma walk_no_links:
  assumes "\<forall>p tgt. t p \<noteq> Some (Symlink tgt)" "dotdot \<notin> set cs"
    and "walk t n cur cs fl = Found p \<or> walk t n cur cs fl = Absent p"
  shows "p = cur @ keep cs"
  using assms
proof (induction t n cur cs fl rule: walk.induct)
  case (2 t n cur c cs fl)
  show ?case
  proof (cases "c = [] \<or> c = ''.''")
    case True
    with 2 show ?thesis by (auto split: if_splits)
  next
    case False
    with 2 show ?thesis by (auto split: if_splits option.splits node.splits)
  qed
qed simp

lemma walk_same:
  assumes "\<forall>p tgt. t p \<noteq> Some (Symlink tgt)" "\<forall>p tgt. t' p \<noteq> Some (Symlink tgt)" "dotdot \<notin> set cs"
    and "walk t n cur cs fl = Found p" "\<forall>q. prefix q p \<longrightarrow> t' q = t q"
  shows "walk t' n cur cs fl = Found p"
  using assms
proof (induction t n cur cs fl rule: walk.induct)
  case (2 t n cur c cs fl)
  have p: "p = cur @ keep (c # cs)"
    using walk_no_links [OF "2.prems"(1,3)] "2.prems"(4) by blast
  then have cur: "t' cur = t cur" using "2.prems"(5) by auto
  show ?case
  proof (cases "c = [] \<or> c = ''.''")
    case True
    with 2 cur show ?thesis by (auto split: if_splits)
  next
    case False
    then have "t' (cur @ [c]) = t (cur @ [c])" using "2.prems"(5) p by auto
    with False 2 cur show ?thesis by (auto split: if_splits option.splits node.splits)
  qed
qed simp

lemma lookup_abs:
  "abs_path s \<Longrightarrow> lookup h s fl = walk (node_at h) 40 [] (split_path s) fl"
  by (cases s) (auto simp: lookup_def abs_path_def)

lemma lookup_no_links:
  assumes "no_links h" "abs_path s" "dotdot \<notin> set (split_path s)"
    and "lookup h s fl = Found p \<or> lookup h s fl = Absent p"
  shows "p = keep (split_path s)"
proof -
  have t: "\<forall>p tgt. node_at h p \<noteq> Some (Symlink tgt)"
    using assms(1) by (simp add: no_links_def)
  have "walk (node_at h) 40 [] (split_path s) fl = Found p \<or> walk (node_at h) 40 [] (split_path s) fl = Absent p"
    using assms(4) unfolding lookup_abs [OF assms(2)] .
  from walk_no_links [OF t assms(3) this] show ?thesis by simp
qed

section \<open>What isr_resolve_path returns\<close>

text \<open>The root of the server: a canonical path whose components are plain names.\<close>

definition plain_root :: "fpath \<Rightarrow> bool" where
  "plain_root rp \<longleftrightarrow> (\<forall>c \<in> set rp. c \<noteq> [] \<and> c \<noteq> ''.'' \<and> c \<noteq> dotdot \<and> (\<forall>x \<in> set c. \<not> is_sep x))"

lemma plain_root_slash: "plain_root rp \<Longrightarrow> \<forall>c \<in> set rp. CHR ''/'' \<notin> set c"
  by (auto simp: plain_root_def is_sep_def)

lemma plain_root_keep: "plain_root rp \<Longrightarrow> keep (split_path (canon rp)) = rp"
  using split_path_canon(2) [OF plain_root_slash] keep_id [of rp] by (simp add: plain_root_def)

text \<open>The parts of a path string that lies under the root.\<close>

definition under_root :: "fpath \<Rightarrow> string \<Rightarrow> string \<Rightarrow> string \<Rightarrow> bool" where
  "under_root rp rel par base \<longleftrightarrow> abs_path par \<and> CHR ''/'' \<notin> set base \<and>
     keep (split_path par) = rp @ keep (butlast (split_path rel)) \<and> base = last (split_path rel) \<and>
     set (split_path par) \<subseteq> insert [] (set rp \<union> set (split_path rel))"

lemma last_slash:
  "strrchr s CHR ''/'' = Some i \<longleftrightarrow> (\<exists>par base. s = par @ CHR ''/'' # base \<and> CHR ''/'' \<notin> set base \<and> i = length par)"
  using strrchr_split [of s "CHR ''/''" i] strrchr_Some [of s "CHR ''/''" i] strrchr_last by fastforce

lemma join_last_slash:
  assumes "plain_root rp"
  obtains par base where "join_path (canon rp) rel = par @ CHR ''/'' # base" "under_root rp rel par base"
    "strrchr (join_path (canon rp) rel) CHR ''/'' = Some (length par)"
proof -
  let ?out = "join_path (canon rp) rel"
  obtain i where i: "strrchr ?out CHR ''/'' = Some i"
    using strrchr_None [of ?out "CHR ''/''"] by (cases "strrchr ?out CHR ''/''") (auto simp: join_path_def)
  then obtain par base where p: "?out = par @ CHR ''/'' # base" "CHR ''/'' \<notin> set base" "i = length par"
    unfolding last_slash by blast
  have "split_path (canon rp) @ split_path rel = split_path par @ [base]"
    using p(1) split_path_append [of "canon rp" rel] split_path_append [of par base] split_path_plain [OF p(2)]
    by (simp add: join_path_def)
  moreover have "split_path rel = butlast (split_path rel) @ [last (split_path rel)]" by simp
  ultimately have parts: "split_path par = split_path (canon rp) @ butlast (split_path rel)" "base = last (split_path rel)"
    by (metis append.assoc append1_eq_conv)+
  have "length (canon rp) \<le> length par"
  proof (rule ccontr)
    assume "\<not> length (canon rp) \<le> length par"
    then have "CHR ''/'' \<in> set base"
      using arg_cong [OF p(1), of "drop (Suc (length par))"] by (auto simp: join_path_def)
    with p(2) show False by blast
  qed
  then have "take (length (canon rp)) par = canon rp"
    using arg_cong [OF p(1), of "take (length (canon rp))"] by (simp add: join_path_def)
  then have "abs_path par"
    using abs_path_canon [of rp] unfolding abs_path_def by (metis hd_take append_Nil2 length_greater_0_conv take_eq_Nil)
  moreover have "set (split_path par) \<subseteq> insert [] (set rp \<union> set (split_path rel))"
    unfolding parts(1) using split_path_canon(1) [OF plain_root_slash [OF assms]] by (auto dest: in_set_butlastD)
  ultimately have "under_root rp rel par base"
    using parts p(2) plain_root_keep [OF assms] by (simp add: under_root_def)
  with that p i show ?thesis by blast
qed

lemma resolve_shape:
  assumes "plain_root rp" "no_links h" "dotdot \<notin> set (split_path rel)"
    and "isr_resolve_path h (canon rp) rel ISR_PATH_MAX = Some full"
  obtains par base where "full = par @ CHR ''/'' # base" "under_root rp rel par base" "length full < ISR_PATH_MAX"
proof -
  let ?out = "join_path (canon rp) rel"
  obtain par base where out: "?out = par @ CHR ''/'' # base" and u: "under_root rp rel par base"
    and last: "strrchr ?out CHR ''/'' = Some (length par)"
    by (rule join_last_slash [OF assms(1)])
  have len: "length ?out < ISR_PATH_MAX"
    using assms(4) by (auto simp: isr_resolve_path_def snprintf_path_def split: if_splits)
  then have copies: "copy_n ISR_PATH_MAX ?out = ?out" "copy_n ISR_PATH_MAX base = base"
    unfolding out by (simp_all add: copy_n_def)
  from u obtain k where k: "length par = Suc k" by (cases par) (auto simp: under_root_def abs_path_def)
  have par: "take (Suc k) ?out = par" "drop (Suc (Suc k)) ?out = base"
    unfolding out using k by simp_all
  have run: "full = copy_n ISR_PATH_MAX (case realpath h par of None \<Rightarrow> ?out
      | Some r \<Rightarrow> strncat ISR_PATH_MAX (strncat ISR_PATH_MAX r ''/'') base)"
    using assms(4) len last k
    by (cases "realpath h par")
      (auto simp: isr_resolve_path_def snprintf_path_def copies par Let_def split: if_splits)
  show ?thesis
  proof (cases "realpath h par")
    case None
    with run copies have "full = ?out" by simp
    with that [OF out [folded this] u] len show ?thesis by simp
  next
    case (Some r)
    let ?pp = "keep (split_path par)"
    obtain p where p: "lookup h par True = Found p" "r = canon p"
      using Some by (auto simp: realpath_def split: place.splits if_splits)
    have nodot: "dotdot \<notin> set (split_path par)"
      using u assms(1,3) by (auto simp: under_root_def plain_root_def)
    have pp: "p = ?pp" using lookup_no_links [OF assms(2) _ nodot] p(1) u by (auto simp: under_root_def)
    have "length r \<le> length par" unfolding p(2) pp using u by (intro length_canon_keep) (simp add: under_root_def)
    then have small: "length r + 1 + length base < ISR_PATH_MAX" using len unfolding out by simp
    then have full: "full = r @ CHR ''/'' # base"
      using run Some by (simp add: strncat_def copy_n_def)
    have noslash: "\<forall>c \<in> set ?pp. CHR ''/'' \<notin> set c"
      using split_on_parts [of _ "\<lambda>c. c = CHR ''/''" par "CHR ''/''"] by (auto simp: keep_def)
    have "under_root rp rel r base"
    proof -
      have "keep (split_path r) = ?pp" using split_path_canon(2) [OF noslash] p(2) pp by simp
      moreover have "set (split_path r) \<subseteq> insert [] (set (split_path par))"
        using split_path_canon(1) [OF noslash] p(2) pp keep_subset [of "split_path par"] by auto
      ultimately show ?thesis using u p(2) by (auto simp: under_root_def)
    qed
    with that [OF full] small show ?thesis by (simp add: full)
  qed
qed

text \<open>What follows for the path and its parent.\<close>

lemma under_root_path:
  assumes "plain_root rp" "under_root rp rel par base" "dotdot \<notin> set (split_on is_sep rel)"
  defines "full \<equiv> par @ CHR ''/'' # base"
  shows "abs_path full" "keep (split_path full) = rp @ keep (split_path rel)"
    "dotdot \<notin> set (split_path full)" "dotdot \<notin> set (split_on is_sep full)" "prefix rp (comps full)"
    "dotdot \<notin> set (split_path par)" "dotdot \<notin> set (split_on is_sep par)" "prefix rp (comps par)"
    "abs_path par" "isr_parent_dir full n = Some par \<or> n \<le> length full"
proof -
  have base: "CHR ''/'' \<notin> set base" "base = last (split_path rel)"
    and par: "abs_path par" "keep (split_path par) = rp @ keep (butlast (split_path rel))"
      "set (split_path par) \<subseteq> insert [] (set rp \<union> set (split_path rel))"
    using assms(2) by (auto simp: under_root_def)
  have split: "split_path full = split_path par @ [base]"
    using split_path_append [of par base] split_path_plain [OF base(1)] by (simp add: full_def)
  show "abs_path full" "abs_path par" using par(1) by (auto simp: full_def abs_path_def)
  have "split_path rel = butlast (split_path rel) @ [base]" using base(2) by simp
  then have rel: "keep (split_path rel) = keep (butlast (split_path rel)) @ keep [base]"
    by (metis keep_simps(2))
  show full: "keep (split_path full) = rp @ keep (split_path rel)"
    unfolding split rel using par(2) by simp
  have plain: "split_on is_sep c = [c]" if "c \<in> set rp" for c
    using assms(1) that by (intro split_on_no_sep) (auto simp: plain_root_def)
  have "comps c = [c]" if "c \<in> set rp" for c
    using assms(1) that plain [OF that] by (simp add: comps_def plain_root_def)
  then have crp: "concat (map comps rp) = rp"
    by (induction rp) auto
  show "prefix rp (comps full)" "prefix rp (comps par)"
    unfolding comps_refine [of full] comps_refine [of par] full par(2) by (simp_all add: crp)
  have mem: "base \<in> set (split_path rel)" using base(2) by simp
  have parts: "dotdot \<notin> set (split_on is_sep c)" if "c \<in> insert [] (set rp \<union> set (split_path rel))" for c
    using that assms(1,3) plain [of c] split_on_refine [of rel] by (auto simp: plain_root_def)
  have whole: "dotdot \<notin> set (split_on is_sep s)" "dotdot \<notin> set (split_path s)"
    if "set (split_path s) \<subseteq> insert [] (set rp \<union> set (split_path rel))" for s
  proof -
    show 1: "dotdot \<notin> set (split_on is_sep s)"
      using that parts by (auto simp: split_on_refine [of s])
    have "split_on is_sep dotdot = [dotdot]" by (simp add: is_sep_def backslash_def)
    then show "dotdot \<notin> set (split_path s)" using 1 by (force simp: split_on_refine [of s])
  qed
  have "set (split_path full) \<subseteq> insert [] (set rp \<union> set (split_path rel))"
    unfolding split using par(3) mem by auto
  from whole [OF this] whole [OF par(3)]
  show "dotdot \<notin> set (split_path full)" "dotdot \<notin> set (split_on is_sep full)"
    "dotdot \<notin> set (split_path par)" "dotdot \<notin> set (split_on is_sep par)" by blast+
  show "isr_parent_dir full n = Some par \<or> n \<le> length full"
    using strrchr_last [OF base(1), of par] by (simp add: isr_parent_dir_def Let_def full_def)
qed

section \<open>Making directories\<close>

text \<open>New directories at paths satisfying \<open>P\<close>, and nothing else.\<close>

definition same_env :: "host \<Rightarrow> host \<Rightarrow> bool" where
  "same_env h h' \<longleftrightarrow> cwd h' = cwd h \<and> deny h' = deny h \<and> rd_sched h' = rd_sched h \<and>
     wr_sched h' = wr_sched h \<and> heap_at h' = heap_at h \<and> console h' = console h"

definition grows :: "(fpath \<Rightarrow> bool) \<Rightarrow> host \<Rightarrow> host \<Rightarrow> bool" where
  "grows P h h' \<longleftrightarrow> same_env h h' \<and>
     (\<forall>q. node_at h' q = node_at h q \<or> node_at h q = None \<and> node_at h' q = Some Dir \<and> P q)"

lemma grows_node: "grows P h h' \<Longrightarrow>
    node_at h' q = node_at h q \<or> node_at h q = None \<and> node_at h' q = Some Dir \<and> P q"
  unfolding grows_def by blast

lemma grows_refl [simp]: "grows P h h"
  by (simp add: grows_def same_env_def)

lemma grows_trans:
  assumes "grows P h h'" "grows P h' h''"
  shows "grows P h h''"
proof -
  have "node_at h'' q = node_at h q \<or> node_at h q = None \<and> node_at h'' q = Some Dir \<and> P q" for q
    using grows_node [OF assms(1), of q] grows_node [OF assms(2), of q] by auto
  moreover have "same_env h h''" using assms by (simp add: grows_def same_env_def)
  ultimately show ?thesis unfolding grows_def by blast
qed

lemma grows_weaken: "grows P h h' \<Longrightarrow> (\<And>q. P q \<Longrightarrow> Q q) \<Longrightarrow> grows Q h h'"
  unfolding grows_def by blast

lemma grows_no_links:
  assumes "grows P h h'" "no_links h"
  shows "no_links h'"
  unfolding no_links_def
proof (intro allI)
  fix p t
  show "node_at h' p \<noteq> Some (Symlink t)"
    using grows_node [OF assms(1), of p] assms(2) by (auto simp: no_links_def)
qed

lemma grows_kept: "grows P h h' \<Longrightarrow> node_at h q \<noteq> None \<Longrightarrow> node_at h' q = node_at h q"
  by (drule grows_node [where q = q]) auto

lemma os_mkdir_grows: "grows (\<lambda>q. lookup h s False = Absent q) h (snd (os_mkdir h s))"
proof (cases "lookup h s False")
  case (Absent p)
  then have "node_at h p = None"
    by (auto simp: lookup_def split: list.splits dest: walk_Absent)
  with Absent show ?thesis by (auto simp: os_mkdir_def grows_def same_env_def)
qed (simp_all add: os_mkdir_def)

text \<open>Any path, with links or without: existing nodes stay as they are.\<close>

lemma mkdir_loop_keeps: "grows (\<lambda>_. True) h (fst (mkdir_loop h pre cs))"
proof (induction h pre cs rule: mkdir_loop.induct)
  case (2 h pre c cs)
  then show ?case
    using grows_trans [OF grows_weaken [OF os_mkdir_grows [of h pre]]] by auto
qed simp

lemma isr_mkdir_recursive_keeps: "grows (\<lambda>_. True) h (snd (isr_mkdir_recursive h path))"
proof -
  obtain h1 tmp where l: "mkdir_loop h (take 1 (copy_n ISR_PATH_MAX path)) (drop 1 (copy_n ISR_PATH_MAX path)) = (h1, tmp)"
    by force
  have "grows (\<lambda>_. True) h h1"
    using mkdir_loop_keeps [of h "take 1 (copy_n ISR_PATH_MAX path)" "drop 1 (copy_n ISR_PATH_MAX path)"] l by simp
  moreover have "grows (\<lambda>_. True) h1 (snd (os_mkdir h1 tmp))"
    by (rule grows_weaken [OF os_mkdir_grows]) simp
  ultimately have "grows (\<lambda>_. True) h (snd (os_mkdir h1 tmp))" by (rule grows_trans)
  with l show ?thesis
    by (cases "os_mkdir h1 tmp") (auto simp: isr_mkdir_recursive_def split: mkdir_res.splits)
qed

text \<open>Below a root that exists, without links, on paths that stay under it.\<close>

definition root_exists :: "fpath \<Rightarrow> host \<Rightarrow> bool" where
  "root_exists rp h \<longleftrightarrow> (\<forall>q. prefix q rp \<longrightarrow> node_at h q \<noteq> None)"

lemma grows_root_exists: "grows P h h' \<Longrightarrow> root_exists rp h \<Longrightarrow> root_exists rp h'"
  using grows_kept unfolding root_exists_def by metis

lemma os_mkdir_inside:
  assumes "no_links h" "root_exists rp h" "abs_path s" "dotdot \<notin> set (split_path s)"
    and "prefix (keep (split_path s)) rp \<or> prefix rp (keep (split_path s))"
  shows "grows (prefix rp) h (snd (os_mkdir h s))"
proof (rule grows_weaken [OF os_mkdir_grows])
  fix q
  assume q: "lookup h s False = Absent q"
  then have "q = keep (split_path s)"
    using lookup_no_links [OF assms(1,3,4)] by blast
  moreover have "node_at h q = None"
    using q by (auto simp: lookup_abs [OF assms(3)] dest: walk_Absent)
  ultimately show "prefix rp q" using assms(2,5) by (auto simp: root_exists_def)
qed

definition slashify :: "string \<Rightarrow> string" where
  "slashify s = map (\<lambda>c. if is_sep c then CHR ''/'' else c) s"

lemma split_path_slashify: "split_path (slashify s) = split_on is_sep s"
  unfolding slashify_def by (rule split_on_map) (auto simp: is_sep_def)

lemma mkdir_loop_path: "snd (mkdir_loop h pre cs) = pre @ slashify cs"
  by (induction h pre cs rule: mkdir_loop.induct) (auto simp: slashify_def)

lemma mkdir_loop_inside:
  assumes "no_links h" "root_exists rp h" "abs_path pre"
    and "dotdot \<notin> set (split_path (pre @ slashify cs))" "prefix rp (keep (split_path (pre @ slashify cs)))"
  shows "grows (prefix rp) h (fst (mkdir_loop h pre cs))"
  using assms
proof (induction h pre cs rule: mkdir_loop.induct)
  case (2 h pre c cs)
  show ?case
  proof (cases "is_sep c")
    case True
    have whole: "pre @ slashify (c # cs) = pre @ CHR ''/'' # slashify cs"
      using True by (simp add: slashify_def)
    have split: "split_path (pre @ slashify (c # cs)) = split_path pre @ split_path (slashify cs)"
      unfolding whole by (rule split_path_append)
    have "dotdot \<notin> set (split_path pre)" using "2.prems"(4) unfolding split by simp
    moreover have "prefix (keep (split_path pre)) rp \<or> prefix rp (keep (split_path pre))"
      using "2.prems"(5) unfolding split
      by (metis keep_simps(2) prefixI prefix_same_cases)
    ultimately have g: "grows (prefix rp) h (snd (os_mkdir h pre))"
      by (rule os_mkdir_inside [OF "2.prems"(1,2,3)])
    have "pre @ slashify (c # cs) = (pre @ ''/'') @ slashify cs" unfolding whole by simp
    with "2.IH"(1) [OF True grows_no_links [OF g "2.prems"(1)] grows_root_exists [OF g "2.prems"(2)]] "2.prems"(3-5)
    have "grows (prefix rp) (snd (os_mkdir h pre)) (fst (mkdir_loop (snd (os_mkdir h pre)) (pre @ ''/'') cs))"
      by (simp add: abs_path_def)
    from grows_trans [OF g this] True show ?thesis by simp
  next
    case False
    have "pre @ slashify (c # cs) = (pre @ [c]) @ slashify cs" using False by (simp add: slashify_def)
    with "2.IH"(2) [OF False "2.prems"(1,2)] "2.prems"(3-5) False show ?thesis
      by (simp add: abs_path_def)
  qed
qed simp

lemma isr_mkdir_recursive_inside:
  assumes "no_links h" "root_exists rp h" "abs_path path" "length path < ISR_PATH_MAX"
    and "dotdot \<notin> set (split_on is_sep path)" "prefix rp (comps path)"
  shows "grows (prefix rp) h (snd (isr_mkdir_recursive h path))"
proof -
  have copy: "copy_n ISR_PATH_MAX path = path" using assms(4) by (simp add: copy_n_def)
  obtain r where r: "path = CHR ''/'' # r" using assms(3) by (cases path) (auto simp: abs_path_def)
  obtain h1 tmp where l: "mkdir_loop h ''/'' r = (h1, tmp)" by force
  have whole: "''/'' @ slashify r = slashify path" using r by (simp add: slashify_def is_sep_def)
  have tmp: "tmp = slashify path" using mkdir_loop_path [of h "''/''" r] l whole by simp
  have "grows (prefix rp) h (fst (mkdir_loop h ''/'' r))"
    by (rule mkdir_loop_inside [OF assms(1,2)])
      (use assms(5,6) whole in \<open>simp_all add: abs_path_def split_path_slashify comps_def\<close>)
  then have g: "grows (prefix rp) h h1" using l by simp
  have "abs_path tmp" unfolding tmp whole [symmetric] by (simp add: abs_path_def)
  moreover have "dotdot \<notin> set (split_path tmp)" "prefix rp (keep (split_path tmp))"
    using assms(5,6) unfolding tmp split_path_slashify comps_def by blast+
  ultimately have "grows (prefix rp) h1 (snd (os_mkdir h1 tmp))"
    by (intro os_mkdir_inside grows_no_links [OF g assms(1)] grows_root_exists [OF g assms(2)]) auto
  from grows_trans [OF g this] show ?thesis
    using l r copy by (cases "os_mkdir h1 tmp") (auto simp: isr_mkdir_recursive_def split: mkdir_res.splits)
qed

section \<open>What a request does to the tree\<close>

lemma receive_upload_frame:
  assumes "holds h f []" "heap_ok h" "receive_upload s h f header info = Some (r, s', h', info')"
  shows "same_but (fd_path f) h h' \<and> (\<exists>bs. node_at h' (fd_path f) = Some (File bs))"
proof (cases "has_flag (sh_flags header) ISR_FLAG_USE_COMPRESSION")
  case True
  obtain r1 s1 f1 h1 where c: "isr_receive_file_compressed s h f (sh_block_size header) (sh_effective_length header) =
      Some (r1, s1, f1, h1)"
    using assms(3) True by (cases "isr_receive_file_compressed s h f (sh_block_size header) (sh_effective_length header)")
      (auto simp: receive_upload_def)
  then have "h' = h1" using assms(3) True by (auto simp: receive_upload_def split: if_splits)
  with isr_receive_file_compressed_cases [OF assms(1,2),
      where s = s and b = "sh_block_size header" and n = "sh_effective_length header"] c
  show ?thesis by auto
next
  case False
  obtain r1 s1 f1 h1 where c: "isr_receive_file_uncompressed s h f (sh_effective_length header) = (r1, s1, f1, h1)"
    by (metis prod_cases4)
  then have "h' = h1" using assms(3) False by (auto simp: receive_upload_def split: if_splits)
  with rx_uncompressed_inv [OF assms(1) c [unfolded isr_receive_file_uncompressed_def]] show ?thesis
    by (auto simp: file_rel_def holds_def)
qed

lemma receive_upload_content:
  assumes "holds h f []" "receive_upload s h f header info = Some (r, s', h', info')"
    and "\<not> has_flag (sh_flags header) ISR_FLAG_USE_COMPRESSION"
  shows "\<exists>bs. node_at h' (fd_path f) = Some (File bs) \<and> prefix bs (pending s)"
proof -
  obtain r1 s1 f1 h1 where c: "isr_receive_file_uncompressed s h f (sh_effective_length header) = (r1, s1, f1, h1)"
    by (metis prod_cases4)
  then have "h' = h1" using assms(2,3) by (auto simp: receive_upload_def split: if_splits)
  with rx_uncompressed_inv [OF assms(1) c [unfolded isr_receive_file_uncompressed_def]] show ?thesis
    by (auto simp: file_rel_def holds_def)
qed

lemma send_response_pending: "isr_transmit_send_response s t d = (b, s') \<Longrightarrow> pending s' = pending s"
  using net_send_exact_inv by (force simp: isr_transmit_send_response_def Let_def pending_def)

lemma send_opens:
  assumes "isr_receive_send_command root s h header path info = Some (r, s', h', info')"
    and "isr_validate_path path \<noteq> - 1" "isr_resolve_path h root path ISR_PATH_MAX = Some full"
    and "\<not> has_flag (sh_flags header) ISR_FLAG_CREATE_DIRECTORY" "h' \<noteq> h" "h' \<noteq> made_parents h full"
  obtains s1 f h2 info1 where "isr_open_write (made_parents h full) full = (Some f, h2)"
    "receive_upload s1 h2 f header info1 = Some (r, s', h', info')" "pending s1 = pending s"
    "may_write (isr_stat h full) (sh_flags header)"
proof -
  let ?t = "if isr_stat h full \<noteq> None then ISR_SEND_RESPONSE_OVERWRITING else ISR_SEND_RESPONSE_CREATING"
  obtain b s1 where s1: "isr_transmit_send_response s ?t None = (b, s1)" by force
  obtain f h2 where o: "isr_open_write (made_parents h full) full = (f, h2)" by force
  have may: "may_write (isr_stat h full) (sh_flags header)"
    using assms(1-5) by (cases "isr_stat h full")
      (auto simp: isr_receive_send_command_def may_write_def reply_error_def Let_def split: if_splits)
  let ?info = "info\<lparr>ri_is_overwrite := isr_stat h full \<noteq> None\<rparr>"
  have run: "isr_receive_send_command root s h header path info =
      (if b then case f of None \<Rightarrow> Some (- 1, s1, h2, ?info) | Some f \<Rightarrow> receive_upload s1 h2 f header ?info
       else Some (- 1, s1, made_parents h full, ?info))"
    using assms(2-4) may s1 o
    by (auto simp: isr_receive_send_command_def may_write_def made_parents_def [symmetric] Let_def
      split: option.splits bool.splits)
  then have "b" using assms(1,6) by (auto split: if_splits)
  show ?thesis
  proof (cases f)
    case None
    then have "h' = h2" using run assms(1) \<open>b\<close> by simp
    moreover have "h2 = made_parents h full" using o None isr_open_write_None by blast
    ultimately show ?thesis using assms(6) by simp
  next
    case (Some f')
    then have "receive_upload s1 h2 f' header ?info = Some (r, s', h', info')"
      using run assms(1) \<open>b\<close> by simp
    with that o Some may send_response_pending [OF s1] show ?thesis by blast
  qed
qed

text \<open>
  The four ways a \<open>SEND\<close> request ends, as far as the tree is concerned: no change, a directory
  made, the parent directories made, or these and one file opened for writing.
\<close>

lemma send_effect:
  assumes "isr_receive_send_command root s h header path info = Some (r, s', h', info')" "heap_ok h"
  shows "h' = h \<or> isr_validate_path path \<noteq> - 1 \<and>
    (\<exists>full. isr_resolve_path h root path ISR_PATH_MAX = Some full \<and>
      (has_flag (sh_flags header) ISR_FLAG_CREATE_DIRECTORY \<and> h' = snd (isr_mkdir_recursive h full) \<or>
       \<not> has_flag (sh_flags header) ISR_FLAG_CREATE_DIRECTORY \<and>
       (isr_stat h full = None \<or> has_flag (sh_flags header) ISR_FLAG_OVERWRITE) \<and>
       (h' = made_parents h full \<or>
        (\<exists>f h2. isr_open_write (made_parents h full) full = (Some f, h2) \<and> same_but (fd_path f) h2 h' \<and>
          (\<exists>bs. node_at h' (fd_path f) = Some (File bs))))))"
proof (cases "isr_validate_path path = - 1")
  case True
  with assms show ?thesis by (simp add: isr_receive_send_command_def reply_error_def)
next
  case valid: False
  show ?thesis
  proof (cases "isr_resolve_path h root path ISR_PATH_MAX")
    case None
    with valid assms show ?thesis by (simp add: isr_receive_send_command_def reply_error_def)
  next
    case (Some full)
    show ?thesis
    proof (cases "has_flag (sh_flags header) ISR_FLAG_CREATE_DIRECTORY")
      case True
      with Some valid assms show ?thesis
        by (cases "isr_mkdir_recursive h full")
          (auto simp: isr_receive_send_command_def reply_error_def split: if_splits)
    next
      case nodir: False
      have hp: "heap_ok (made_parents h full)"
        using assms(2) isr_mkdir_recursive_keeps [of h]
        by (auto simp: made_parents_def heap_ok_def grows_def same_env_def split: option.splits)
      show ?thesis
      proof (cases "h' = h \<or> h' = made_parents h full")
        case True
        moreover have "h' = h \<or> isr_stat h full = None \<or> has_flag (sh_flags header) ISR_FLAG_OVERWRITE"
          using assms(1) valid Some nodir
          by (cases "isr_stat h full")
            (auto simp: isr_receive_send_command_def reply_error_def Let_def split: if_splits)
        ultimately show ?thesis using valid Some nodir by blast
      next
        case changed: False
        obtain s1 f h2 info1 where o: "isr_open_write (made_parents h full) full = (Some f, h2)"
          "receive_upload s1 h2 f header info1 = Some (r, s', h', info')" "may_write (isr_stat h full) (sh_flags header)"
          using send_opens [OF assms(1) valid Some nodir] changed by metis
        have may: "isr_stat h full = None \<or> has_flag (sh_flags header) ISR_FLAG_OVERWRITE"
          using o(3) by (auto simp: may_write_def split: option.splits)
        from isr_open_write_Some [OF o(1)] have "holds h2 f []" "heap_ok h2"
          using hp by (auto simp: same_but_def heap_ok_def)
        from receive_upload_frame [OF this o(2)] o(1) may Some nodir valid show ?thesis by blast
      qed
    qed
  qed
qed

lemma send_cases:
  assumes "isr_receive_send_command root s h header path info = Some (r, s', h', info')" "heap_ok h"
  obtains (same) "h' = h"
  | (mkdir) full where "isr_validate_path path \<noteq> - 1" "isr_resolve_path h root path ISR_PATH_MAX = Some full"
      "h' = snd (isr_mkdir_recursive h full)"
  | (parents) full where "isr_validate_path path \<noteq> - 1" "isr_resolve_path h root path ISR_PATH_MAX = Some full"
      "h' = made_parents h full"
  | (opened) full f h2 where "isr_validate_path path \<noteq> - 1" "isr_resolve_path h root path ISR_PATH_MAX = Some full"
      "isr_stat h full = None \<or> has_flag (sh_flags header) ISR_FLAG_OVERWRITE"
      "isr_open_write (made_parents h full) full = (Some f, h2)" "same_but (fd_path f) h2 h'"
      "\<exists>bs. node_at h' (fd_path f) = Some (File bs)"
  using send_effect [OF assms] by blast

text \<open>Sending a file leaves the tree alone.\<close>

lemma tx_uncompressed_only: "tx_uncompressed s h f c = (r, s', h') \<Longrightarrow> rd_only h h'"
proof (induction s h f c rule: tx_uncompressed.induct)
  case (1 s h f c)
  obtain n bs f1 h1 where e: "isr_read h f ISR_IO_BUFSIZE = (n, bs, f1, h1)" by (metis prod_cases4)
  note only = isr_read_only [OF e]
  show ?case
  proof (cases "0 < n")
    case False
    with "1.prems" e only show ?thesis
      by (auto simp: tx_uncompressed.simps [of s h f c] split: prod.splits bool.splits if_splits)
  next
    case True
    obtain b s1 where s1: "net_send_exact s bs = (b, s1)" by force
    show ?thesis
    proof (cases b)
      case False
      with "1.prems" e s1 True only show ?thesis by (simp add: tx_uncompressed.simps [of s h f c] Let_def)
    next
      case b: True
      have "tx_uncompressed s1 h1 f1 (c + isr_count_byte_values bs) = (r, s', h')"
        using "1.prems" e s1 True b by (simp add: tx_uncompressed.simps [of s h f c] Let_def)
      from "1.IH" [OF e [symmetric] refl refl True refl s1 [symmetric] eqTrueI [OF b] this]
      show ?thesis by (rule rd_only_trans [OF only])
    qed
  qed
qed

lemma tx_compressed_only: "tx_compressed s h f b m c = Some (r, s', h') \<Longrightarrow> rd_only h h'"
proof (induction s h f b m c rule: tx_compressed.induct)
  case (1 s h f b m c)
  obtain n bs f1 h1 where e: "isr_read h f (unat b) = (n, bs, f1, h1)" by (metis prod_cases4)
  note only = isr_read_only [OF e]
  show ?case
  proof (cases "0 < n")
    case False
    with "1.prems" e only show ?thesis
      by (auto simp: tx_compressed.simps [of s h f b m c] split: prod.splits bool.splits if_splits)
  next
    case True
    show ?thesis
    proof (cases "LZ4_compress_default bs (replicate (nat m) 0) (to_int n) m")
      case None
      with "1.prems" e True show ?thesis by (simp add: tx_compressed.simps [of s h f b m c] Let_def)
    next
      case (Some res)
      obtain z dst where res: "res = (z, dst)" by force
      obtain b1 s1 where s1: "net_send_exact s (enc_u32 (word_of_int z)) = (b1, s1)" by force
      obtain b2 s2 where s2: "net_send_exact s1 (take (nat z) dst) = (b2, s2)" by force
      show ?thesis
      proof (cases "0 < z \<and> b1 \<and> b2")
        case False
        with "1.prems" e True Some res s1 s2 only show ?thesis
          by (auto simp: tx_compressed.simps [of s h f b m c] Let_def split: if_splits bool.splits)
      next
        case go: True
        then have z: "\<not> z \<le> 0" by simp
        have "tx_compressed s2 h1 f1 b m (c + isr_count_byte_values bs) = Some (r, s', h')"
          using "1.prems" e True Some res s1 s2 go by (simp add: tx_compressed.simps [of s h f b m c] Let_def)
        from "1.IH" [OF e [symmetric] refl refl True refl Some res [symmetric] z s1 [symmetric] _ s2 [symmetric] _ this] go
        show ?thesis by (auto intro: rd_only_trans [OF only])
      qed
    qed
  qed
qed

lemma recv_effect:
  assumes "isr_receive_recv_command root s h header path info = Some (r, s', h', info')"
  shows "rd_only h h'"
proof -
  have unc: "rd_only h h1" if "isr_transmit_file_uncompressed s1 h f = (n, s2, h1)" for s1 f n s2 h1
    using that by (auto simp: isr_transmit_file_uncompressed_def dest: tx_uncompressed_only)
  have comp: "rd_only h h1" if "isr_transmit_file_compressed s1 h f b = Some (n, s2, h1)" for s1 f b n s2 h1
    using that by (auto simp: isr_transmit_file_compressed_def Let_def dest: tx_compressed_only split: option.splits)
  show ?thesis
    using assms
    by (auto simp: isr_receive_recv_command_def Let_def dest: unc comp
      split: if_splits option.splits prod.splits bool.splits)
qed

text \<open>A request that reaches a handler, or does not.\<close>

lemma receive_command_cases:
  assumes "isr_receive_command root s h info = Some (r, s', h', info')"
  obtains "node_at h' = node_at h"
  | s1 header path info1 where "isr_receive_send_command root s1 h header path info1 = Some (r, s', h', info')"
  using assms rd_only_node_at [OF recv_effect]
  by (fastforce simp: isr_receive_command_def Let_def say_def
    split: if_splits option.splits prod.splits)

text \<open>What a request that changes the tree looks like.\<close>

lemma receive_command_parse:
  assumes "isr_receive_command root s h info = Some (r, s', h', info')" "node_at h' \<noteq> node_at h"
  obtains hdr pb s1 info1 where "pending s = ISR_COMMAND_SEND # hdr @ pb @ pending s1" "length hdr = 15"
    "length pb = unat (sh_path_length (dec_send_header hdr))" "length pb < ISR_PATH_MAX"
    "isr_receive_send_command root s1 h (dec_send_header hdr) (cstr pb) info1 = Some (r, s', h', info')"
proof -
  have recv: "isr_receive_recv_command root s1 h header path info1 \<noteq> Some (r, s', h', info')" for s1 header path info1
    using rd_only_node_at [OF recv_effect] assms(2) by metis
  obtain cmd s1 where s1: "net_recv_exact s 1 = (Some cmd, s1)" "hd cmd = ISR_COMMAND_SEND"
    using assms recv by (auto simp: isr_receive_command_def Let_def say_def split: option.splits prod.splits if_splits)
  obtain hdr s2 where s2: "net_recv_exact s1 15 = (Some hdr, s2)"
    using assms s1 by (cases "net_recv_exact s1 15") (auto simp: isr_receive_command_def Let_def split: option.splits)
  let ?hd = "dec_send_header hdr"
  have short: "\<not> ISR_PATH_MAX \<le> unat (sh_path_length ?hd)"
    using assms s1 s2 by (auto simp: isr_receive_command_def Let_def)
  obtain pb s3 info1 where s3: "net_recv_exact s2 (unat (sh_path_length ?hd)) = (Some pb, s3)"
    "isr_receive_send_command root s3 h ?hd (cstr pb) info1 = Some (r, s', h', info')"
    using assms s1 s2 short
    by (cases "net_recv_exact s2 (unat (sh_path_length ?hd))")
      (auto simp: isr_receive_command_def Let_def split: option.splits if_splits)
  obtain c where "cmd = [c]" using net_recv_exact_consumes [OF s1(1)] by (cases cmd) auto
  with net_recv_exact_consumes [OF s1(1)] net_recv_exact_consumes [OF s2] net_recv_exact_consumes [OF s3(1)] s1(2)
  have "pending s = ISR_COMMAND_SEND # hdr @ pb @ pending s3" "length hdr = 15" "length pb = unat (sh_path_length ?hd)"
    by simp_all
  with that s3(2) short show ?thesis by simp
qed

section \<open>Well-formed trees\<close>

definition tree_ok :: "host \<Rightarrow> bool" where
  "tree_ok h \<longleftrightarrow> node_at h [] = Some Dir \<and> (\<forall>p c. node_at h (p @ [c]) \<noteq> None \<longrightarrow> node_at h p = Some Dir)"

declare tree_ok_def [host_invariants] no_links_def [host_invariants] heap_ok_def [host_invariants]
  malloc_def [host_invariants]

lemma tree_ok_prefix: "tree_ok h \<Longrightarrow> node_at h p \<noteq> None \<Longrightarrow> prefix q p \<Longrightarrow> node_at h q \<noteq> None"
proof (induction p rule: rev_induct)
  case (snoc c p)
  then have "node_at h p \<noteq> None" unfolding tree_ok_def by (metis option.distinct(1))
  with snoc show ?case by (cases "q = p @ [c]") auto
qed simp

lemma tree_ok_root: "tree_ok h \<Longrightarrow> node_at h rp = Some Dir \<Longrightarrow> root_exists rp h"
  using tree_ok_prefix [of h rp] by (simp add: root_exists_def)

lemma dotdot_split: "dotdot \<notin> set (split_on is_sep s) \<Longrightarrow> dotdot \<notin> set (split_path s)"
proof
  assume a: "dotdot \<notin> set (split_on is_sep s)" "dotdot \<in> set (split_path s)"
  have "split_on is_sep dotdot = [dotdot]" by (simp add: is_sep_def backslash_def)
  with a show False by (force simp: split_on_refine [of s])
qed

text \<open>A request whose path was accepted, on a tree without links.\<close>

lemma accepted_path:
  assumes "plain_root rp" "no_links h" "isr_validate_path path \<noteq> - 1"
    and "isr_resolve_path h (canon rp) path ISR_PATH_MAX = Some full"
  obtains par base where "full = par @ CHR ''/'' # base" "under_root rp path par base" "length full < ISR_PATH_MAX"
    "dotdot \<notin> set (split_on is_sep path)" "isr_parent_dir full ISR_PATH_MAX = Some par"
proof -
  have v: "dotdot \<notin> set (split_on is_sep path)"
    using assms(3) isr_validate_path_range [of path] isr_validate_path_cases [of path] by blast
  obtain par base where f: "full = par @ CHR ''/'' # base" "under_root rp path par base" "length full < ISR_PATH_MAX"
    by (rule resolve_shape [OF assms(1,2) dotdot_split [OF v] assms(4)])
  have "isr_parent_dir full ISR_PATH_MAX = Some par"
    using under_root_path(10) [OF assms(1) f(2) v, of ISR_PATH_MAX] f(1,3) by simp
  with that f v show ?thesis by blast
qed

lemma made_parents_keeps: "grows (\<lambda>_. True) h (made_parents h full)"
  using isr_mkdir_recursive_keeps by (simp add: made_parents_def split: option.splits)

lemma made_parents_inside:
  assumes "plain_root rp" "no_links h" "root_exists rp h" "isr_validate_path path \<noteq> - 1"
    and "isr_resolve_path h (canon rp) path ISR_PATH_MAX = Some full"
  shows "grows (prefix rp) h (made_parents h full)" "grows (prefix rp) h (snd (isr_mkdir_recursive h full))"
    "abs_path full" "dotdot \<notin> set (split_path full)" "prefix rp (keep (split_path full))"
proof -
  obtain par base where f: "full = par @ CHR ''/'' # base" "under_root rp path par base" "length full < ISR_PATH_MAX"
    "dotdot \<notin> set (split_on is_sep path)" "isr_parent_dir full ISR_PATH_MAX = Some par"
    by (rule accepted_path [OF assms(1,2,4,5)])
  note u = under_root_path [OF assms(1) f(2,4)]
  have "length par < ISR_PATH_MAX" using f(1,3) by simp
  then show "grows (prefix rp) h (made_parents h full)"
    using isr_mkdir_recursive_inside [OF assms(2,3) u(9) _ u(7,8)] f(5) by (simp add: made_parents_def)
  show "grows (prefix rp) h (snd (isr_mkdir_recursive h full))"
    using isr_mkdir_recursive_inside [OF assms(2,3), of full] u(1,4,5) f(1,3) by simp
  show "abs_path full" "dotdot \<notin> set (split_path full)" "prefix rp (keep (split_path full))"
    using u(1-3) f(1) by simp_all
qed

lemma send_inside:
  assumes "plain_root rp" "no_links h" "root_exists rp h" "heap_ok h"
    and "isr_receive_send_command (canon rp) s h header path info = Some (r, s', h', info')"
  shows "node_at h' q = node_at h q \<or> prefix rp q"
proof -
  have grown: "node_at h1 q = node_at h q \<or> prefix rp q" if "grows (prefix rp) h h1" for h1
    using grows_node [OF that, of q] by blast
  from assms(5,4) show ?thesis
  proof (cases rule: send_cases)
    case (mkdir full)
    then show ?thesis using grown [OF made_parents_inside(2) [OF assms(1-3)]] by simp
  next
    case (parents full)
    then show ?thesis using grown [OF made_parents_inside(1) [OF assms(1-3)]] by simp
  next
    case (opened full f h2)
    note inside = made_parents_inside [OF assms(1-3) opened(1,2)]
    from isr_open_write_Some [OF opened(4)] lookup_no_links [OF grows_no_links [OF inside(1) assms(2)] inside(3,4)]
    have "fd_path f = keep (split_path full)" "same_but (fd_path f) (made_parents h full) h2" by blast+
    then show ?thesis
      using grown [OF inside(1)] inside(5) opened(5) by (cases "q = fd_path f") (auto simp: same_but_def)
  qed simp
qed

text \<open>The one existing node that an upload can change is the file its path leads to.\<close>

lemma send_target:
  assumes "isr_receive_send_command root s h header path info = Some (r, s', h', info')" "heap_ok h"
    and "node_at h q \<noteq> None" "node_at h' q \<noteq> node_at h q"
  shows "\<exists>full old new. isr_validate_path path \<noteq> - 1 \<and> isr_resolve_path h root path ISR_PATH_MAX = Some full \<and>
    may_write (isr_stat h full) (sh_flags header) \<and> lookup (made_parents h full) full True = Found q \<and>
    node_at h q = Some (File old) \<and> node_at h' q = Some (File new) \<and>
    (\<not> has_flag (sh_flags header) ISR_FLAG_USE_COMPRESSION \<longrightarrow> prefix new (pending s))"
proof -
  have kept: "node_at h1 q = node_at h q" if "grows (\<lambda>_. True) h h1" for h1
    using grows_kept [OF that assms(3)] .
  have mk: "h' \<noteq> h1" if "grows (\<lambda>_. True) h h1" for h1
    using kept [OF that] assms(4) by auto
  note mk = mk [OF made_parents_keeps] mk [OF isr_mkdir_recursive_keeps] mk [OF grows_refl]
  obtain full where full: "isr_validate_path path \<noteq> - 1" "isr_resolve_path h root path ISR_PATH_MAX = Some full"
    "\<not> has_flag (sh_flags header) ISR_FLAG_CREATE_DIRECTORY"
    using send_effect [OF assms(1,2)] mk by blast
  let ?h1 = "made_parents h full"
  obtain s1 f h2 info1 where o: "isr_open_write ?h1 full = (Some f, h2)"
    "receive_upload s1 h2 f header info1 = Some (r, s', h', info')" "pending s1 = pending s"
    "may_write (isr_stat h full) (sh_flags header)"
    using send_opens [OF assms(1) full mk(3,1)] .
  note spec = isr_open_write_Some [OF o(1)]
  have "grows (\<lambda>_. True) h ?h1" by (rule made_parents_keeps)
  then have "heap_ok h2" "holds h2 f []"
    using assms(2) spec by (auto simp: grows_def same_env_def same_but_def heap_ok_def)
  with receive_upload_frame [OF _ _ o(2)] obtain new where new: "same_but (fd_path f) h2 h'"
    "node_at h' (fd_path f) = Some (File new)" by blast
  have h1: "node_at ?h1 q = node_at h q" using kept made_parents_keeps by blast
  have q: "q = fd_path f"
    using new(1) spec h1 assms(4) by (cases "q = fd_path f") (simp_all add: same_but_def)
  moreover have "lookup ?h1 full True \<noteq> Absent (fd_path f)"
    using walk_Absent h1 assms(3) q by (fastforce simp: lookup_def split: list.splits)
  ultimately obtain old where "lookup ?h1 full True = Found q" "node_at h q = Some (File old)"
    using spec h1 by auto
  moreover have "prefix new (pending s)" if "\<not> has_flag (sh_flags header) ISR_FLAG_USE_COMPRESSION"
    using receive_upload_content [OF \<open>holds h2 f []\<close> o(2) that] new(2) o(3) by auto
  ultimately show ?thesis using full o(4) new(2) q by blast
qed

lemma send_no_overwrite:
  assumes "plain_root rp" "no_links h" "tree_ok h" "node_at h rp = Some Dir" "heap_ok h"
    and "isr_receive_send_command (canon rp) s h header path info = Some (r, s', h', info')"
    and "\<not> has_flag (sh_flags header) ISR_FLAG_OVERWRITE" "node_at h q = Some (File bs)"
  shows "node_at h' q = Some (File bs)"
proof -
  note root = tree_ok_root [OF assms(3,4)]
  have kept: "node_at h1 q = Some (File bs)" if "grows (\<lambda>_. True) h h1" for h1
    using grows_kept [OF that, of q] assms(8) by simp
  from assms(6,5) show ?thesis
  proof (cases rule: send_cases)
    case (mkdir full)
    then show ?thesis using kept [OF isr_mkdir_recursive_keeps] by simp
  next
    case (parents full)
    then show ?thesis using kept [OF made_parents_keeps] by simp
  next
    case (opened full f h2)
    let ?h1 = "made_parents h full" and ?p = "fd_path f"
    note inside = made_parents_inside [OF assms(1,2) root opened(1,2)]
    note spec = isr_open_write_Some [OF opened(4)]
    have "q \<noteq> ?p"
    proof
      assume q: "q = ?p"
      have "lookup ?h1 full True \<noteq> Absent ?p"
        using kept [OF made_parents_keeps] q walk_Absent by (fastforce simp: lookup_abs [OF inside(3)])
      with spec have found: "walk (node_at ?h1) 40 [] (split_path full) True = Found ?p"
        by (simp add: lookup_abs [OF inside(3)])
      have "node_at h x = node_at ?h1 x" if "prefix x ?p" for x
        using grows_kept [OF made_parents_keeps, of h x full] tree_ok_prefix [OF assms(3) _ that] assms(8) q by simp
      then have "walk (node_at h) 40 [] (split_path full) True = Found ?p"
        using walk_same [OF _ _ inside(4) found] assms(2) grows_no_links [OF inside(1) assms(2)]
        by (simp add: no_links_def)
      with opened(3) assms(7,8) q show False by (simp add: isr_stat_def lookup_abs [OF inside(3)])
    qed
    then show ?thesis using kept [OF made_parents_keeps] spec opened(5) by (simp add: same_but_def)
  qed (use assms(8) in simp)
qed

section \<open>Properties\<close>

lemma command_node_cases:
  assumes "isr_receive_command root s h info = Some (r, s', h', info')"
    and "\<And>s1 header path info1. isr_receive_send_command root s1 h header path info1 = Some (r, s', h', info') \<Longrightarrow> Q h'"
    and "node_at h' = node_at h \<Longrightarrow> Q h'"
  shows "Q h'"
  using receive_command_cases [OF assms(1)] assms(2,3) by blast

text \<open>
  The jail: on a tree without symbolic links, whatever a client sends, only what lies under
  the served directory can change.
\<close>

theorem server_jail:
  assumes "plain_root rp" "tree_ok h" "node_at h rp = Some Dir" "no_links h" "heap_ok h"
    and "isr_receive_command (canon rp) s h info = Some (r, s', h', info')"
  shows "\<forall>q. node_at h' q = node_at h q \<or> prefix rp q"
  using assms(6)
proof (rule command_node_cases)
  fix s1 header path info1
  assume "isr_receive_send_command (canon rp) s1 h header path info1 = Some (r, s', h', info')"
  from send_inside [OF assms(1,4) tree_ok_root [OF assms(2,3)] assms(5) this] show "\<forall>q. node_at h' q = node_at h q \<or> prefix rp q"
    by blast
qed simp

text \<open>A small tree and an upload to it, for the examples.\<close>

definition ex_host :: host where
  "ex_host = host0 [([''srv''], Dir), ([''srv'', ''g''], File [1])]"

lemma ex_host_nodes: "node_at ex_host p =
    (if p = [] \<or> p = [''srv''] then Some Dir else if p = [''srv'', ''g''] then Some (File [1]) else None)"
  by (simp add: ex_host_def)

lemma ex_host_ok: "tree_ok ex_host" "no_links ex_host" "heap_ok ex_host" "wr_live ex_host" "rd_live ex_host"
proof -
  have "p = [] \<or> p = [''srv'']" if "p @ [c] = [''srv''] \<or> p @ [c] = [''srv'', ''g'']" for p and c :: string
    using that by (cases p) (auto simp: append_eq_Cons_conv)
  then show "tree_ok ex_host" by (auto simp: tree_ok_def ex_host_nodes)
qed (auto simp: no_links_def ex_host_nodes, simp_all add: ex_host_def)

lemma ex_root: "canon [''srv''] = ''/srv''" "plain_root [''srv'']"
  by (simp_all add: canon_def plain_root_def is_sep_def backslash_def)

lemma ex_resolve:
  "isr_resolve_path ex_host ''/srv'' ''f'' ISR_PATH_MAX = Some ''/srv/f''"
  "isr_resolve_path ex_host ''/srv'' ''g'' ISR_PATH_MAX = Some ''/srv/g''"
  by (simp_all add: isr_resolve_path_def snprintf_path_def join_path_def copy_n_def ISR_PATH_MAX_def
    realpath_def lookup_def ex_host_nodes canon_def strncat_def Let_def)

definition ex_up :: sock where
  "ex_up = sock0 (send_request ''f'' 0 0 1 @ [7] @ enc_u64 7)"

lemma ex_parents: "made_parents ex_host ''/srv/f'' = ex_host"
  by (simp add: made_parents_def isr_parent_dir_def isr_mkdir_recursive_def os_mkdir_def copy_n_def
    ISR_PATH_MAX_def lookup_def ex_host_nodes is_sep_def backslash_def Let_def)

lemma ex_open: "isr_open_write ex_host ''/srv/f'' =
    (Some \<lparr>fd_path = [''srv'', ''f''], fd_pos = 0\<rparr>, put_node [''srv'', ''f''] (File []) ex_host)"
  by (simp add: isr_open_write_def lookup_def ex_host_nodes) (simp add: ex_host_def)

lemma ex_upload:
  "\<exists>s' h' info'. isr_receive_command ''/srv'' ex_up ex_host info0 = Some (0, s', h', info') \<and>
    node_at h' [''srv'', ''f''] = Some (File [7])"
proof -
  have req: "pending ex_up = send_request ''f'' 0 0 (word_of_nat (length [7 :: u8])) @ ([7] @ enc_u64 7) @ []"
    by (simp add: ex_up_def)
  have flags: "\<not> has_flag 0 ISR_FLAG_USE_COMPRESSION" "\<not> has_flag 0 ISR_FLAG_CREATE_DIRECTORY"
    by (simp_all add: has_flag_def)
  have pay: "is_payload (has_flag 0 ISR_FLAG_USE_COMPRESSION) 0 [7] ([7] @ enc_u64 7)"
    using flags by (simp add: is_payload_def)
  have stat: "isr_stat ex_host ''/srv/f'' = None"
    by (simp add: isr_stat_def lookup_def ex_host_nodes)
  have "\<exists>s' h' info'. isr_receive_command ''/srv'' ex_up ex_host info0 = Some (0, s', h', info') \<and>
      node_at h' (fd_path \<lparr>fd_path = [''srv'', ''f''], fd_pos = 0\<rparr>) = Some (File [7]) \<and>
      same_but (fd_path \<lparr>fd_path = [''srv'', ''f''], fd_pos = 0\<rparr>) (put_node [''srv'', ''f''] (File []) ex_host) h' \<and>
      wr_live h' \<and> pending s' = [] \<and> tx s' = tx ex_up @ enc_response (isr_response_from_result (answer_type (isr_stat ex_host ''/srv/f''))) @
        enc_response (isr_response_from_result ISR_RESULT_OK)"
    by (rule server_upload [OF _ _ _ req pay _ _ ex_resolve(1)])
      (use flags in \<open>simp_all add: ex_up_def good_path_def ISR_PATH_MAX_def isr_validate_path_def is_sep_def backslash_def
        may_write_def stat ex_parents ex_open can_compress_def, simp_all add: ex_host_def wr_live_def host0_def\<close>)
  then show ?thesis by auto
qed

theorem server_jail_witness:
  "\<exists>s' h' info'. isr_receive_command ''/srv'' ex_up ex_host info0 = Some (0, s', h', info') \<and>
    node_at h' [''srv'', ''f''] \<noteq> node_at ex_host [''srv'', ''f''] \<and>
    (\<forall>q. node_at h' q = node_at ex_host q \<or> prefix [''srv''] q)"
proof -
  obtain s' h' info' where e: "isr_receive_command ''/srv'' ex_up ex_host info0 = Some (0, s', h', info')"
    "node_at h' [''srv'', ''f''] = Some (File [7])"
    using ex_upload by blast
  have d: "node_at ex_host [''srv''] = Some Dir" by (simp add: ex_host_nodes)
  from server_jail [OF ex_root(2) ex_host_ok(1) d ex_host_ok(2,3), unfolded ex_root(1), OF e(1)] e
  show ?thesis by (auto simp: ex_host_nodes)
qed

lemma ex_overwrite:
  "\<exists>s' h' info'. isr_receive_command ''/srv'' (sock0 (send_request ''g'' 2 0 1 @ [7] @ enc_u64 7)) ex_host info0 =
      Some (0, s', h', info') \<and> node_at h' [''srv'', ''g''] = Some (File [7])"
proof -
  let ?s = "sock0 (send_request ''g'' 2 0 1 @ [7] @ enc_u64 7)" and ?f = "\<lparr>fd_path = [''srv'', ''g''], fd_pos = 0\<rparr>"
  have req: "pending ?s = send_request ''g'' 2 0 (word_of_nat (length [7 :: u8])) @ ([7] @ enc_u64 7) @ []"
    by simp
  have flags: "\<not> has_flag 2 ISR_FLAG_USE_COMPRESSION" "\<not> has_flag 2 ISR_FLAG_CREATE_DIRECTORY" "has_flag 2 ISR_FLAG_OVERWRITE"
    by (simp_all add: has_flag_def ISR_FLAG_USE_COMPRESSION_def ISR_FLAG_CREATE_DIRECTORY_def ISR_FLAG_OVERWRITE_def)
  have pay: "is_payload (has_flag 2 ISR_FLAG_USE_COMPRESSION) 0 [7] ([7] @ enc_u64 7)"
    using flags by (simp add: is_payload_def)
  have stat: "isr_stat ex_host ''/srv/g'' = Some (False, 1)"
    by (simp add: isr_stat_def lookup_def ex_host_nodes)
  have parents: "made_parents ex_host ''/srv/g'' = ex_host"
    by (simp add: made_parents_def isr_parent_dir_def isr_mkdir_recursive_def os_mkdir_def copy_n_def
      ISR_PATH_MAX_def lookup_def ex_host_nodes is_sep_def backslash_def Let_def)
  have fd: "isr_open_write (made_parents ex_host ''/srv/g'') ''/srv/g'' = (Some ?f, put_node [''srv'', ''g''] (File []) ex_host)"
    unfolding parents by (simp add: isr_open_write_def lookup_def ex_host_nodes) (simp add: ex_host_def)
  have path: "good_path ''g''" "isr_validate_path ''g'' = 0"
    by (simp_all add: good_path_def ISR_PATH_MAX_def isr_validate_path_def is_sep_def backslash_def)
  have may: "may_write (isr_stat ex_host ''/srv/g'') 2" using flags by (simp add: may_write_def stat)
  have live: "wr_live (put_node [''srv'', ''g''] (File []) ex_host)"
    "can_compress (has_flag 2 ISR_FLAG_USE_COMPRESSION) 0 (put_node [''srv'', ''g''] (File []) ex_host)"
    using flags by (simp_all add: can_compress_def) (simp add: ex_host_def wr_live_def host0_def)
  show ?thesis
    using server_upload [OF _ _ path(1) req pay _ path(2) ex_resolve(2) may fd live, of info0] by auto
qed

text \<open>
  C17. On any tree, with links or without, the one existing node that a request can change is the file
  that it names: when a node changes, the stream began with a \<open>SEND\<close> request whose path the
  validation accepts, the node is the file that \<open>open\<close> finds under the resolved path once the parent
  directories are made, nothing was there or the request may overwrite it, and without
  compression the file now holds a prefix of the bytes after the request. Everything else that
  existed is as it was.
\<close>

theorem server_changes_only_its_target:
  assumes "heap_ok h" "isr_receive_command root s h info = Some (r, s', h', info')"
    and "node_at h q \<noteq> None" "node_at h' q \<noteq> node_at h q"
  shows "\<exists>hdr pb payload full old new.
    pending s = ISR_COMMAND_SEND # hdr @ pb @ payload \<and> length hdr = 15 \<and>
    length pb = unat (sh_path_length (dec_send_header hdr)) \<and> isr_validate_path (cstr pb) \<noteq> - 1 \<and>
    isr_resolve_path h root (cstr pb) ISR_PATH_MAX = Some full \<and>
    may_write (isr_stat h full) (sh_flags (dec_send_header hdr)) \<and>
    lookup (made_parents h full) full True = Found q \<and>
    node_at h q = Some (File old) \<and> node_at h' q = Some (File new) \<and>
    (\<not> has_flag (sh_flags (dec_send_header hdr)) ISR_FLAG_USE_COMPRESSION \<longrightarrow> prefix new payload)"
proof -
  have "node_at h' \<noteq> node_at h" using assms(4) by auto
  with assms(2) obtain hdr pb s1 info1 where p: "pending s = ISR_COMMAND_SEND # hdr @ pb @ pending s1" "length hdr = 15"
    "length pb = unat (sh_path_length (dec_send_header hdr))"
    "isr_receive_send_command root s1 h (dec_send_header hdr) (cstr pb) info1 = Some (r, s', h', info')"
    by (elim receive_command_parse) blast
  from send_target [OF p(4) assms(1,3,4)] p(1-3) show ?thesis by blast
qed

theorem server_changes_only_its_target_witness:
  "\<exists>s' h' info'. isr_receive_command ''/srv'' (sock0 (send_request ''g'' 2 0 1 @ [7] @ enc_u64 7)) ex_host info0 =
      Some (0, s', h', info') \<and> node_at h' [''srv'', ''g''] = Some (File [7]) \<and>
    (\<exists>hdr pb payload full. send_request ''g'' 2 0 1 @ [7] @ enc_u64 7 = ISR_COMMAND_SEND # hdr @ pb @ payload \<and>
      isr_resolve_path ex_host ''/srv'' (cstr pb) ISR_PATH_MAX = Some full \<and>
      may_write (isr_stat ex_host full) (sh_flags (dec_send_header hdr)) \<and>
      lookup (made_parents ex_host full) full True = Found [''srv'', ''g''])"
proof -
  obtain s' h' info' where e: "isr_receive_command ''/srv'' (sock0 (send_request ''g'' 2 0 1 @ [7] @ enc_u64 7)) ex_host info0 =
      Some (0, s', h', info')" "node_at h' [''srv'', ''g''] = Some (File [7])"
    using ex_overwrite by blast
  have g: "node_at ex_host [''srv'', ''g''] = Some (File [1])" by (simp add: ex_host_nodes)
  with e(2) have "node_at ex_host [''srv'', ''g''] \<noteq> None" "node_at h' [''srv'', ''g''] \<noteq> node_at ex_host [''srv'', ''g'']"
    by simp_all
  from server_changes_only_its_target [OF ex_host_ok(3) e(1) this, unfolded sock0_simps] e show ?thesis
    by blast
qed

text \<open>
  C18. Without the overwrite flag no file that exists changes, on a tree without symbolic links
  and under a root whose components are plain names.
\<close>

theorem server_no_overwrite:
  assumes "plain_root rp" "no_links h" "tree_ok h" "node_at h rp = Some Dir" "heap_ok h"
    and "isr_receive_send_command (canon rp) s h header path info = Some (r, s', h', info')"
    and "\<not> has_flag (sh_flags header) ISR_FLAG_OVERWRITE"
  shows "\<forall>q bs. node_at h q = Some (File bs) \<longrightarrow> node_at h' q = Some (File bs)"
  using send_no_overwrite [OF assms] by blast

theorem server_no_overwrite_witness:
  "\<exists>r s' h' info'. isr_receive_send_command ''/srv'' (sock0 [7, 0, 0, 0, 0, 0, 0, 0, 7]) ex_host
      \<lparr>sh_flags = 0, sh_path_length = 1, sh_block_size = 0, sh_effective_length = 1\<rparr> ''g'' info0 =
      Some (r, s', h', info') \<and>
    node_at h' [''srv'', ''g''] = Some (File [1])"
proof -
  let ?hd = "\<lparr>sh_flags = 0, sh_path_length = 1, sh_block_size = 0, sh_effective_length = 1\<rparr>"
  let ?s = "sock0 [7, 0, 0, 0, 0, 0, 0, 0, 7]"
  have "isr_validate_path ''g'' \<noteq> - 1" "isr_stat ex_host ''/srv/g'' = Some (False, 1)"
    by (simp_all add: isr_validate_path_def is_sep_def backslash_def isr_stat_def lookup_def ex_host_nodes)
  then obtain r s' h' info' where e: "isr_receive_send_command ''/srv'' ?s ex_host ?hd ''g'' info0 = Some (r, s', h', info')"
    by (auto simp: isr_receive_send_command_def ex_resolve has_flag_def reply_error_def Let_def simp del: not_None_eq)
  have d: "node_at ex_host [''srv''] = Some Dir" by (simp add: ex_host_nodes)
  have "node_at ex_host [''srv'', ''g''] = Some (File [1])" by (simp add: ex_host_nodes)
  with server_no_overwrite [OF ex_root(2) ex_host_ok(2,1) d ex_host_ok(3), unfolded ex_root(1), OF e]
  have "node_at h' [''srv'', ''g''] = Some (File [1])" by (simp add: has_flag_def)
  with e show ?thesis by blast
qed

text \<open>
  C27. A request for an absolute path, an empty one, or one with a \<open>..\<close> component is refused and
  changes nothing on the host: an upload gets the failure response with its message, a download
  the confirmation of a failure, which has no room for one.
\<close>

theorem server_refuses_traversal:
  assumes "sock_ok s" "tx_live s" "good_path path"
    and "path = [] \<or> hd path = CHR ''/'' \<or> hd path = backslash \<or> dotdot \<in> set (split_on is_sep path)"
  shows "(pending s = send_request path flags b len @ rest \<longrightarrow>
      (\<exists>s' info'. isr_receive_command root s h info = Some (- 1, s', h, info') \<and> pending s' = rest \<and>
        tx s' = tx s @ enc_response (isr_response_from_error ''Invalid path''))) \<and>
    (pending s = recv_request path flags b @ rest \<longrightarrow>
      (\<exists>s' info'. isr_receive_command root s h info = Some (- 1, s', h, info') \<and> pending s' = rest \<and>
        tx s' = tx s @ enc_confirmation \<lparr>conf_type = ISR_RESULT_OTHER_FAILURE, conf_length = 0\<rparr>))"
proof (intro conjI impI)
  have bad: "isr_validate_path path = - 1"
    using assms(4) isr_validate_path_range [of path] isr_validate_path_cases [of path] by (auto simp: is_sep_def)
  {
    assume "pending s = send_request path flags b len @ rest"
    then obtain s1 where s1: "isr_receive_command root s h info =
        isr_receive_send_command root s1 h
          \<lparr>sh_flags = flags, sh_path_length = word_of_nat (length path), sh_block_size = b, sh_effective_length = len\<rparr>
          path (send_info info path flags len)"
      "pending s1 = rest" "tx s1 = tx s" "tx_live s1"
      using receive_send_request [OF assms(1,3)] assms(2) by metis
    obtain s2 where "net_send_exact s1 (enc_response (isr_response_from_error ''Invalid path'')) = (True, s2)"
      "tx s2 = tx s1 @ enc_response (isr_response_from_error ''Invalid path'')" "pending s2 = pending s1"
      using tcp.send_live [OF s1(4)] by metis
    with s1 bad show "\<exists>s' info'. isr_receive_command root s h info = Some (- 1, s', h, info') \<and> pending s' = rest \<and>
        tx s' = tx s @ enc_response (isr_response_from_error ''Invalid path'')"
      by (simp add: isr_receive_send_command_def reply_error_def isr_transmit_send_response_def)
  next
    let ?conf = "enc_confirmation \<lparr>conf_type = ISR_RESULT_OTHER_FAILURE, conf_length = 0\<rparr>"
    assume "pending s = recv_request path flags b @ rest"
    then obtain s1 where s1: "isr_receive_command root s h info =
        isr_receive_recv_command root s1 h
          \<lparr>rh_flags = flags, rh_path_length = word_of_nat (length path), rh_block_size = b\<rparr>
          path (recv_info info path flags)"
      "pending s1 = rest" "tx s1 = tx s" "tx_live s1"
      using receive_recv_request [OF assms(1,3)] assms(2) by metis
    obtain s2 where "net_send_exact s1 ?conf = (True, s2)" "tx s2 = tx s1 @ ?conf" "pending s2 = pending s1"
      using tcp.send_live [OF s1(4)] by metis
    with s1 bad show "\<exists>s' info'. isr_receive_command root s h info = Some (- 1, s', h, info') \<and> pending s' = rest \<and>
        tx s' = tx s @ ?conf"
      by (simp add: isr_receive_recv_command_def isr_send_recv_confirmation_def)
  }
qed

theorem server_refuses_traversal_witness:
  "(\<exists>s' info'. isr_receive_command ''/srv'' (sock0 (send_request ''a/../../f'' 2 0 0)) ex_host info0 =
      Some (- 1, s', ex_host, info') \<and> tx s' = enc_response (isr_response_from_error ''Invalid path'')) \<and>
   (\<exists>s' info'. isr_receive_command ''/srv'' (sock0 (recv_request ''a/../../f'' 0 0)) ex_host info0 =
      Some (- 1, s', ex_host, info') \<and>
      tx s' = enc_confirmation \<lparr>conf_type = ISR_RESULT_OTHER_FAILURE, conf_length = 0\<rparr>)"
  using server_refuses_traversal [of "sock0 (send_request ''a/../../f'' 2 0 0)" "''a/../../f''" 2 0 0 "[]" "''/srv''" ex_host info0]
    server_refuses_traversal [of "sock0 (recv_request ''a/../../f'' 0 0)" "''a/../../f''" 0 0 0 "[]" "''/srv''" ex_host info0]
  by (auto simp: good_path_def ISR_PATH_MAX_def is_sep_def backslash_def)


text \<open>
  A \<open>RECV\<close> request never changes the tree, and the request information says whether the
  path was found.
\<close>

theorem recv_changes_nothing:
  assumes "isr_receive_recv_command root s h header path info = Some (r, s', h', info')"
  shows "node_at h' = node_at h \<and> heap_at h' = heap_at h \<and> console h' = console h"
proof -
  have "rd_only h h'" by (rule recv_effect [OF assms])
  then have "h' = h\<lparr>rd_sched := rd_sched h'\<rparr>" by (simp add: rd_only_def)
  then show ?thesis by (metis host.simps(5,16,17) node_at_other(1) host.select_convs host.update_convs(5) host.surjective)
qed

theorem recv_changes_nothing_witness:
  "\<exists>r s' h' info'. isr_receive_recv_command ''/srv'' (sock0 []) ex_host
      \<lparr>rh_flags = 0, rh_path_length = 1, rh_block_size = 0\<rparr> ''/g'' info0 = Some (r, s', h', info') \<and>
    node_at h' [''srv'', ''g''] = Some (File [1])"
proof -
  let ?hd = "\<lparr>rh_flags = 0, rh_path_length = 1, rh_block_size = 0\<rparr>"
  have "isr_validate_path ''/g'' = - 1" by (simp add: isr_validate_path_def is_sep_def)
  then obtain r s' h' info' where
    e: "isr_receive_recv_command ''/srv'' (sock0 []) ex_host ?hd ''/g'' info0 = Some (r, s', h', info')"
    by (simp add: isr_receive_recv_command_def)
  from recv_changes_nothing [OF e] e show ?thesis by (auto simp: ex_host_nodes)
qed

end
