(* ===== verification/Cmdline.thy ===== *)
theory Cmdline
  imports Client Jail
begin

text \<open>
  The program of \<open>main.c\<close>: the option loops, \<open>cmd_serve\<close>, \<open>cmd_send\<close> and \<open>cmd_recv\<close>, the
  request log and \<open>main\<close>.

  A process adds to the state of a client the connections that \<open>net_accept\<close> will return, each
  with the name \<open>get_peer_str\<close> finds for it, and whether \<open>net_listen\<close> succeeds on a port. The
  accept loop never ends by itself: when the model runs out of connections the server is
  waiting, which is the exit status \<open>None\<close>.
\<close>

section \<open>Option values\<close>

text \<open>
  \<open>atoi\<close> as the C library implements it: \<open>strtol\<close> in base ten, which saturates, cut to
  \<open>int\<close>.
\<close>

definition is_space :: "char \<Rightarrow> bool" where
  "is_space c \<longleftrightarrow> c \<in> set [CHR '' '', CHR 0x09, CHR 0x0A, CHR 0x0B, CHR 0x0C, CHR 0x0D]"

definition is_digit :: "char \<Rightarrow> bool" where
  "is_digit c \<longleftrightarrow> (48 :: nat) \<le> of_char c \<and> (of_char c :: nat) \<le> 57"

definition digits_value :: "string \<Rightarrow> int" where
  "digits_value s = foldl (\<lambda>a c. a * 10 + (of_char c - 48)) 0 (takeWhile is_digit s)"

definition strtol :: "string \<Rightarrow> int" where
  "strtol s =
     (let t = dropWhile is_space s;
          v = (case t of
                 c # r \<Rightarrow> if c = CHR ''-'' then - digits_value r
                          else if c = CHR ''+'' then digits_value r else digits_value t
               | [] \<Rightarrow> 0)
      in max (- (2 ^ 63)) (min (2 ^ 63 - 1) v))"

definition atoi :: "string \<Rightarrow> int" where
  "atoi s = to_int (strtol s)"

definition block_size_option :: "string \<Rightarrow> u32" where
  "block_size_option s = word_of_int (atoi s) * 1024"

section \<open>Printing\<close>

definition DEFAULT_PORT :: string where
  "DEFAULT_PORT = ''42069''"

definition usage :: "host \<Rightarrow> host" where
  "usage h = h\<lparr>console := console h @
     [''Usage:'',
      ''  isr serve <directory> [-p port]'',
      ''  isr send <host:port> <local_path> <remote_path> [-c blocksize] [-o] [-r]'',
      ''  isr recv <host:port> <remote_path> [local_dir] [-c blocksize] [-r]'',
      [],
      ''Options:'',
      ''  -p port       Port to listen on (default: '' @ DEFAULT_PORT @ '')'',
      ''  -c blocksize  Enable LZ4 compression with given block size in KB'',
      ''  -o            Overwrite existing files'',
      ''  -r            Recursive mode (upload/download entire directory trees)'',
      [],
      ''Send notes:'',
      ''  - Without -r: sends a single file'',
      ''  - With -r: uploads entire directory trees'',
      [],
      ''Recv notes:'',
      ''  - local_dir: Directory to save files (defaults to current directory)'',
      ''  - Without -r: directories show listings, files are downloaded'',
      ''  - With -r: entire directory trees are downloaded'']\<rparr>"

definition dquoted :: "string \<Rightarrow> string" where
  "dquoted s = CHR 0x22 # s @ [CHR 0x22]"

definition log_request :: "string \<Rightarrow> isr_request_info \<Rightarrow> int \<Rightarrow> host \<Rightarrow> host" where
  "log_request peer info result h =
     (let status = (if result = 0 then ''OK'' else ''FAILED'');
          start = ''['' @ peer @ ''] '';
          path = dquoted (ri_path info);
          bytes = '' ('' @ udec (unat (ri_file_size info)) @ '' bytes)'';
          compressed = (if ri_is_compressed info then '' [compressed]'' else []) in
      say (if ri_path info = [] then start @ ''connection error''
           else if ri_cmd info = ISR_COMMAND_SEND \<and> ri_is_mkdir info then
             start @ ''MKDIR '' @ path @ '' -> '' @ status
           else if ri_cmd info = ISR_COMMAND_SEND then
             start @ ''SEND '' @ path @ bytes @ (if ri_is_overwrite info then '' [overwrite]'' else []) @
               compressed @ '' -> '' @ status
           else if ri_not_found info then start @ ''RECV '' @ path @ '' -> NOT FOUND''
           else if ri_is_dir info then start @ ''RECV '' @ path @ '' [dir] -> '' @ status
           else start @ ''RECV '' @ path @ bytes @ compressed @ '' -> '' @ status) h)"

section \<open>The server\<close>

record process =
  proc :: world
  can_listen :: "string \<Rightarrow> bool"
  incoming :: "(sock option \<times> string) list"
  finished :: "sock list"

definition on_host :: "(host \<Rightarrow> host) \<Rightarrow> process \<Rightarrow> process" where
  "on_host f p = p\<lparr>proc := set_host (f (the_host (proc p))) (proc p)\<rparr>"

text \<open>The options of \<open>serve\<close>: the port, or the option that is not known.\<close>

fun serve_options :: "string list \<Rightarrow> string \<Rightarrow> string + string" where
  "serve_options [] port = Inr port"
| "serve_options (a # rest) port =
     (case rest of
        v # rest' \<Rightarrow> if a = ''-p'' then serve_options rest' v else Inl a
      | [] \<Rightarrow> Inl a)"

text \<open>The loop that strips trailing separators, the first character apart.\<close>

function strip_seps :: "string \<Rightarrow> string" where
  "strip_seps d = (if 1 < length d \<and> is_sep (last d) then strip_seps (butlast d) else d)"
  by pat_completeness auto
termination
  by (relation "measure length") auto

declare strip_seps.simps [simp del]

text \<open>
  One turn of the accept loop for every connection. The requests run one after the other; a
  request whose handling is undefined ends everything.
\<close>

fun accept_loop :: "string \<Rightarrow> (sock option \<times> string) list \<Rightarrow> host \<Rightarrow> sock list \<Rightarrow> (host \<times> sock list) option" where
  "accept_loop root [] h done_socks = Some (h, done_socks)"
| "accept_loop root ((client, peer) # cs) h done_socks =
     (case client of
        None \<Rightarrow> accept_loop root cs (say ''Failed to accept connection'' h) done_socks
      | Some s \<Rightarrow>
          (case isr_receive_command root s h info0 of
             None \<Rightarrow> None
           | Some (result, s1, h1, info) \<Rightarrow>
               accept_loop root cs (log_request peer info result h1) (done_socks @ [s1])))"

definition cmd_serve :: "string list \<Rightarrow> process \<Rightarrow> (int option \<times> process) option" where
  "cmd_serve argv p =
     (case argv of
        [] \<Rightarrow> Some (Some 1, on_host usage p)
      | directory # opts \<Rightarrow>
          (case serve_options opts DEFAULT_PORT of
             Inl a \<Rightarrow> Some (Some 1, on_host (\<lambda>h. usage (say (''Unknown option: '' @ a) h)) p)
           | Inr port \<Rightarrow>
               (let dir = strip_seps (copy_n ISR_PATH_MAX directory); h = the_host (proc p) in
                case isr_stat h dir of
                  None \<Rightarrow> Some (Some 1, on_host (say (''Error: '' @ quoted dir @ '' does not exist'')) p)
                | Some (is_dir, _) \<Rightarrow>
                    if \<not> is_dir then
                      Some (Some 1, on_host (say (''Error: '' @ quoted dir @ '' is not a directory'')) p)
                    else
                      (case realpath h dir of
                         None \<Rightarrow>
                           Some (Some 1, on_host (say (''Error: could not resolve path '' @ quoted dir)) p)
                       | Some root \<Rightarrow>
                           if \<not> can_listen p port then
                             Some (Some 1, on_host (say (''Failed to listen on port '' @ port)) p)
                           else
                             (case accept_loop (isr_set_server_root root) (incoming p)
                                     (say (''Serving '' @ quoted root @ '' on port '' @ port) h) (finished p) of
                                None \<Rightarrow> None
                              | Some (h1, socks) \<Rightarrow>
                                  Some (None, (on_host (\<lambda>_. h1) p)\<lparr>incoming := [], finished := socks\<rparr>))))))"

section \<open>The client commands\<close>

fun send_options :: "string list \<Rightarrow> u32 \<Rightarrow> u8 \<Rightarrow> bool \<Rightarrow> string + (u32 \<times> u8 \<times> bool)" where
  "send_options [] block_size flags recursive = Inr (block_size, flags, recursive)"
| "send_options (a # rest) block_size flags recursive =
     (if a = ''-c'' \<and> rest \<noteq> [] then
        send_options (tl rest) (block_size_option (hd rest)) (flags OR ISR_FLAG_USE_COMPRESSION) recursive
      else if a = ''-o'' then send_options rest block_size (flags OR ISR_FLAG_OVERWRITE) recursive
      else if a = ''-r'' then send_options rest block_size flags True
      else Inl a)"

fun recv_options :: "string list \<Rightarrow> u32 \<Rightarrow> u8 \<Rightarrow> bool \<Rightarrow> string + (u32 \<times> u8 \<times> bool)" where
  "recv_options [] block_size flags recursive = Inr (block_size, flags, recursive)"
| "recv_options (a # rest) block_size flags recursive =
     (if a = ''-c'' \<and> rest \<noteq> [] then
        recv_options (tl rest) (block_size_option (hd rest)) (flags OR ISR_FLAG_USE_COMPRESSION) recursive
      else if a = ''-r'' then recv_options rest block_size flags True
      else Inl a)"

text \<open>The exit status of a transfer.\<close>

definition exit_status :: "(int \<times> world) option \<Rightarrow> (int \<times> world) option" where
  "exit_status res = map_option (\<lambda>(r, w). (if r \<noteq> 0 then 1 else 0, w)) res"

definition refuse :: "string \<Rightarrow> world \<Rightarrow> (int \<times> world) option" where
  "refuse line w = Some (1, print line w)"

definition show_usage :: "world \<Rightarrow> world" where
  "show_usage w = set_host (usage (the_host w)) w"

definition cmd_send :: "string list \<Rightarrow> world \<Rightarrow> (int \<times> world) option" where
  "cmd_send argv w =
     (case argv of
        hostport # local_path # remote_path # opts \<Rightarrow>
          (case send_options opts 0 0 False of
             Inl a \<Rightarrow> Some (1, show_usage (print (''Unknown option: '' @ a) w))
           | Inr (block_size, flags, recursive) \<Rightarrow>
               (case parse_host_port hostport 256 16 of
                  None \<Rightarrow> refuse (''Invalid host:port format: '' @ hostport) w
                | Some (host, port) \<Rightarrow>
                    (case isr_stat (the_host w) local_path of
                       None \<Rightarrow> refuse (''Error: '' @ quoted local_path @ '' does not exist'') w
                     | Some (is_dir, _) \<Rightarrow>
                         if is_dir then
                           (if \<not> recursive then
                              refuse (''Error: '' @ quoted local_path @ '' is a directory (use -r for recursive send)'') w
                            else exit_status
                              (isr_cli_send_directory host port remote_path local_path flags block_size w))
                         else exit_status (isr_cli_send_file host port remote_path local_path flags block_size w))))
      | _ \<Rightarrow> Some (1, show_usage w))"

definition cmd_recv :: "string list \<Rightarrow> world \<Rightarrow> (int \<times> world) option" where
  "cmd_recv argv w =
     (case argv of
        hostport # remote_path # rest \<Rightarrow>
          (let (local_path, opts) =
             (case rest of
                a # rest' \<Rightarrow> if a = [] \<or> hd a \<noteq> CHR ''-'' then (Some a, rest') else (None, rest)
              | [] \<Rightarrow> (None, [])) in
           case recv_options opts 0 0 False of
             Inl a \<Rightarrow> Some (1, show_usage (print (''Unknown option: '' @ a) w))
           | Inr (block_size, flags, recursive) \<Rightarrow>
               (case parse_host_port hostport 256 16 of
                  None \<Rightarrow> refuse (''Invalid host:port format: '' @ hostport) w
                | Some (host, port) \<Rightarrow>
                    (let local_dir = (case local_path of Some d \<Rightarrow> d | None \<Rightarrow> ''.'') in
                     if recursive then
                       exit_status (isr_cli_download_directory host port remote_path local_dir flags block_size w)
                     else exit_status (isr_cli_recv host port remote_path local_dir flags block_size w))))
      | _ \<Rightarrow> Some (1, show_usage w))"

text \<open>\<open>main\<close>; \<open>args\<close> is \<open>argv\<close> without the program name.\<close>

definition on_world :: "process \<Rightarrow> (int \<times> world) option \<Rightarrow> (int option \<times> process) option" where
  "on_world p res = map_option (\<lambda>(r, w). (Some r, p\<lparr>proc := w\<rparr>)) res"

definition main :: "string list \<Rightarrow> process \<Rightarrow> (int option \<times> process) option" where
  "main args p =
     (case args of
        [] \<Rightarrow> Some (Some 1, on_host usage p)
      | cmd # rest \<Rightarrow>
          if cmd = ''serve'' then cmd_serve rest p
          else if cmd = ''send'' then on_world p (cmd_send rest (proc p))
          else if cmd = ''recv'' then on_world p (cmd_recv rest (proc p))
          else Some (Some 1, on_host (\<lambda>h. usage (say (''Unknown command: '' @ cmd) h)) p))"

end
