(* ===== verification/Serving.thy ===== *)
theory Serving
  imports Cmdline
begin

text \<open>
  The server over its whole life: what holds after any number of requests from any clients. A
  request lets the tree evolve, which is a transitive relation; what it keeps holds for the
  accept loop.
\<close>

section \<open>How a tree evolves\<close>

text \<open>
  Nothing disappears or changes its kind; a file can get another content; a new node is a
  directory or a file, in a directory.
\<close>

definition kind_step :: "bool \<Rightarrow> node option \<Rightarrow> node option \<Rightarrow> bool" where
  "kind_step parent a b \<longleftrightarrow> b = a \<or> (\<exists>x y. a = Some (File x) \<and> b = Some (File y)) \<or>
     (a = None \<and> (b = Some Dir \<or> (\<exists>y. b = Some (File y))) \<and> parent)"

definition has_parent :: "host \<Rightarrow> fpath \<Rightarrow> bool" where
  "has_parent h q \<longleftrightarrow> q \<noteq> [] \<and> node_at h (butlast q) = Some Dir"

definition evolves :: "host \<Rightarrow> host \<Rightarrow> bool" where
  "evolves h h' \<longleftrightarrow> heap_at h' = heap_at h \<and>
     (\<forall>q. kind_step (has_parent h' q) (node_at h q) (node_at h' q))"

lemma kind_step_trans:
  "kind_step P a b \<Longrightarrow> kind_step Q b c \<Longrightarrow> (P \<Longrightarrow> Q) \<Longrightarrow> kind_step Q a c"
  by (auto simp: kind_step_def)

lemma kind_step_kept:
  assumes "kind_step P a b"
  shows "a = Some Dir \<Longrightarrow> b = Some Dir" "a = Some (Symlink t) \<Longrightarrow> b = Some (Symlink t)"
    "a = Some (File x) \<Longrightarrow> \<exists>y. b = Some (File y)" "b = Some (Symlink t) \<Longrightarrow> a = Some (Symlink t)"
    "a = None \<Longrightarrow> b \<noteq> None \<Longrightarrow> P" "a = a' \<Longrightarrow> kind_step P a' b"
  using assms by (auto simp: kind_step_def)

lemma evolvesD: "evolves h h' \<Longrightarrow> kind_step (has_parent h' q) (node_at h q) (node_at h' q)"
  by (simp add: evolves_def)

lemma evolves_same: "node_at h' = node_at h \<Longrightarrow> heap_at h' = heap_at h \<Longrightarrow> evolves h h'"
  by (simp add: evolves_def kind_step_def)

lemmas evolves_keeps = kind_step_kept(1-3) [OF evolvesD]

lemma evolves_trans:
  assumes "evolves h h'" "evolves h' h''"
  shows "evolves h h''"
  unfolding evolves_def
proof (intro conjI allI)
  show "heap_at h'' = heap_at h" using assms by (simp add: evolves_def)
  show "kind_step (has_parent h'' q) (node_at h q) (node_at h'' q)" for q
    by (rule kind_step_trans [OF evolvesD [OF assms(1)] evolvesD [OF assms(2)]])
      (use evolves_keeps(1) [OF assms(2)] in \<open>auto simp: has_parent_def\<close>)
qed

lemma evolves_no_links: "evolves h h' \<Longrightarrow> no_links h \<Longrightarrow> no_links h'"
  unfolding no_links_def using kind_step_kept(4) [OF evolvesD] by metis

lemma evolves_tree_ok:
  assumes "evolves h h'" "tree_ok h"
  shows "tree_ok h'"
proof -
  have "node_at h' p = Some Dir" if new: "node_at h' (p @ [c]) \<noteq> None" for p c
  proof (cases "node_at h (p @ [c]) = None")
    case True
    with kind_step_kept(5) [OF evolvesD [OF assms(1)] True new] show ?thesis by (simp add: has_parent_def)
  next
    case False
    then have "node_at h p = Some Dir" using assms(2) unfolding tree_ok_def by blast
    then show ?thesis by (rule evolves_keeps(1) [OF assms(1)])
  qed
  with evolves_keeps(1) [OF assms(1), of "[]"] assms(2) show ?thesis by (simp add: tree_ok_def)
qed

section \<open>Requests let the tree evolve\<close>

lemma walk_Absent_parent: "walk t n cur cs fl = Absent p \<Longrightarrow> \<exists>q c. p = q @ [c] \<and> t q = Some Dir"
  by (induction t n cur cs fl rule: walk.induct)
    (auto split: if_splits option.splits node.splits nat.splits)

lemma lookup_Absent:
  assumes "lookup h s fl = Absent p"
  shows "node_at h p = None \<and> p \<noteq> [] \<and> node_at h (butlast p) = Some Dir"
  using assms walk_Absent [of "node_at h" 40 _ "split_path s" fl p] walk_Absent_parent [of "node_at h" 40 _ "split_path s" fl p]
  by (fastforce simp: lookup_def split: list.splits)

lemma evolves_put:
  assumes "lookup h s fl = Absent p" "nd = Dir \<or> nd = File bs"
  shows "evolves h (put_node p nd h)"
proof -
  have "butlast p \<noteq> p" using lookup_Absent [OF assms(1)] by (metis append_butlast_last_id append_self_conv list.distinct(1))
  with lookup_Absent [OF assms(1)] assms(2) show ?thesis by (auto simp: evolves_def kind_step_def has_parent_def)
qed

lemma evolves_os_mkdir: "evolves h (snd (os_mkdir h s))"
  by (cases "lookup h s False") (auto simp: os_mkdir_def intro: evolves_same evolves_put)

lemma evolves_mkdir_loop: "evolves h (fst (mkdir_loop h pre cs))"
proof (induction h pre cs rule: mkdir_loop.induct)
  case (2 h pre c cs)
  then show ?case using evolves_trans [OF evolves_os_mkdir [of h pre]] by auto
qed (simp add: evolves_same)

lemma evolves_mkdir: "evolves h (snd (isr_mkdir_recursive h path))"
proof -
  obtain h1 tmp where l: "mkdir_loop h (take 1 (copy_n ISR_PATH_MAX path)) (drop 1 (copy_n ISR_PATH_MAX path)) = (h1, tmp)"
    by force
  then have "evolves h h1" using evolves_mkdir_loop by (metis fst_conv)
  then have "evolves h (snd (os_mkdir h1 tmp))" by (rule evolves_trans [OF _ evolves_os_mkdir])
  with l show ?thesis
    by (cases "os_mkdir h1 tmp") (auto simp: isr_mkdir_recursive_def split: mkdir_res.splits)
qed

lemma evolves_made_parents: "evolves h (made_parents h full)"
  by (auto simp: made_parents_def evolves_mkdir intro: evolves_same split: option.split)

lemma evolves_open:
  assumes "isr_open_write h s = (Some f, h2)"
  shows "evolves h h2"
  using assms
  by (auto simp: isr_open_write_def split: place.splits option.splits node.splits if_splits intro: evolves_put)
    (auto simp: evolves_def kind_step_def has_parent_def)

lemma evolves_written:
  assumes "same_but p h h'" "node_at h p = Some (File a)" "node_at h' p = Some (File b)"
  shows "evolves h h'"
  unfolding evolves_def
proof (intro conjI allI)
  show "heap_at h' = heap_at h" using assms(1) by (simp add: same_but_def)
  show "kind_step (has_parent h' q) (node_at h q) (node_at h' q)" for q
    using assms by (cases "q = p") (auto simp: same_but_def kind_step_def)
qed

lemma evolves_send:
  assumes "isr_receive_send_command root s h header path info = Some (r, s', h', info')" "heap_ok h"
  shows "evolves h h'"
  using assms
proof (cases rule: send_cases)
  case (opened full f h2)
  from isr_open_write_Some [OF opened(4)] have "node_at h2 (fd_path f) = Some (File [])" by (simp add: holds_def)
  then have "evolves h2 h'" using evolves_written [OF opened(5)] opened(6) by blast
  with evolves_open [OF opened(4)] evolves_made_parents show ?thesis by (blast intro: evolves_trans)
qed (simp_all add: evolves_same evolves_mkdir evolves_made_parents)

lemma evolves_request:
  assumes "isr_receive_command root s h info = Some (r, s', h', info')" "heap_ok h"
  shows "evolves h h'"
proof -
  have recv: "evolves h h'" if "isr_receive_recv_command root s1 h header path info1 = Some (r, s', h', info')"
    for s1 header path info1
    using rd_only_node_at [OF recv_effect [OF that]] recv_effect [OF that]
    by (auto simp: rd_only_def intro!: evolves_same) (metis host.select_convs(7) host.surjective host.update_convs(5))
  have known: "evolves h (say line h)" for line by (rule evolves_same) (simp_all add: say_def)
  show ?thesis
    using assms(1) evolves_send [OF _ assms(2)] recv known evolves_same [of h h]
    by (fastforce simp: isr_receive_command_def Let_def split: if_splits option.splits prod.splits)
qed


section \<open>Any number of requests\<close>

text \<open>
  One turn of the accept loop, with whatever client; an invariant of the turns holds when the
  loop stops waiting for the next connection.
\<close>

inductive serves :: "string \<Rightarrow> host \<Rightarrow> host \<Rightarrow> bool" for root where
  request: "isr_receive_command root s h info0 = Some (r, s', h', info) \<Longrightarrow>
    serves root h (log_request peer info r h')"
| no_client: "serves root h (say ''Failed to accept connection'' h)"

inductive_cases servesE: "serves root h h'"

lemma accept_loop_serves:
  "accept_loop root cs h d = Some (h', d') \<Longrightarrow> (serves root)\<^sup>*\<^sup>* h h'"
proof (induction root cs h d rule: accept_loop.induct)
  case (2 root client peer cs h d)
  show ?case
  proof (cases client)
    case None
    with 2 have "(serves root)\<^sup>*\<^sup>* (say ''Failed to accept connection'' h) h'" by simp
    with serves.no_client show ?thesis by (rule converse_rtranclp_into_rtranclp)
  next
    case (Some s)
    obtain r s1 h1 info where run: "isr_receive_command root s h info0 = Some (r, s1, h1, info)"
      using 2 Some by (auto split: option.splits)
    with 2 Some have "(serves root)\<^sup>*\<^sup>* (log_request peer info r h1) h'" by simp
    with serves.request [OF run] show ?thesis by (rule converse_rtranclp_into_rtranclp)
  qed
qed simp

lemma log_request_say: "\<exists>line. log_request peer info r h = say line h"
  unfolding log_request_def Let_def by blast

locale host_invariant =
  fixes root :: string and inv :: "host \<Rightarrow> bool"
  assumes request_inv: "inv h \<Longrightarrow> isr_receive_command root s h info0 = Some (r, s', h', info) \<Longrightarrow> inv h'"
    and say_inv: "inv h \<Longrightarrow> inv (say line h)"
begin

lemma serves_inv: "serves root h h' \<Longrightarrow> inv h \<Longrightarrow> inv h'"
  using request_inv say_inv log_request_say by (metis servesE)

lemma reachable_inv: "(serves root)\<^sup>*\<^sup>* h h' \<Longrightarrow> inv h \<Longrightarrow> inv h'"
  by (induction rule: rtranclp_induct) (auto dest: serves_inv)

lemma accept_loop_inv: "accept_loop root cs h d = Some (h', d') \<Longrightarrow> inv h \<Longrightarrow> inv h'"
  using reachable_inv accept_loop_serves by blast

end

lemma say_kept [simp]: "heap_at (say l h) = heap_at h"
  by (simp add: say_def)

definition evolved :: "host \<Rightarrow> host \<Rightarrow> bool" where
  "evolved h0 h \<longleftrightarrow> heap_ok h0 \<and> evolves h0 h"

interpretation kinds: host_invariant root "evolved h0" for root h0
proof unfold_locales
  fix h s r s' h' info line
  assume inv: "evolved h0 h"
  then have "heap_ok h" by (simp add: evolved_def evolves_def heap_ok_def)
  with inv show "isr_receive_command root s h info0 = Some (r, s', h', info) \<Longrightarrow> evolved h0 h'"
    by (auto simp: evolved_def intro: evolves_trans evolves_request)
  have "evolves h (say line h)" by (rule evolves_same) simp_all
  with inv show "evolved h0 (say line h)"
    by (auto simp: evolved_def intro: evolves_trans)
qed

text \<open>The tree outside the served directory, on a tree without links.\<close>

definition jailed :: "fpath \<Rightarrow> host \<Rightarrow> host \<Rightarrow> bool" where
  "jailed rp h0 h \<longleftrightarrow> plain_root rp \<and> tree_ok h \<and> no_links h \<and> node_at h rp = Some Dir \<and> heap_ok h \<and>
     (\<forall>q. node_at h q = node_at h0 q \<or> prefix rp q)"

interpretation jail: host_invariant "canon rp" "jailed rp h0" for rp h0
proof unfold_locales
  fix h s r s' h' info line
  assume inv: "jailed rp h0 h"
  show "jailed rp h0 (say line h)"
    using inv by (simp add: jailed_def host_invariants)
  assume run: "isr_receive_command (canon rp) s h info0 = Some (r, s', h', info)"
  have "heap_ok h" using inv by (simp add: jailed_def)
  note ev = evolves_request [OF run this]
  have "node_at h' q = node_at h q \<or> prefix rp q" for q
    by (rule command_node_cases [OF run])
      (use inv in \<open>auto simp: jailed_def dest: send_inside [OF _ _ tree_ok_root, where q = q]\<close>)
  moreover have "heap_ok h'" using inv ev by (simp add: jailed_def evolves_def heap_ok_def)
  ultimately show "jailed rp h0 h'"
    using inv evolves_tree_ok [OF ev] evolves_no_links [OF ev] evolves_keeps(1) [OF ev, of rp]
    unfolding jailed_def by metis
qed

text \<open>What \<open>serve\<close> does to the tree, from its argument to its state when it waits.\<close>

lemma on_host_host [simp]: "the_host (proc (on_host f p)) = f (the_host (proc p))"
  by (simp add: on_host_def)

lemma usage_host [simp]: "node_at (usage h) = node_at h" "heap_at (usage h) = heap_at h"
  by (simp_all add: usage_def)

lemma isr_set_server_root_canon:
  assumes "realpath h dir = Some root"
  obtains rp where "lookup h dir True = Found rp" "root = canon rp" "isr_set_server_root root = root"
  using assms by (auto simp: realpath_def isr_set_server_root_def copy_n_def split: place.splits if_splits)

lemma cmd_serve_cases:
  assumes "cmd_serve argv p = Some (r, p')"
  obtains (quiet) "node_at (the_host (proc p')) = node_at (the_host (proc p))"
      "heap_at (the_host (proc p')) = heap_at (the_host (proc p))"
  | (served) dir opts rp line d where "argv = dir # opts"
      "lookup (the_host (proc p)) (strip_seps (copy_n ISR_PATH_MAX dir)) True = Found rp"
      "node_at (the_host (proc p)) rp = Some Dir"
      "accept_loop (canon rp) (incoming p) (say line (the_host (proc p))) (finished p) =
         Some (the_host (proc p'), d)"
proof (cases argv)
  case Nil
  with assms quiet show ?thesis by (auto simp: cmd_serve_def)
next
  case (Cons dir opts)
  let ?h = "the_host (proc p)" and ?dir = "strip_seps (copy_n ISR_PATH_MAX dir)"
  show ?thesis
  proof (cases "\<exists>port sz root. serve_options opts DEFAULT_PORT = Inr port \<and> isr_stat ?h ?dir = Some (True, sz) \<and>
      realpath ?h ?dir = Some root \<and> can_listen p port")
    case False
    with assms Cons quiet show ?thesis
      by (cases "serve_options opts DEFAULT_PORT"; cases "isr_stat ?h ?dir"; cases "realpath ?h ?dir")
        (auto simp: cmd_serve_def Let_def split: if_splits)
  next
    case True
    then obtain port sz root where o: "serve_options opts DEFAULT_PORT = Inr port" "isr_stat ?h ?dir = Some (True, sz)"
      "realpath ?h ?dir = Some root" "can_listen p port" by blast
    obtain rp where rp: "lookup ?h ?dir True = Found rp" "root = canon rp" "isr_set_server_root root = root"
      by (rule isr_set_server_root_canon [OF o(3)])
    have "node_at ?h rp = Some Dir"
      using o(2) rp(1) by (auto simp: isr_stat_def split: option.splits node.splits)
    moreover obtain d where "accept_loop (canon rp) (incoming p) (say (''Serving '' @ quoted root @ '' on port '' @ port) ?h) (finished p) =
         Some (the_host (proc p'), d)"
      using assms Cons o rp by (auto simp: cmd_serve_def Let_def split: option.splits)
    ultimately show ?thesis using served Cons rp(1) by blast
  qed
qed

section \<open>Requests whose handling is defined\<close>

text \<open>A compressed transmission is defined for every block size.\<close>

lemma tx_compressed_defined:
  "m = LZ4_compressBound (to_int (int (unat b))) \<Longrightarrow> tx_compressed s h f b m c \<noteq> None"
proof (induction s h f b m c rule: tx_compressed.induct)
  case (1 s h f b m c)
  obtain r bs f1 h1 where e: "isr_read h f (unat b) = (r, bs, f1, h1)" by (metis prod_cases4)
  show ?case
  proof (cases "0 < r")
    case False
    with e show ?thesis by (auto simp: tx_compressed.simps [of s h f b m c] split: prod.splits bool.splits)
  next
    case pos: True
    obtain content k where r: "bs = take k (drop (fd_pos f) content)" "k \<le> unat b" "r = int (length bs)"
      by (rule isr_read_cases [OF e pos])
    then have len: "length bs \<le> unat b" by simp
    obtain z dst where z: "LZ4_compress_default bs (replicate (nat m) 0) (to_int r) m = Some (z, dst)"
    proof (cases "int (length bs) \<le> LZ4_MAX_INPUT_SIZE")
      case True
      then have "to_int r = int (length bs)" using r(3) by (simp add: to_int_small)
      with LZ4_compress_default_ok [OF True, of m "replicate (nat m) 0"] that show ?thesis by auto
    next
      case False
      have "to_int r < 0 \<or> LZ4_MAX_INPUT_SIZE < to_int r"
      proof (cases "length bs < 2 ^ 31")
        case True
        then show ?thesis using to_int_nat [OF True] False r(3) by simp
      next
        case False
        then have "2 ^ 31 \<le> length bs" "length bs < 2 ^ 32" using le_less_trans [OF len unat_u32_less] by simp_all
        then show ?thesis unfolding r(3) by (intro disjI1 to_int_neg)
      qed
      from LZ4_compress_default_refuses [OF this] that show ?thesis by blast
    qed
    obtain b1 s1 where s1: "net_send_exact s (enc_u32 (word_of_int z)) = (b1, s1)" by force
    obtain b2 s2 where s2: "net_send_exact s1 (take (nat z) dst) = (b2, s2)" by force
    show ?thesis
    proof (cases "0 < z \<and> b1 \<and> b2")
      case False
      with e pos z s1 s2 show ?thesis
        by (auto simp: tx_compressed.simps [of s h f b m c] Let_def split: if_splits bool.splits)
    next
      case go: True
      then have nz: "\<not> z \<le> 0" by simp
      have "tx_compressed s2 h1 f1 b m (c + isr_count_byte_values bs) \<noteq> None"
        by (rule "1.IH" [OF e [symmetric] refl refl pos refl z refl nz s1 [symmetric] _ s2 [symmetric] _ "1.prems"])
          (use go in simp_all)
      with e pos z s1 s2 go show ?thesis by (simp add: tx_compressed.simps [of s h f b m c] Let_def)
    qed
  qed
qed

text \<open>
  The streams that make the server overflow its block buffer: a \<open>SEND\<close> request that asks for
  compression, its path, and a payload that overruns with the block size and the length that its
  header gives.
\<close>

definition overrunning :: "bytes \<Rightarrow> bool" where
  "overrunning stream \<longleftrightarrow>
     (let header = dec_send_header (take 15 (drop 1 stream)) in
      16 \<le> length stream \<and> hd stream = ISR_COMMAND_SEND \<and>
      has_flag (sh_flags header) ISR_FLAG_USE_COMPRESSION \<and>
      overruns (unat (sh_block_size header))
        (nat (LZ4_compressBound (to_int (int (unat (sh_block_size header))))))
        (sh_effective_length header)
        (drop (16 + unat (sh_path_length header)) stream))"

lemma transmit_recv_defined: "isr_transmit_file_compressed s h f b \<noteq> None"
  using tx_compressed_defined
  by (auto simp: isr_transmit_file_compressed_def Let_def split: option.splits)

lemma recv_defined: "isr_receive_recv_command root s h header path info \<noteq> None"
  unfolding isr_receive_recv_command_def Let_def
  by (simp add: transmit_recv_defined split: option.split prod.split bool.split del: not_None_eq)

lemma receive_upload_defined:
  assumes "holds h f []" "heap_ok h" "receive_upload s h f header info = None"
  shows "has_flag (sh_flags header) ISR_FLAG_USE_COMPRESSION \<and>
    overruns (unat (sh_block_size header)) (nat (LZ4_compressBound (to_int (int (unat (sh_block_size header))))))
      (sh_effective_length header) (pending s)"
  using assms(3) isr_receive_file_compressed_cases [OF assms(1,2), where s = s and b = "sh_block_size header" and n = "sh_effective_length header"]
  by (auto simp: receive_upload_def split: if_splits option.splits prod.splits)

lemma send_defined:
  assumes "isr_receive_send_command root s h header path info = None" "heap_ok h"
  shows "has_flag (sh_flags header) ISR_FLAG_USE_COMPRESSION \<and>
    overruns (unat (sh_block_size header)) (nat (LZ4_compressBound (to_int (int (unat (sh_block_size header))))))
      (sh_effective_length header) (pending s)"
proof -
  have valid: "isr_validate_path path \<noteq> - 1"
    using assms(1) by (auto simp: isr_receive_send_command_def)
  obtain full where full: "isr_resolve_path h root path ISR_PATH_MAX = Some full"
    using assms(1) valid by (cases "isr_resolve_path h root path ISR_PATH_MAX") (auto simp: isr_receive_send_command_def)
  have nodir: "\<not> has_flag (sh_flags header) ISR_FLAG_CREATE_DIRECTORY"
    using assms(1) valid full by (cases "isr_mkdir_recursive h full") (auto simp: isr_receive_send_command_def split: if_splits)
  define t where "t = (if isr_stat h full \<noteq> None then ISR_SEND_RESPONSE_OVERWRITING else ISR_SEND_RESPONSE_CREATING)"
  obtain b s1 where s1: "isr_transmit_send_response s t None = (b, s1)" by force
  obtain f h2 where h2: "isr_open_write (made_parents h full) full = (f, h2)" by force
  obtain f' info1 where f': "f = Some f'" "receive_upload s1 h2 f' header info1 = None"
    using assms(1) valid full nodir s1 h2
    unfolding isr_receive_send_command_def made_parents_def [symmetric] Let_def t_def
    by (cases b; cases f) (simp_all split: if_splits)
  have "heap_ok (made_parents h full)"
    using assms(2) made_parents_keeps [of h full] by (auto simp: heap_ok_def grows_def same_env_def)
  with isr_open_write_Some [of "made_parents h full" full f' h2] h2 f'(1)
  have "holds h2 f' []" "heap_ok h2" by (auto simp: same_but_def heap_ok_def)
  note upload = receive_upload_defined [OF this f'(2)]
  have "pending s1 = pending s"
    using s1 net_send_exact_inv by (force simp: isr_transmit_send_response_def Let_def pending_def)
  with upload show ?thesis by simp
qed

lemma drop_request: "length bs = 15 \<Longrightarrow> length pb = n \<Longrightarrow> drop (16 + n) (c # bs @ pb @ r) = r"
proof -
  assume "length bs = 15" "length pb = n"
  then have n: "16 + n = length (c # bs @ pb)" by simp
  have "c # bs @ pb @ r = (c # bs @ pb) @ r" by simp
  then show ?thesis unfolding n by (metis append_eq_conv_conj)
qed

lemma request_defined:
  assumes "isr_receive_command root s h info = None" "heap_ok h"
  shows "overrunning (pending s)"
proof -
  obtain cmd s1 where s1: "net_recv_exact s 1 = (Some cmd, s1)" "hd cmd = ISR_COMMAND_SEND"
    using assms(1) recv_defined
    by (auto simp: isr_receive_command_def Let_def simp del: not_None_eq split: option.splits prod.splits if_splits)
  obtain bs s2 where s2: "net_recv_exact s1 15 = (Some bs, s2)"
    using assms(1) s1
    by (cases "net_recv_exact s1 15") (auto simp: isr_receive_command_def Let_def split: option.splits)
  let ?hd = "dec_send_header bs"
  obtain pb s3 path info1 where s3: "net_recv_exact s2 (unat (sh_path_length ?hd)) = (Some pb, s3)"
    "isr_receive_send_command root s3 h ?hd path info1 = None"
    using assms(1) s1 s2
    by (cases "net_recv_exact s2 (unat (sh_path_length ?hd))")
      (auto simp: isr_receive_command_def Let_def split: option.splits if_splits)
  obtain c where "cmd = [c]" using net_recv_exact_consumes [OF s1(1)] by (cases cmd) auto
  with net_recv_exact_consumes [OF s1(1)] net_recv_exact_consumes [OF s2] net_recv_exact_consumes [OF s3(1)]
  have p: "pending s = c # bs @ pb @ pending s3" "length bs = 15" "length pb = unat (sh_path_length ?hd)"
    by simp_all
  then have "drop (16 + unat (sh_path_length ?hd)) (pending s) = pending s3" by (simp only: drop_request)
  moreover have "take 15 (drop 1 (pending s)) = bs" "16 \<le> length (pending s)" "hd (pending s) = ISR_COMMAND_SEND"
    using p s1(2) \<open>cmd = [c]\<close> by simp_all
  ultimately show ?thesis
    using send_defined [OF s3(2) assms(2)] unfolding overrunning_def Let_def by simp
qed

lemma heap_ok_say [simp]: "heap_ok (say l h) = heap_ok h"
  by (simp add: heap_ok_def)

lemma accept_loop_answers:
  assumes "\<forall>(c, peer) \<in> set cs. \<forall>s. c = Some s \<longrightarrow> \<not> overrunning (pending s)" "heap_ok h"
  shows "\<exists>h' d'. accept_loop root cs h d = Some (h', d @ d') \<and> length d' = length (List.map_filter fst cs)"
  using assms
proof (induction root cs h d rule: accept_loop.induct)
  case (2 root client peer cs h d)
  show ?case
  proof (cases client)
    case None
    with 2 show ?thesis by (auto simp: List.map_filter_simps heap_ok_def)
  next
    case (Some s)
    with 2(3) have "\<not> overrunning (pending s)" by simp
    then obtain r s1 h1 info where run: "isr_receive_command root s h info0 = Some (r, s1, h1, info)"
      using request_defined [OF _ 2(4), of root s info0] by (metis prod_cases4 option.exhaust)
    have ok: "heap_ok (log_request peer info r h1)"
      using evolves_request [OF run 2(4)] 2(4) log_request_say [of peer info r h1]
      by (auto simp: evolves_def heap_ok_def)
    from "2.IH"(2) [OF Some run refl refl refl _ ok] 2(3)
    obtain h' d' where "accept_loop root cs (log_request peer info r h1) (d @ [s1]) = Some (h', (d @ [s1]) @ d')"
      "length d' = length (List.map_filter fst cs)"
      by auto
    with run Some show ?thesis by (intro exI [of _ h'] exI [of _ "s1 # d'"]) (simp add: List.map_filter_simps)
  qed
qed (simp add: List.map_filter_simps)

lemma overrunning_request:
  assumes "length path < 65536"
  shows "overrunning (send_request path flags b len @ payload) \<longleftrightarrow>
    has_flag flags ISR_FLAG_USE_COMPRESSION \<and>
    overruns (unat b) (nat (LZ4_compressBound (to_int (int (unat b))))) len payload"
proof -
  let ?hd = "\<lparr>sh_flags = flags, sh_path_length = word_of_nat (length path), sh_block_size = b, sh_effective_length = len\<rparr>"
  have e: "length (enc_send_header ?hd) = 15" "dec_send_header (enc_send_header ?hd) = ?hd"
    using send_header.enc_length send_header.dec_enc by auto
  then have "take 15 (drop 1 (send_request path flags b len @ payload)) = enc_send_header ?hd"
    "drop (16 + length path) (send_request path flags b len @ payload) = payload"
    "16 \<le> length (send_request path flags b len @ payload)" "hd (send_request path flags b len @ payload) = ISR_COMMAND_SEND"
    using drop_request [of "enc_send_header ?hd" "bytes_of path"] by (simp_all add: send_request_def bytes_of_def)
  with e assms show ?thesis by (simp add: overrunning_def)
qed

section \<open>Properties\<close>

text \<open>A compressed upload, and a server with two clients.\<close>

definition ex_packed :: sock where
  "ex_packed = sock0 (send_request ''f'' 1 1 2 @ concat (replicate 2 [0, 0, 0, 2, 0x10, 7]) @ [0, 0, 0, 0, 0, 0, 0, 14])"

lemma ex_not_overrunning: "\<not> overrunning (pending ex_packed)"
proof -
  have "nat (LZ4_compressBound (to_int (int (unat (1 :: u32))))) = 17"
    by (simp add: to_int_def LZ4_compressBound_def)
  moreover have "\<not> overruns (unat (1 :: u32)) 17 2 (concat (replicate 2 [0, 0, 0, 2, 0x10, 7]) @ [0, 0, 0, 0, 0, 0, 0, 14])"
    by code_simp
  ultimately have "\<not> overruns (unat (1 :: u32)) (nat (LZ4_compressBound (to_int (int (unat (1 :: u32)))))) 2
      (concat (replicate 2 [0, 0, 0, 2, 0x10, 7]) @ [0, 0, 0, 0, 0, 0, 0, 14])"
    by (simp only: not_False_eq_True)
  moreover have "length ''f'' < 65536" by simp
  ultimately show ?thesis
    unfolding ex_packed_def sock0_simps by (simp only: overrunning_request simp_thms)
qed

definition ex_serve :: process where
  "ex_serve = \<lparr>proc = \<lparr>the_host = ex_host, conns = [], closed = [], dialled = []\<rparr>, can_listen = (\<lambda>_. True),
     incoming = [(Some ex_up, ''a''), (None, []), (Some ex_packed, ''b'')], finished = []\<rparr>"

lemma ex_serve_facts:
  "the_host (proc ex_serve) = ex_host" "strip_seps (copy_n ISR_PATH_MAX ''/srv/'') = ''/srv''"
  "lookup ex_host ''/srv'' True = Found [''srv'']" "isr_stat ex_host ''/srv'' = Some (True, 4096)"
  "realpath ex_host ''/srv'' = Some ''/srv''" "serve_options [] DEFAULT_PORT = Inr DEFAULT_PORT"
  "can_listen ex_serve DEFAULT_PORT"
  "\<forall>(c, peer) \<in> set (incoming ex_serve). \<forall>s. c = Some s \<longrightarrow> \<not> overrunning (pending s)"
proof -
  show l: "lookup ex_host ''/srv'' True = Found [''srv'']" by (simp add: lookup_def ex_host_nodes)
  show "isr_stat ex_host ''/srv'' = Some (True, 4096)" "realpath ex_host ''/srv'' = Some ''/srv''"
    by (simp_all add: isr_stat_def realpath_def l ex_host_nodes canon_def ISR_PATH_MAX_def) (simp add: ex_host_def host0_def)
  have "\<not> overrunning (pending ex_up)"
    by (simp add: ex_up_def overrunning_request has_flag_def)
  with ex_not_overrunning
  show "\<forall>(c, peer) \<in> set (incoming ex_serve). \<forall>s. c = Some s \<longrightarrow> \<not> overrunning (pending s)"
    by (simp add: ex_serve_def)
qed (simp_all add: ex_serve_def strip_seps.simps copy_n_def ISR_PATH_MAX_def is_sep_def backslash_def)

lemma ex_serve_runs:
  "\<exists>p' d. cmd_serve [''/srv/''] ex_serve = Some (None, p') \<and> finished p' = d \<and> length d = 2"
proof -
  obtain h' d' where "accept_loop (isr_set_server_root ''/srv'') (incoming ex_serve)
      (say (''Serving '' @ quoted ''/srv'' @ '' on port '' @ DEFAULT_PORT) ex_host) [] = Some (h', [] @ d')"
    "length d' = length (List.map_filter fst (incoming ex_serve))"
    using accept_loop_answers [OF ex_serve_facts(8)] ex_host_ok(3) by (metis heap_ok_say)
  then show ?thesis
    using ex_serve_facts(1-7) by (simp add: cmd_serve_def Let_def) (simp add: ex_serve_def List.map_filter_simps)
qed

text \<open>
  C8. The jail holds for a server that runs: after any number of requests from any clients, in
  any order, everything outside the directory given to \<open>isr serve\<close> is as it was, on a tree
  without symbolic links.
\<close>

theorem serve_jail:
  assumes "cmd_serve (dir # opts) p = Some (r, p')"
    and "lookup (the_host (proc p)) (strip_seps (copy_n ISR_PATH_MAX dir)) True = Found rp" "plain_root rp"
    and "tree_ok (the_host (proc p))" "no_links (the_host (proc p))" "heap_ok (the_host (proc p))"
  shows "\<forall>q. node_at (the_host (proc p')) q = node_at (the_host (proc p)) q \<or> prefix rp q"
  using assms(1)
proof (cases rule: cmd_serve_cases)
  case (served dir' opts' rp' line d)
  let ?h = "the_host (proc p)"
  have "rp' = rp" using served(1,2) assms(2) by simp
  with served have "jailed rp ?h (say line ?h)"
    using assms by (simp add: jailed_def host_invariants)
  with jail.accept_loop_inv served(4) \<open>rp' = rp\<close> have "jailed rp ?h (the_host (proc p'))" by blast
  then show ?thesis by (simp add: jailed_def)
qed simp

theorem serve_jail_witness:
  "\<exists>p'. cmd_serve [''/srv/''] ex_serve = Some (None, p') \<and> length (finished p') = 2 \<and>
    (\<forall>q. node_at (the_host (proc p')) q = node_at ex_host q \<or> prefix [''srv''] q)"
proof -
  obtain p' where run: "cmd_serve [''/srv/''] ex_serve = Some (None, p')" "length (finished p') = 2"
    using ex_serve_runs by blast
  from serve_jail [OF run(1), unfolded ex_serve_facts(1,2), OF ex_serve_facts(3) ex_root(2) ex_host_ok(1-3)] run
  show ?thesis by blast
qed

text \<open>
  Whatever clients send, on any tree, with links or without: no node disappears, a directory
  stays a directory, a link keeps its target, a file stays a file, and what is new lies in a
  directory, so that the tree stays well-formed.
\<close>

lemma serve_keeps_kinds:
  assumes "cmd_serve argv p = Some (r, p')" "heap_ok (the_host (proc p))" "tree_ok (the_host (proc p))"
  shows "tree_ok (the_host (proc p')) \<and>
    (\<forall>q. case node_at (the_host (proc p)) q of
        None \<Rightarrow> True
      | Some (File a) \<Rightarrow> (\<exists>b. node_at (the_host (proc p')) q = Some (File b))
      | Some Dir \<Rightarrow> node_at (the_host (proc p')) q = Some Dir
      | Some (Symlink t) \<Rightarrow> node_at (the_host (proc p')) q = Some (Symlink t))"
proof -
  let ?h = "the_host (proc p)" and ?h' = "the_host (proc p')"
  have "evolves ?h ?h'"
    using assms(1)
  proof (cases rule: cmd_serve_cases)
    case (served dir opts rp line d)
    have "evolved ?h (say line ?h)" using assms(2) by (simp add: evolved_def evolves_same)
    with kinds.accept_loop_inv served(4) have "evolved ?h ?h'" by blast
    then show ?thesis by (simp add: evolved_def)
  qed (rule evolves_same)
  then show ?thesis
    using evolves_tree_ok [of ?h ?h'] evolves_keeps [of ?h ?h'] assms(3)
    by (auto split: option.split node.split)
qed



text \<open>
  C19. The overflow is reachable by any client: a compressed upload to a path that may be written,
  with any well-formed blocks for less than the announced length, then a block announced larger than
  the buffer of the server and more bytes than that buffer holds, makes the server write past its end.
\<close>

theorem server_overflow_reachable:
  assumes "sock_ok s" "tx_live s" "good_path path" "has_flag flags ISR_FLAG_USE_COMPRESSION"
    and "pending s = send_request path flags b len @ fs @ enc_u32 m @ payload"
    and "comp_frames (unat b) data fs" "length data < unat len" "block_size_ok b"
    and "nat (LZ4_compressBound (int (unat b))) < unat m" "nat (LZ4_compressBound (int (unat b))) < length payload"
    and "isr_validate_path path = 0" "isr_resolve_path h root path ISR_PATH_MAX = Some full"
    and "may_write (isr_stat h full) flags" "isr_open_write (made_parents h full) full = (Some f, h2)"
    and "wr_live h2" "can_compress True b h2"
  shows "isr_receive_command root s h info = None"
proof -
  let ?hd = "\<lparr>sh_flags = flags, sh_path_length = word_of_nat (length path), sh_block_size = b, sh_effective_length = len\<rparr>"
  let ?cs = "nat (LZ4_compressBound (to_int (int (unat b))))"
  note cs = to_int_block_size [OF assms(8)]
  obtain s1 where s1: "isr_receive_command root s h info =
      isr_receive_send_command root s1 h ?hd path (send_info info path flags len)"
    "pending s1 = fs @ enc_u32 m @ payload" "sock_ok s1" "tx_live s1"
    using receive_send_request [OF assms(1,3,5)] assms(2) by metis
  obtain s2 where s2: "isr_transmit_send_response s1 (answer_type (isr_stat h full)) None = (True, s2)"
    "pending s2 = pending s1" "sock_ok s2 = sock_ok s1"
    using tcp.send_live [OF s1(4)] by (auto simp: isr_transmit_send_response_def)
  have run: "\<exists>info1. isr_receive_send_command root s1 h ?hd path (send_info info path flags len) = receive_upload s2 h2 f ?hd info1"
    using assms(11-14) s2(1)
    by (auto simp: isr_receive_send_command_def made_parents_def may_write_def answer_type_def Let_def
      split: option.splits)
  have h2: "holds h2 f []" using isr_open_write_Some [OF assms(14)] by simp
  obtain ca da where mem: "malloc h2 ?cs = Some ca" "malloc h2 (unat b) = Some da" "heap_ok h2"
    using assms(16) by (auto simp: can_compress_def)
  note bufs = buffers_malloc [OF mem(3,1,2)]
  have p: "sock_ok s2" "pending s2 = fs @ enc_u32 m @ payload" using s1 s2 by simp_all
  let ?rem = "len - word_of_nat (length data)"
  obtain s3 f3 h3 where s3: "rx_compressed s2 h2 f b ?cs ca da len 0 =
      rx_compressed s3 h3 f3 b ?cs ca da ?rem (0 + isr_count_byte_values data)"
    "pending s3 = enc_u32 m @ payload" "sock_ok s3"
    using rx_frames [OF assms(6,8) bufs less_imp_le [OF assms(7)] p(1) h2 assms(15) p(2)] by blast
  have "unat (word_of_nat (length data) :: u64) \<le> length data" by (simp add: unat_of_nat)
  then have "?rem \<noteq> 0" using assms(7) by auto
  moreover obtain s4 where "net_recv_exact s3 4 = (Some (enc_u32 m), s4)" "pending s4 = payload"
    using tcp_u32.recv_frame [OF s3(3,2) TrueI] by metis
  ultimately have "rx_compressed s3 h3 f3 b ?cs ca da ?rem (0 + isr_count_byte_values data) = None"
    using assms(9,10) unfolding cs by (simp add: rx_compressed.simps [of s3] recv_into_def)
  with s3(1) mem have "isr_receive_file_compressed s2 h2 f b len = None"
    by (simp add: isr_receive_file_compressed_def Let_def)
  with run s1(1) assms(4) show ?thesis by (auto simp: receive_upload_def)
qed

theorem server_overflow_reachable_witness:
  "isr_receive_command ''/srv''
     (sock0 (send_request ''f'' 1 1 9 @ (enc_u32 2 @ [0x10, 7]) @ enc_u32 100 @ replicate 50 0)) ex_host info0 = None"
proof -
  have f: "has_flag 1 ISR_FLAG_USE_COMPRESSION" "\<not> has_flag 1 ISR_FLAG_CREATE_DIRECTORY"
    by (simp_all add: has_flag_def ISR_FLAG_USE_COMPRESSION_def ISR_FLAG_CREATE_DIRECTORY_def)
  have "is_block [7] [0x10, 7]" by code_simp
  from frames_Cons [OF _ _ this _ frames_Nil, of 1]
  have frames: "comp_frames (unat (1 :: u32)) [7] (enc_u32 2 @ [0x10, 7])" by (simp add: LZ4_compressBound_def)
  have path: "good_path ''f''" "isr_validate_path ''f'' = 0"
    by (simp_all add: good_path_def ISR_PATH_MAX_def isr_validate_path_def is_sep_def backslash_def)
  have may: "may_write (isr_stat ex_host ''/srv/f'') 1"
    using f(2) by (simp add: may_write_def isr_stat_def lookup_def ex_host_nodes)
  have host: "wr_live (put_node [''srv'', ''f''] (File []) ex_host)"
    "can_compress True 1 (put_node [''srv'', ''f''] (File []) ex_host)"
    by (simp_all add: ex_host_def wr_live_def can_compress_def block_size_ok_def heap_ok_def malloc_def host0_def
      to_int_def LZ4_compressBound_def)
  have small: "nat (LZ4_compressBound (int (unat (1 :: u32)))) < 50" "nat (LZ4_compressBound (int (unat (1 :: u32)))) < 100"
    by (simp_all add: LZ4_compressBound_def)
  have op: "isr_open_write (made_parents ex_host ''/srv/f'') ''/srv/f'' =
      (Some \<lparr>fd_path = [''srv'', ''f''], fd_pos = 0\<rparr>, put_node [''srv'', ''f''] (File []) ex_host)"
    unfolding ex_parents by (rule ex_open)
  have nums: "length [7 :: u8] < unat (9 :: u64)" "block_size_ok 1" "unat (100 :: u32) = 100"
    by (simp_all add: block_size_ok_def)
  show ?thesis
    by (rule server_overflow_reachable [OF sock0_simps(2,4) path(1) f(1) sock0_simps(1) frames nums(1,2) _ _ path(2) ex_resolve(1)
        may op host]) (use small in \<open>simp_all only: nums(3) length_replicate\<close>)
qed

end
