(* ===== verification/Paths.thy ===== *)
theory Paths
  imports Serving
begin

text \<open>
  Exact behaviour of path resolution and of \<open>isr_mkdir_recursive\<close> on canonical paths, in a tree
  without links: which node a path names, which directories are made, and what a request for a
  plain relative path resolves to.
\<close>

section \<open>Canonical paths\<close>

lemma canon_cons: "p \<noteq> [] \<Longrightarrow> canon p = concat (map (\<lambda>c. CHR ''/'' # c) p)"
  by (simp add: canon_def)

lemma canon_append: "p \<noteq> [] \<Longrightarrow> canon (p @ cs) = canon p @ concat (map (\<lambda>c. CHR ''/'' # c) cs)"
  by (simp add: canon_def)

lemma canon_snoc: "p \<noteq> [] \<Longrightarrow> canon (p @ [c]) = canon p @ CHR ''/'' # c"
  by (simp add: canon_append)

lemma plain_root_append [simp]: "plain_root (a @ b) \<longleftrightarrow> plain_root a \<and> plain_root b"
  by (auto simp: plain_root_def)

lemma plain_root_prefix: "plain_root p \<Longrightarrow> prefix q p \<Longrightarrow> plain_root q"
  by (auto simp: prefix_def)

lemma split_canon:
  assumes "plain_root p" "p \<noteq> []"
  shows "split_path (canon p) = [] # p"
  using split_path_canon_append [OF plain_root_slash [OF assms(1)], of "[]"] assms(2) by (simp add: canon_def)

lemma walk_plain:
  assumes "\<forall>q tgt. t q \<noteq> Some (Symlink tgt)" "plain_root cs" "cs \<noteq> []"
  shows "walk t n cur cs fl =
    (if \<exists>i < length cs. t (cur @ take i cs) \<noteq> Some Dir then Unresolved
     else if t (cur @ cs) = None then Absent (cur @ cs) else Found (cur @ cs))"
  using assms(2,3)
proof (induction cs arbitrary: cur)
  case (Cons c cs)
  have c: "c \<noteq> []" "c \<noteq> ''.''" "c \<noteq> ''..''" "plain_root cs"
    using Cons.prems(1) by (simp_all add: plain_root_def)
  have ex: "(\<exists>i < length (c # cs). t (cur @ take i (c # cs)) \<noteq> Some Dir) \<longleftrightarrow>
      t cur \<noteq> Some Dir \<or> (\<exists>i < length cs. t ((cur @ [c]) @ take i cs) \<noteq> Some Dir)"
    by (auto simp: less_Suc_eq_0_disj)
  show ?case
  proof (cases "t cur = Some Dir")
    case True
    show ?thesis
    proof (cases "cs = []")
      case True
      with \<open>t cur = Some Dir\<close> c assms(1) show ?thesis by (auto split: option.split node.split)
    next
      case False
      show ?thesis
      proof (cases "t (cur @ [c])")
        case None
        then have "\<exists>i < length cs. t ((cur @ [c]) @ take i cs) \<noteq> Some Dir"
          using False by (intro exI [of _ 0]) simp
        with None True False c ex show ?thesis by simp
      next
        case (Some nd)
        with assms(1) have "walk t n cur (c # cs) fl = walk t n (cur @ [c]) cs fl"
          using True c by (auto split: node.split)
        with Cons.IH [OF c(4) False] True ex show ?thesis by simp
      qed
    qed
  next
    case False
    with ex show ?thesis by simp
  qed
qed simp

definition blocked :: "(fpath \<Rightarrow> node option) \<Rightarrow> fpath \<Rightarrow> bool" where
  "blocked t p \<longleftrightarrow> (\<exists>q. strict_prefix q p \<and> t q \<noteq> Some Dir)"

lemma strict_prefix_take: "strict_prefix q p \<longleftrightarrow> (\<exists>i < length p. q = take i p)"
  by (metis append_take_drop_id length_take min.absorb4 nat_less_le prefix_length_less prefix_order.less_le
    strict_prefixE' take_is_prefix append_eq_conv_conj)

lemma blocked_take: "blocked t p \<longleftrightarrow> (\<exists>i < length p. t (take i p) \<noteq> Some Dir)"
  by (auto simp: blocked_def strict_prefix_take)

lemma lookup_canon:
  assumes "no_links h" "plain_root p" "p \<noteq> []"
  shows "lookup h (canon p) fl =
    (if blocked (node_at h) p then Unresolved else if node_at h p = None then Absent p else Found p)"
proof -
  have t: "\<forall>q tgt. node_at h q \<noteq> Some (Symlink tgt)" using assms(1) by (simp add: no_links_def)
  have "node_at h [] = Some Dir \<or> blocked (node_at h) p"
    using assms(3) by (auto simp: blocked_take)
  with walk_plain [OF t assms(2,3), of 40 "[]" fl] show ?thesis
    by (auto simp: lookup_abs split_canon [OF assms(2,3)] blocked_take)
qed

lemma tree_ok_parents:
  assumes "tree_ok h" "node_at h p \<noteq> None" "strict_prefix q p"
  shows "node_at h q = Some Dir"
proof -
  obtain c r where p: "p = q @ c # r" using assms(3) by (auto elim: strict_prefixE')
  then have "node_at h (q @ [c]) \<noteq> None"
    using tree_ok_prefix [OF assms(1,2), of "q @ [c]"] by simp
  with assms(1) show ?thesis unfolding tree_ok_def by blast
qed

lemma tree_ok_not_blocked: "tree_ok h \<Longrightarrow> node_at h p \<noteq> None \<Longrightarrow> \<not> blocked (node_at h) p"
  using tree_ok_parents by (auto simp: blocked_def)

section \<open>Making directories\<close>

definition with_dirs :: "fpath \<Rightarrow> (fpath \<Rightarrow> node option) \<Rightarrow> fpath \<Rightarrow> node option" where
  "with_dirs p t q = (if t q = None \<and> prefix q p then Some Dir else t q)"

fun is_file :: "node option \<Rightarrow> bool" where
  "is_file (Some (File bs)) = True"
| "is_file nd = False"

lemma is_file_iff: "is_file nd \<longleftrightarrow> (\<exists>bs. nd = Some (File bs))"
  by (cases nd rule: is_file.cases) simp_all

definition file_above :: "(fpath \<Rightarrow> node option) \<Rightarrow> fpath \<Rightarrow> bool" where
  "file_above t p \<longleftrightarrow> list_ex (\<lambda>i. is_file (t (take i p))) [0..<length p]"

lemma file_above_iff: "file_above t p \<longleftrightarrow> (\<exists>q bs. strict_prefix q p \<and> t q = Some (File bs))"
  by (auto 4 4 simp: file_above_def list_ex_iff is_file_iff strict_prefix_take)

lemma mkdir_loop_plain:
  "\<forall>x \<in> set c. \<not> is_sep x \<Longrightarrow> mkdir_loop h pre (c @ rest) = mkdir_loop h (pre @ c) rest"
  by (induction c arbitrary: pre) auto

lemma mkdir_loop_component:
  assumes "plain_root [c]" "p \<noteq> []"
  shows "mkdir_loop h (canon p) (CHR ''/'' # c @ rest) = mkdir_loop (snd (os_mkdir h (canon p))) (canon (p @ [c])) rest"
proof -
  have "\<forall>x \<in> set c. \<not> is_sep x" using assms(1) by (simp add: plain_root_def)
  with mkdir_loop_plain [of c] assms(2) show ?thesis by (simp add: is_sep_def canon_snoc)
qed

lemma os_mkdir_canon:
  assumes "no_links h" "plain_root p" "p \<noteq> []" "\<forall>q. \<not> deny h q"
  shows "os_mkdir h (canon p) =
    (if blocked (node_at h) p then (MkFail, h)
     else if node_at h p = None then (MkOk, put_node p Dir h) else (MkExist, h))"
  using assms(4) by (simp add: os_mkdir_def lookup_canon [OF assms(1-3)])

lemma mkdir_loop_comps:
  assumes "no_links h" "plain_root (p @ cs)" "p \<noteq> []" "\<forall>q. \<not> deny h q"
    and "\<not> blocked (node_at h) p" "\<forall>q bs. strict_prefix q (p @ cs) \<longrightarrow> node_at h q \<noteq> Some (File bs)"
  shows "\<exists>h'. mkdir_loop h (canon p) (concat (map (\<lambda>c. CHR ''/'' # c) cs)) = (h', canon (p @ cs)) \<and> same_env h h' \<and>
    node_at h' = (\<lambda>q. if node_at h q = None \<and> strict_prefix q (p @ cs) then Some Dir else node_at h q)"
  using assms
proof (induction cs arbitrary: h p)
  case Nil
  then have "\<forall>q. strict_prefix q p \<longrightarrow> node_at h q = Some Dir" by (auto simp: blocked_def)
  then show ?case by (auto simp: same_env_def fun_eq_iff)
next
  case (Cons c cs)
  let ?h1 = "snd (os_mkdir h (canon p))"
  have plain: "plain_root p" "plain_root [c]" "plain_root ((p @ [c]) @ cs)" using Cons.prems(2) by (auto simp: plain_root_def)
  have sp: "strict_prefix p (p @ c # cs)" by (simp add: strict_prefix_def)
  with Cons.prems(1,6) have "node_at h p = None \<or> node_at h p = Some Dir"
    by (cases "node_at h p"; cases "the (node_at h p)") (auto simp: no_links_def)
  then have h1: "node_at ?h1 = (node_at h)(p \<mapsto> Dir)" "same_env h ?h1"
    unfolding os_mkdir_canon [OF Cons.prems(1) plain(1) Cons.prems(3,4)] using Cons.prems(5)
    by (auto simp: same_env_def fun_eq_iff)
  have "no_links ?h1" using Cons.prems(1) h1(1) by (simp add: no_links_def)
  moreover have "\<forall>q. \<not> deny ?h1 q" using Cons.prems(4) h1(2) by (simp add: same_env_def)
  moreover have "\<not> blocked (node_at ?h1) (p @ [c])"
    using Cons.prems(5) unfolding h1(1) by (auto simp: blocked_def strict_prefix_def)
  moreover have "\<forall>q bs. strict_prefix q ((p @ [c]) @ cs) \<longrightarrow> node_at ?h1 q \<noteq> Some (File bs)"
    using Cons.prems(6) unfolding h1(1) by simp
  ultimately obtain h' where h': "mkdir_loop ?h1 (canon (p @ [c])) (concat (map (\<lambda>c. CHR ''/'' # c) cs)) =
      (h', canon ((p @ [c]) @ cs))" "same_env ?h1 h'"
    "node_at h' = (\<lambda>q. if node_at ?h1 q = None \<and> strict_prefix q ((p @ [c]) @ cs) then Some Dir else node_at ?h1 q)"
    using Cons.IH [OF _ plain(3)] by blast
  have "node_at h' = (\<lambda>q. if node_at h q = None \<and> strict_prefix q (p @ c # cs) then Some Dir else node_at h q)"
    unfolding h'(3) h1(1) using sp \<open>node_at h p = None \<or> node_at h p = Some Dir\<close> by (auto simp: fun_eq_iff)
  moreover have "same_env h h'" using h1(2) h'(2) by (simp add: same_env_def)
  moreover have "mkdir_loop h (canon p) (concat (map (\<lambda>c. CHR ''/'' # c) (c # cs))) = (h', canon (p @ c # cs))"
    using h'(1) mkdir_loop_component [OF plain(2) Cons.prems(3)] by (simp del: mkdir_loop.simps)
  ultimately show ?case by blast
qed

lemma mkdir_loop_idle:
  assumes "plain_root (p @ cs)" "p \<noteq> []" "\<And>r. r \<noteq> [] \<Longrightarrow> prefix r (p @ cs) \<Longrightarrow> snd (os_mkdir h (canon r)) = h"
  shows "mkdir_loop h (canon p) (concat (map (\<lambda>c. CHR ''/'' # c) cs)) = (h, canon (p @ cs))"
  using assms
proof (induction cs arbitrary: p)
  case (Cons c cs)
  have "plain_root [c]" "snd (os_mkdir h (canon p)) = h"
    using Cons.prems(1,2) Cons.prems(3) [of p] by (auto simp: plain_root_def)
  with Cons.IH [of "p @ [c]"] Cons.prems mkdir_loop_component [of c p h] show ?case
    by (simp del: mkdir_loop.simps)
qed simp

lemma isr_mkdir_recursive_start:
  assumes "plain_root (c # cs)" "length (canon (c # cs)) < ISR_PATH_MAX"
    and "mkdir_loop h (canon [c]) (concat (map (\<lambda>c. CHR ''/'' # c) cs)) = (h1, tmp)"
  shows "isr_mkdir_recursive h (canon (c # cs)) =
    (case os_mkdir h1 tmp of (MkOk, h2) \<Rightarrow> (0, h2) | (MkExist, h2) \<Rightarrow> (0, h2) | (MkFail, h2) \<Rightarrow> (- 1, h2))"
proof -
  have "copy_n ISR_PATH_MAX (canon (c # cs)) = canon (c # cs)" using assms(2) by (simp add: copy_n_def)
  moreover have "take 1 (canon (c # cs)) = ''/''" "drop 1 (canon (c # cs)) = c @ concat (map (\<lambda>c. CHR ''/'' # c) cs)"
    "canon [c] = ''/'' @ c"
    by (simp_all add: canon_def)
  moreover have "\<forall>x \<in> set c. \<not> is_sep x" using assms(1) by (simp add: plain_root_def)
  ultimately show ?thesis
    using assms(3) mkdir_loop_plain [of c h "''/''"] by (simp add: isr_mkdir_recursive_def)
qed

text \<open>
  The result of \<open>isr_mkdir_recursive\<close> on a canonical path: failure when a file is in the way, and
  the tree is as it was; otherwise every missing directory is made.
\<close>

lemma isr_mkdir_recursive_canon:
  assumes "no_links h" "tree_ok h" "plain_root p" "p \<noteq> []" "\<forall>q. \<not> deny h q" "length (canon p) < ISR_PATH_MAX"
  shows "\<exists>h'. isr_mkdir_recursive h (canon p) = (if file_above (node_at h) p then - 1 else 0, h') \<and> same_env h h' \<and>
    node_at h' = (if file_above (node_at h) p then node_at h else with_dirs p (node_at h))"
proof -
  obtain c cs where p: "p = [c] @ cs" using assms(4) by (cases p) auto
  note start = isr_mkdir_recursive_start [OF assms(3,6) [unfolded p append.simps]]
  show ?thesis
  proof (cases "file_above (node_at h) p")
    case True
    then obtain f bs where f: "strict_prefix f p" "node_at h f = Some (File bs)" by (auto simp: file_above_iff)
    have same: "snd (os_mkdir h (canon r)) = h" if r: "r \<noteq> []" "prefix r p" for r
    proof -
      have "node_at h r \<noteq> None \<or> blocked (node_at h) r"
      proof (cases "prefix r f")
        case True
        with tree_ok_prefix [OF assms(2), of f r] f(2) show ?thesis by simp
      next
        case False
        with r(2) f(1) have "strict_prefix f r" by (metis prefix_order.less_le prefix_same_cases prefix_order.eq_refl)
        with f(2) show ?thesis by (auto simp: blocked_def)
      qed
      then show ?thesis
        using os_mkdir_canon [OF assms(1) plain_root_prefix [OF assms(3) r(2)] r(1) assms(5)] by auto
    qed
    have "mkdir_loop h (canon [c]) (concat (map (\<lambda>c. CHR ''/'' # c) cs)) = (h, canon p)"
      unfolding p using mkdir_loop_idle [of "[c]" cs h] assms(3) same p by simp
    moreover have "blocked (node_at h) p" using f by (auto simp: blocked_def)
    ultimately show ?thesis
      using start True os_mkdir_canon [OF assms(1,3,4,5)] p by (simp add: same_env_def)
  next
    case False
    have root: "node_at h [] = Some Dir" using assms(2) by (simp add: tree_ok_def)
    then have "\<not> blocked (node_at h) [c]" by (auto simp: blocked_take)
    moreover have "\<forall>q bs. strict_prefix q ([c] @ cs) \<longrightarrow> node_at h q \<noteq> Some (File bs)"
      using False p by (auto simp: file_above_iff)
    ultimately obtain h1 where h1: "mkdir_loop h (canon [c]) (concat (map (\<lambda>c. CHR ''/'' # c) cs)) = (h1, canon p)"
      "same_env h h1"
      "node_at h1 = (\<lambda>q. if node_at h q = None \<and> strict_prefix q p then Some Dir else node_at h q)"
      using mkdir_loop_comps [OF assms(1) assms(3) [unfolded p] _ assms(5)] p by auto
    have links: "no_links h1" using assms(1) h1(3) by (simp add: no_links_def)
    have deny: "\<forall>q. \<not> deny h1 q" using assms(5) h1(2) by (simp add: same_env_def)
    have "node_at h1 q = Some Dir" if "strict_prefix q p" for q
      using that False assms(1) h1(3)
      by (cases "node_at h q"; cases "the (node_at h q)") (auto simp: file_above_iff no_links_def)
    then have free: "\<not> blocked (node_at h1) p" by (auto simp: blocked_def)
    have "node_at (put_node p Dir h1) = with_dirs p (node_at h)" if "node_at h1 p = None"
      using that h1(3) by (auto simp: with_dirs_def fun_eq_iff strict_prefix_def)
    moreover have "node_at h1 = with_dirs p (node_at h)" if "node_at h1 p \<noteq> None"
      using that h1(3) by (auto simp: with_dirs_def fun_eq_iff strict_prefix_def split: if_splits)
    ultimately show ?thesis
      using start [OF h1(1) [unfolded p]] os_mkdir_canon [OF links assms(3,4) deny] free False h1(2) p
      by (auto simp: same_env_def)
  qed
qed


section \<open>Plain relative paths\<close>

definition rel_path :: "fpath \<Rightarrow> string" where
  "rel_path cs = tl (canon cs)"

lemma canon_rel: "cs \<noteq> [] \<Longrightarrow> canon cs = CHR ''/'' # rel_path cs"
  by (cases cs) (simp_all add: rel_path_def canon_def)

lemma join_rel: "rp \<noteq> [] \<Longrightarrow> cs \<noteq> [] \<Longrightarrow> join_path (canon rp) (rel_path cs) = canon (rp @ cs)"
  by (simp add: join_path_def canon_append flip: canon_rel canon_cons)

lemma split_rel:
  assumes "plain_root cs" "cs \<noteq> []"
  shows "split_path (rel_path cs) = cs" "split_on is_sep (rel_path cs) = cs"
proof -
  show *: "split_path (rel_path cs) = cs"
    using split_canon [OF assms] canon_rel [OF assms(2)] by simp
  have "split_on is_sep c = [c]" if "c \<in> set cs" for c
    using that assms(1) by (intro split_on_no_sep) (auto simp: plain_root_def)
  then have "concat (map (split_on is_sep) cs) = cs" by (induction cs) simp_all
  then show "split_on is_sep (rel_path cs) = cs" by (simp add: split_on_refine [of "rel_path cs"] *)
qed

lemma valid_rel:
  assumes "plain_root cs" "cs \<noteq> []"
  shows "isr_validate_path (rel_path cs) = 0"
proof -
  obtain c r where cs: "cs = c # r" using assms(2) by (cases cs) auto
  obtain x xs where c: "c = x # xs" "\<not> is_sep x"
    using assms(1) cs by (cases c) (auto simp: plain_root_def)
  have "rel_path cs = x # xs @ concat (map (\<lambda>c. CHR ''/'' # c) r)" using cs c by (simp add: rel_path_def canon_def)
  moreover have "''..'' \<notin> set (split_on is_sep (rel_path cs))"
    using assms(1) by (auto simp: split_rel [OF assms] plain_root_def)
  ultimately show ?thesis using c(2) by (simp add: isr_validate_path_cases del: split_on.simps)
qed

lemma canon_last:
  assumes "plain_root p" "butlast p \<noteq> []"
  shows "canon p = canon (butlast p) @ CHR ''/'' # last p" "CHR ''/'' \<notin> set (last p)"
proof -
  from assms(2) have "p = butlast p @ [last p]" by (cases p) auto
  then show "canon p = canon (butlast p) @ CHR ''/'' # last p" using canon_snoc [OF assms(2)] by metis
  have "last p \<in> set p" using assms(2) by (cases p) auto
  with plain_root_slash [OF assms(1)] show "CHR ''/'' \<notin> set (last p)" by blast
qed

lemma plain_butlast: "plain_root p \<Longrightarrow> plain_root (butlast p)"
  by (auto simp: plain_root_def dest: in_set_butlastD)

lemma resolve_rel:
  assumes "no_links h" "plain_root rp" "rp \<noteq> []" "plain_root cs" "cs \<noteq> []" "length (canon (rp @ cs)) < ISR_PATH_MAX"
  shows "isr_resolve_path h (canon rp) (rel_path cs) ISR_PATH_MAX = Some (canon (rp @ cs))"
proof -
  let ?p = "rp @ cs"
  have par: "butlast ?p \<noteq> []" using assms(3,5) by (simp add: butlast_append)
  have plain: "plain_root ?p" using assms(2,4) by simp
  note last = canon_last [OF plain par]
  obtain k where k: "length (canon (butlast ?p)) = Suc k" using canon_cons [OF par] par by (cases "butlast ?p") auto
  have len: "length (canon (butlast ?p)) + 1 + length (last ?p) < ISR_PATH_MAX" using assms(6) last(1) by simp
  have slash: "strrchr (canon ?p) CHR ''/'' = Some (Suc k)"
    unfolding last(1) using strrchr_last [OF last(2), of "canon (butlast ?p)"] k by simp
  have parts: "take (Suc k) (canon ?p) = canon (butlast ?p)" "drop (Suc (Suc k)) (canon ?p) = last ?p"
    unfolding last(1) using k by simp_all
  have real: "realpath h (canon (butlast ?p)) = None \<or> realpath h (canon (butlast ?p)) = Some (canon (butlast ?p))"
    by (auto simp: realpath_def lookup_canon [OF assms(1) plain_butlast [OF plain] par])
  have cat: "strncat ISR_PATH_MAX (strncat ISR_PATH_MAX (canon (butlast ?p)) ''/'') (last ?p) = canon ?p"
    using len last(1) by (simp add: strncat_def)
  have copies: "copy_n ISR_PATH_MAX (canon ?p) = canon ?p" "copy_n ISR_PATH_MAX (last ?p) = last ?p"
    using assms(6) len by (simp_all add: copy_n_def)
  have "take (length (canon rp)) (canon ?p) = canon rp" by (simp add: canon_append [OF assms(3)])
  then show ?thesis
    using real assms(6) unfolding isr_resolve_path_def snprintf_path_def join_rel [OF assms(3,5)]
    by (elim disjE) (simp_all add: Let_def copies slash parts cat)
qed

lemma isr_stat_canon:
  assumes "no_links h" "tree_ok h" "plain_root p" "p \<noteq> []"
  shows "isr_stat h (canon p) = (case node_at h p of
      Some (File bs) \<Rightarrow> Some (False, word_of_nat (length bs)) | Some Dir \<Rightarrow> Some (True, word_of_nat (dir_size h p)) | _ \<Rightarrow> None)"
  using tree_ok_not_blocked [OF assms(2), of p]
  by (cases "node_at h p") (auto simp: isr_stat_def lookup_canon [OF assms(1,3,4)])

text \<open>The parent directories of a file that is uploaded.\<close>

lemma with_dirs_file:
  assumes "tree_ok h" "node_at h p \<noteq> None"
  shows "with_dirs p (node_at h) = node_at h"
proof
  fix q
  show "with_dirs p (node_at h) q = node_at h q"
    using tree_ok_prefix [OF assms, of q] by (auto simp: with_dirs_def)
qed

lemma made_parents_canon:
  assumes "no_links h" "tree_ok h" "plain_root p" "butlast p \<noteq> []" "\<forall>q. \<not> deny h q" "length (canon p) < ISR_PATH_MAX"
  shows "same_env h (made_parents h (canon p)) \<and>
    node_at (made_parents h (canon p)) =
      (if file_above (node_at h) p then node_at h else with_dirs (butlast p) (node_at h))"
proof -
  note last = canon_last [OF assms(3,4)]
  have parent: "isr_parent_dir (canon p) ISR_PATH_MAX = Some (canon (butlast p))"
    using assms(6) strrchr_last [OF last(2), of "canon (butlast p)"] last(1)
    by (simp add: isr_parent_dir_def Let_def)
  have len: "length (canon (butlast p)) < ISR_PATH_MAX" using assms(6) last(1) by simp
  have below: "strict_prefix q p \<longleftrightarrow> prefix q (butlast p)" for q
  proof -
    have "p = butlast p @ [last p]" using assms(4) by (cases p) auto
    moreover have "strict_prefix q (b @ [l]) \<longleftrightarrow> prefix q b" for b and l :: string
      by (auto simp: strict_prefix_def dest: prefix_length_le)
    ultimately show ?thesis by metis
  qed
  have "file_above (node_at h) p \<longleftrightarrow> file_above (node_at h) (butlast p) \<or> (\<exists>bs. node_at h (butlast p) = Some (File bs))"
    unfolding file_above_iff below by (auto simp: prefix_order.le_less)
  moreover have "with_dirs (butlast p) (node_at h) = node_at h" if "node_at h (butlast p) \<noteq> None"
    using with_dirs_file [OF assms(2) that] .
  ultimately show ?thesis
    using isr_mkdir_recursive_canon [OF assms(1,2) plain_butlast [OF assms(3)] assms(4,5) len] parent
    by (auto simp: made_parents_def split: if_splits)
qed

section \<open>Property\<close>

text \<open>
  C25. \<open>isr_mkdir_recursive\<close> on a canonical path, in a tree without links where nothing is denied:
  it fails exactly when a file stands where a parent directory should, and then changes nothing;
  when it returns 0 every missing directory on the path is there, and nothing else has changed.
  It returns 0 for a path that names a file, too: \<open>EEXIST\<close> does not tell the two apart.
\<close>

theorem mkdir_recursive_exact:
  assumes "no_links h" "tree_ok h" "plain_root p" "p \<noteq> []" "\<forall>q. \<not> deny h q" "length (canon p) < ISR_PATH_MAX"
  defines "res \<equiv> isr_mkdir_recursive h (canon p)"
  shows "fst res = (if \<exists>q. strict_prefix q p \<and> is_file (node_at h q) then - 1 else 0) \<and>
    (\<forall>q. node_at (snd res) q =
      (if fst res = 0 \<and> prefix q p \<and> node_at h q = None then Some Dir else node_at h q))"
proof -
  have "file_above (node_at h) p \<longleftrightarrow> (\<exists>q. strict_prefix q p \<and> is_file (node_at h q))"
    by (auto simp: file_above_iff is_file_iff)
  with isr_mkdir_recursive_canon [OF assms(1-6)] obtain h' where
    "res = (if \<exists>q. strict_prefix q p \<and> is_file (node_at h q) then - 1 else 0, h')"
    "node_at h' = (if \<exists>q. strict_prefix q p \<and> is_file (node_at h q) then node_at h else with_dirs p (node_at h))"
    unfolding res_def by auto
  then show ?thesis
    by (cases "\<exists>q. strict_prefix q p \<and> is_file (node_at h q)") (simp_all add: with_dirs_def)
qed

theorem mkdir_recursive_exact_witness:
  "fst (isr_mkdir_recursive ex_host ''/srv/g/x'') = - 1 \<and> fst (isr_mkdir_recursive ex_host ''/srv/g'') = 0 \<and>
   node_at (snd (isr_mkdir_recursive ex_host ''/srv/g'')) [''srv'', ''g''] = Some (File [1]) \<and>
   node_at (snd (isr_mkdir_recursive ex_host ''/srv/a/b'')) [''srv'', ''a''] = Some Dir"
proof -
  have c: "canon [''srv'', ''g'', ''x''] = ''/srv/g/x''" "canon [''srv'', ''g''] = ''/srv/g''" "canon [''srv'', ''a'', ''b''] = ''/srv/a/b''"
    by (simp_all add: canon_def)
  have d: "\<forall>q. \<not> deny ex_host q" by (simp add: ex_host_def)
  have plain: "plain_root [''srv'', ''g'', ''x'']" "plain_root [''srv'', ''g'']" "plain_root [''srv'', ''a'', ''b'']"
    by (simp_all add: plain_root_def is_sep_def backslash_def)
  have up: "strict_prefix q [a, b] \<longleftrightarrow> q = [] \<or> q = [a]" "strict_prefix q [a, b, c] \<longleftrightarrow> q = [] \<or> q = [a] \<or> q = [a, b]"
    for q and a b c :: string
    by (auto simp: strict_prefix_def prefix_Cons)
  have files: "\<exists>q. strict_prefix q [''srv'', ''g'', ''x''] \<and> is_file (node_at ex_host q)"
    "\<nexists>q. strict_prefix q [''srv'', ''g''] \<and> is_file (node_at ex_host q)"
    "\<nexists>q. strict_prefix q [''srv'', ''a'', ''b''] \<and> is_file (node_at ex_host q)"
    unfolding up by (auto simp: ex_host_nodes)
  note exact = mkdir_recursive_exact [OF ex_host_ok(2,1) _ _ d]
  have "fst (isr_mkdir_recursive ex_host ''/srv/g/x'') = - 1"
    using exact [OF plain(1)] files(1) unfolding c by (simp add: ISR_PATH_MAX_def)
  moreover have "fst (isr_mkdir_recursive ex_host ''/srv/g'') = 0 \<and>
      node_at (snd (isr_mkdir_recursive ex_host ''/srv/g'')) [''srv'', ''g''] = Some (File [1])"
    using exact [OF plain(2)] files(2) unfolding c by (simp add: ISR_PATH_MAX_def ex_host_nodes)
  moreover have "node_at (snd (isr_mkdir_recursive ex_host ''/srv/a/b'')) [''srv'', ''a''] = Some Dir"
    using exact [OF plain(3)] files(3) unfolding c by (simp add: ISR_PATH_MAX_def ex_host_nodes)
  ultimately show ?thesis by blast
qed

end
