(* ===== verification/Store.thy ===== *)
theory Store
  imports Paths
begin

text \<open>
  The abstract server: a tree and a function from requests to answers and new trees. The server
  of the program refines it, one request at a time and over any sequence of requests.
\<close>

section \<open>The abstract store\<close>

type_synonym tree = "fpath \<Rightarrow> node option"

datatype request =
    Put fpath u8 u32 bytes
  | Make fpath
  | Get fpath u8 u32

datatype answer =
    Stored bool
  | Made
  | Refused string
  | Broken
  | Sent bool u32 bytes
  | Listed "string \<Rightarrow> node option"
  | Missing

definition put_file :: "fpath \<Rightarrow> bytes \<Rightarrow> tree \<Rightarrow> tree" where
  "put_file p data t = (with_dirs (butlast p) t)(p \<mapsto> File data)"

fun store_serve :: "fpath \<Rightarrow> request \<Rightarrow> tree \<Rightarrow> answer \<times> tree" where
  "store_serve rp (Put cs flags b data) t =
     (case t (rp @ cs) of
        Some Dir \<Rightarrow> (Refused ''Path is a directory'', t)
      | Some _ \<Rightarrow>
          if has_flag flags ISR_FLAG_OVERWRITE then (Stored True, put_file (rp @ cs) data t)
          else (Refused ''File exists, overwrite not set'', t)
      | None \<Rightarrow> if file_above t (rp @ cs) then (Broken, t) else (Stored False, put_file (rp @ cs) data t))"
| "store_serve rp (Make cs) t =
     (if file_above t (rp @ cs) then (Refused ''Failed to create directory'', t) else (Made, with_dirs (rp @ cs) t))"
| "store_serve rp (Get cs flags b) t =
     (case t (rp @ cs) of
        None \<Rightarrow> (Missing, t)
      | Some Dir \<Rightarrow> (Listed (\<lambda>n. t (rp @ cs @ [n])), t)
      | Some (File data) \<Rightarrow> (Sent (has_flag flags ISR_FLAG_USE_COMPRESSION) b data, t)
      | Some (Symlink _) \<Rightarrow> (Missing, t))"

section \<open>Requests and answers on the wire\<close>

fun path_of :: "request \<Rightarrow> fpath" where
  "path_of (Put cs flags b data) = cs" | "path_of (Make cs) = cs" | "path_of (Get cs flags b) = cs"

text \<open>Paths in bounds: plain components of at most 255 characters (\<open>NAME_MAX\<close>), and not too long in all.\<close>

definition named :: "fpath \<Rightarrow> bool" where
  "named p \<longleftrightarrow> plain_root p \<and> length (canon p) < ISR_PATH_MAX \<and> (\<forall>c \<in> set p. length c \<le> 255 \<and> NUL \<notin> set c)"

definition plain_path :: "fpath \<Rightarrow> fpath \<Rightarrow> bool" where
  "plain_path rp cs \<longleftrightarrow> plain_root cs \<and> cs \<noteq> [] \<and> length (canon (rp @ cs)) < ISR_PATH_MAX \<and>
     (\<forall>c \<in> set cs. length c \<le> 255 \<and> NUL \<notin> set c)"

fun options_ok :: "request \<Rightarrow> bool" where
  "options_ok (Put cs flags b data) \<longleftrightarrow> length data < 2 ^ 55 \<and> \<not> has_flag flags ISR_FLAG_CREATE_DIRECTORY \<and>
     (has_flag flags ISR_FLAG_USE_COMPRESSION \<longrightarrow> block_size_ok b)"
| "options_ok (Make cs) \<longleftrightarrow> True"
| "options_ok (Get cs flags b) \<longleftrightarrow> (has_flag flags ISR_FLAG_USE_COMPRESSION \<longrightarrow> block_size_ok b)"

fun asks :: "request \<Rightarrow> bytes \<Rightarrow> bool" where
  "asks (Put cs flags b data) w \<longleftrightarrow>
     (\<exists>pl. is_payload (has_flag flags ISR_FLAG_USE_COMPRESSION) b data pl \<and>
       w = send_request (rel_path cs) flags b (word_of_nat (length data)) @ pl)"
| "asks (Make cs) w \<longleftrightarrow> w = send_request (rel_path cs) ISR_FLAG_CREATE_DIRECTORY 0 0"
| "asks (Get cs flags b) w \<longleftrightarrow> w = recv_request (rel_path cs) flags b @ [ISR_RECV_GO]"

text \<open>
  A listing has one entry for each child, with its kind and the length of a file; the order and the
  size reported for a directory are free.
\<close>

definition lists_all :: "(string \<Rightarrow> node option) \<Rightarrow> raw_entry list \<Rightarrow> bool" where
  "lists_all children es \<longleftrightarrow> (\<exists>ns. distinct ns \<and> set ns = dom children \<and>
     list_all2 (\<lambda>n (t, sz, nm). nm = bytes_of n \<and> (case children n of
       Some (File data) \<Rightarrow> t = 0 \<and> sz = word_of_nat (length data) | Some Dir \<Rightarrow> t = 1 | _ \<Rightarrow> False)) ns es)"

definition listing_bytes :: "raw_entry list \<Rightarrow> bytes" where
  "listing_bytes es =
     enc_confirmation \<lparr>conf_type = ISR_RECV_TYPE_DIRECTORY, conf_length = word_of_nat (length (enc_listing es))\<rparr> @
     enc_listing es @ enc_u64 (isr_count_byte_values (enc_listing es))"

text \<open>A directory with so many entries that the server may run out of memory.\<close>

definition crowded :: "(string \<Rightarrow> node option) \<Rightarrow> bool" where
  "crowded children \<longleftrightarrow> 2 ^ 20 \<le> card (dom children)"

fun tells :: "answer \<Rightarrow> bytes \<Rightarrow> bytes \<Rightarrow> bool" where
  "tells (Stored existed) a z \<longleftrightarrow> z = a @ enc_response (isr_response_from_result
      (if existed then ISR_SEND_RESPONSE_OVERWRITING else ISR_SEND_RESPONSE_CREATING)) @
      enc_response (isr_response_from_result ISR_RESULT_OK)"
| "tells Made a z \<longleftrightarrow> z = a @ enc_response (isr_response_from_result ISR_RESULT_OK)"
| "tells (Refused msg) a z \<longleftrightarrow> z = a @ enc_response (isr_response_from_error msg)"
| "tells Broken a z \<longleftrightarrow> z = a @ enc_response (isr_response_from_result ISR_SEND_RESPONSE_CREATING)"
| "tells (Sent compressed b data) a z \<longleftrightarrow> (\<exists>pl. is_payload compressed b data pl \<and>
      z = a @ enc_confirmation \<lparr>conf_type = ISR_RECV_TYPE_FILE, conf_length = word_of_nat (length data)\<rparr> @ pl)"
| "tells Missing a z \<longleftrightarrow> z = a @ enc_confirmation \<lparr>conf_type = ISR_RECV_TYPE_NOT_FOUND, conf_length = 0\<rparr>"
| "tells (Listed children) a z \<longleftrightarrow>
     (\<exists>es. lists_all children es \<and> z = a @ listing_bytes es) \<or> crowded children \<and> z = a"

fun result_of :: "answer \<Rightarrow> int \<Rightarrow> bool" where
  "result_of (Refused msg) r \<longleftrightarrow> r = - 1"
| "result_of Broken r \<longleftrightarrow> r = - 1"
| "result_of (Listed children) r \<longleftrightarrow> r = 0 \<or> crowded children \<and> r = - 1"
| "result_of ans r \<longleftrightarrow> r = 0"

section \<open>A server in order\<close>

definition server_ok :: "fpath \<Rightarrow> host \<Rightarrow> bool" where
  "server_ok rp h \<longleftrightarrow> plain_root rp \<and> rp \<noteq> [] \<and> node_at h rp = Some Dir \<and> tree_ok h \<and> no_links h \<and>
     heap_ok h \<and> (\<forall>n < 2 ^ 31. malloc h n \<noteq> None) \<and> (\<forall>q. \<not> deny h q) \<and> rd_live h \<and> wr_live h \<and>
     (\<forall>q bs. node_at h q = Some (File bs) \<longrightarrow> length bs < 2 ^ 55) \<and> (\<forall>q. node_at h q \<noteq> None \<longrightarrow> named q)"

lemma length_canon_prefix: "prefix q p \<Longrightarrow> length (canon q) \<le> length (canon p)"
proof -
  have "length (canon q) \<le> length (canon (q @ c # r))" for c r
    by (cases "q = []") (simp_all add: canon_def)
  then show "prefix q p \<Longrightarrow> length (canon q) \<le> length (canon p)"
    by (metis append.right_neutral list.exhaust order_refl prefixE)
qed

lemma named_prefix: "named p \<Longrightarrow> prefix q p \<Longrightarrow> named q"
  using length_canon_prefix [of q p] plain_root_prefix [of p q] set_mono_prefix [of q p]
  by (auto simp: named_def)

lemma can_compress_ok:
  assumes "\<forall>n < 2 ^ 31. malloc h n \<noteq> None" "heap_ok h" "c \<longrightarrow> block_size_ok b"
  shows "can_compress c b h"
proof (cases c)
  case True
  with assms(3) have b: "block_size_ok b" by blast
  then have "unat b < 2 ^ 31" using nat_less_iff [of "uint b" "2 ^ 31"] by (simp add: block_size_ok_def)
  moreover have "nat (LZ4_compressBound (int (unat b))) < 2 ^ 31"
    using LZ4_compressBound_less [of "int (unat b)"] by simp
  ultimately show ?thesis
    using assms(1,2) b to_int_block_size [OF b] by (simp add: can_compress_def del: not_None_eq)
qed (simp add: can_compress_def)

lemma good_rel_path:
  assumes "plain_path rp cs" "rp \<noteq> []"
  shows "good_path (rel_path cs)"
proof -
  have cs: "cs \<noteq> []" and nul: "\<forall>c \<in> set cs. NUL \<notin> set c" using assms(1) by (simp_all add: plain_path_def)
  have "canon (rp @ cs) = canon rp @ CHR ''/'' # rel_path cs"
    using canon_append [OF assms(2), of cs] canon_rel [OF cs] canon_cons [OF cs] by simp
  then have "length (rel_path cs) < ISR_PATH_MAX" using assms(1) by (simp add: plain_path_def)
  moreover have "NUL \<notin> set (canon cs)" using nul canon_cons [OF cs] by auto
  ultimately show ?thesis using canon_rel [OF cs] by (simp add: good_path_def)
qed

lemma enough_path:
  assumes "server_ok rp h" "plain_path rp cs"
  shows "isr_validate_path (rel_path cs) = 0"
    "isr_resolve_path h (canon rp) (rel_path cs) ISR_PATH_MAX = Some (canon (rp @ cs))"
    "good_path (rel_path cs)" "plain_root (rp @ cs)" "rp @ cs \<noteq> []" "butlast (rp @ cs) \<noteq> []"
    "length (canon (rp @ cs)) < ISR_PATH_MAX"
  using assms valid_rel [of cs] resolve_rel [of h rp cs] good_rel_path [of rp cs]
  by (auto simp: server_ok_def plain_path_def butlast_append)

lemma server_ok_named:
  assumes "server_ok rp h" "plain_path rp cs"
  shows "named (rp @ cs)" "with_dirs (rp @ cs) (node_at h) q \<noteq> None \<Longrightarrow> named q"
proof -
  have "named rp" using assms(1) by (auto simp: server_ok_def)
  with assms(2) show named: "named (rp @ cs)" by (auto simp: named_def plain_path_def)
  have "node_at h q \<noteq> None \<Longrightarrow> named q" using assms(1) by (simp add: server_ok_def)
  then show "with_dirs (rp @ cs) (node_at h) q \<noteq> None \<Longrightarrow> named q"
    using named_prefix [OF named] by (auto simp: with_dirs_def split: if_splits)
qed

lemma server_ok_evolves:
  assumes "server_ok rp h" "evolves h h'" "deny h' = deny h" "rd_live h'" "wr_live h'"
    and "\<forall>q bs. node_at h' q = Some (File bs) \<longrightarrow> length bs < 2 ^ 55" "\<forall>q. node_at h' q \<noteq> None \<longrightarrow> named q"
  shows "server_ok rp h'"
  using assms evolves_keeps(1) [OF assms(2)] evolves_tree_ok [OF assms(2)] evolves_no_links [OF assms(2)]
  by (simp add: server_ok_def evolves_def heap_ok_def malloc_def)


section \<open>One request\<close>

lemma reply_error_live:
  assumes "tx_live s"
  shows "\<exists>s'. reply_error s h info msg = (- 1, s', h, info) \<and> tx s' = tx s @ enc_response (isr_response_from_error msg)"
proof -
  obtain s' where "net_send_exact s (enc_response (isr_response_from_error msg)) = (True, s')"
    "tx s' = tx s @ enc_response (isr_response_from_error msg)"
    using tcp.send_live [OF assms] by metis
  then show ?thesis by (simp add: reply_error_def isr_transmit_send_response_def)
qed

lemma same_env_put [simp]: "same_env h (put_node p nd h)"
  by (simp add: same_env_def)

lemma put_file_node:
  assumes "same_env h h1" "node_at h1 = with_dirs (butlast p) (node_at h)" "no_links h" "\<not> blocked (node_at h1) p"
    and "plain_root p" "p \<noteq> []" "\<forall>q. \<not> deny h q" "node_at h1 p \<noteq> Some Dir"
  shows "isr_open_write h1 (canon p) = (Some \<lparr>fd_path = p, fd_pos = 0\<rparr>, put_node p (File []) h1)"
proof -
  have links: "no_links h1"
    unfolding no_links_def assms(2) with_dirs_def using assms(3) by (auto simp: no_links_def)
  have deny: "\<not> deny h1 p" using assms(1,7) by (simp add: same_env_def)
  show ?thesis
  proof (cases "node_at h1 p")
    case None
    with deny assms(4) show ?thesis by (simp add: isr_open_write_def lookup_canon [OF links assms(5,6)])
  next
    case (Some nd)
    with links assms(8) obtain bs where "node_at h1 p = Some (File bs)"
      by (cases nd) (auto simp: no_links_def)
    with deny assms(4) show ?thesis by (simp add: isr_open_write_def lookup_canon [OF links assms(5,6)])
  qed
qed

lemma not_prefix_butlast: "p \<noteq> [] \<Longrightarrow> \<not> prefix p (butlast p)"
  using prefix_length_le [of p "butlast p"] by (cases p) auto

lemma not_blocked_parents:
  assumes "tree_ok h" "no_links h" "\<not> file_above (node_at h) p"
  shows "\<not> blocked (with_dirs (butlast p) (node_at h)) p"
proof -
  have "with_dirs (butlast p) (node_at h) q = Some Dir" if q: "strict_prefix q p" for q
  proof -
    obtain l b where p: "p = b @ [l]" using q by (cases p rule: rev_cases) auto
    with q have "prefix q b" by (auto simp: strict_prefix_def dest: prefix_length_le)
    moreover have "node_at h q = None \<or> node_at h q = Some Dir"
      using q assms(2,3) by (cases "node_at h q"; cases "the (node_at h q)") (auto simp: file_above_iff no_links_def)
    ultimately show ?thesis using p by (auto simp: with_dirs_def)
  qed
  then show ?thesis by (auto simp: blocked_def)
qed

text \<open>The upload of a file that is new, or that the client may overwrite.\<close>

lemma serve_put:
  assumes "server_ok rp h" "plain_path rp cs" "options_ok (Put cs flags b data)" "asks (Put cs flags b data) (pending s)"
    and "sock_ok s" "tx_live s" "\<not> file_above (node_at h) (rp @ cs)" "node_at h (rp @ cs) \<noteq> Some Dir"
    and "node_at h (rp @ cs) \<noteq> None \<Longrightarrow> has_flag flags ISR_FLAG_OVERWRITE"
  shows "\<exists>s' h' info'. isr_receive_command (canon rp) s h info = Some (0, s', h', info') \<and>
    node_at h' = put_file (rp @ cs) data (node_at h) \<and>
    tells (Stored (node_at h (rp @ cs) \<noteq> None)) (tx s) (tx s') \<and> server_ok rp h'"
proof -
  let ?p = "rp @ cs" and ?h1 = "made_parents h (canon (rp @ cs))"
  let ?f = "\<lparr>fd_path = rp @ cs, fd_pos = 0\<rparr>" and ?h2 = "put_node (rp @ cs) (File []) (made_parents h (canon (rp @ cs)))"
  note ok = assms(1) [unfolded server_ok_def]
  note path = enough_path [OF assms(1,2)]
  obtain pl where pl: "is_payload (has_flag flags ISR_FLAG_USE_COMPRESSION) b data pl"
    "pending s = send_request (rel_path cs) flags b (word_of_nat (length data)) @ pl @ []"
    using assms(4) by auto
  have h1: "same_env h ?h1" "node_at ?h1 = with_dirs (butlast ?p) (node_at h)"
    using made_parents_canon [of h ?p] ok path(4,6,7) assms(7) by auto
  have "\<not> prefix ?p (butlast ?p)" by (rule not_prefix_butlast [OF path(5)])
  then have "node_at ?h1 ?p \<noteq> Some Dir" using assms(8) by (simp add: h1(2) with_dirs_def)
  moreover have "\<not> blocked (node_at ?h1) ?p" unfolding h1(2) using not_blocked_parents ok assms(7) by blast
  ultimately have opened: "isr_open_write ?h1 (canon ?p) = (Some ?f, ?h2)"
    using put_file_node [OF h1 _ _ path(4,5)] ok by blast
  have stat: "isr_stat h (canon ?p) = (case node_at h ?p of
      Some (File bs) \<Rightarrow> Some (False, word_of_nat (length bs)) | Some Dir \<Rightarrow> Some (True, word_of_nat (dir_size h ?p)) | _ \<Rightarrow> None)"
    using isr_stat_canon [of h ?p] ok path(4,5) by blast
  have may: "may_write (isr_stat h (canon ?p)) flags" "answer_type (isr_stat h (canon ?p)) =
      (if node_at h ?p \<noteq> None then ISR_SEND_RESPONSE_OVERWRITING else ISR_SEND_RESPONSE_CREATING)"
    unfolding stat using assms(3,8,9) ok
    by (auto simp: may_write_def answer_type_def no_links_def split: option.split node.split)
  have wr: "wr_live ?h2" using h1(1) ok by (simp add: wr_live_def same_env_def)
  have comp: "can_compress (has_flag flags ISR_FLAG_USE_COMPRESSION) b ?h2"
    using can_compress_ok [of ?h2] h1(1) ok assms(3) by (simp add: same_env_def malloc_def heap_ok_def)
  have len: "length data < 2 ^ 55" using assms(3) by simp
  obtain s' h' info' where run: "isr_receive_command (canon rp) s h info = Some (0, s', h', info')"
    "node_at h' ?p = Some (File data)" "same_but ?p ?h2 h'" "wr_live h'"
    "tx s' = tx s @ enc_response (isr_response_from_result (answer_type (isr_stat h (canon ?p)))) @
      enc_response (isr_response_from_result ISR_RESULT_OK)"
    using server_upload [OF assms(5,6) path(3) pl(2,1) len path(1,2) may(1) opened wr comp, of info] by auto
  have node: "node_at h' = put_file ?p data (node_at h)"
  proof
    fix q
    show "node_at h' q = put_file ?p data (node_at h) q"
      using run(2,3) by (cases "q = ?p") (simp_all add: same_but_def put_file_def h1(2))
  qed
  have "server_ok rp h'"
  proof (rule server_ok_evolves [OF assms(1) evolves_request [OF run(1)]])
    show "heap_ok h" using ok by blast
    show "deny h' = deny h" "rd_live h'" using run(3) h1(1) ok by (simp_all add: same_but_def same_env_def rd_live_def)
    show "wr_live h'" by (rule run(4))
    show "\<forall>q bs. node_at h' q = Some (File bs) \<longrightarrow> length bs < 2 ^ 55"
      using ok len by (auto simp: node put_file_def with_dirs_def)
    have "with_dirs ?p (node_at h) q \<noteq> None" if "node_at h' q \<noteq> None" for q
      using that path(5) by (cases ?p rule: rev_cases) (auto simp: node put_file_def with_dirs_def split: if_splits)
    then show "\<forall>q. node_at h' q \<noteq> None \<longrightarrow> named q" using server_ok_named(2) [OF assms(1,2)] by blast
  qed
  with run node may(2) show ?thesis by auto
qed


text \<open>A \<open>SEND\<close> request that is turned down leaves the tree alone.\<close>

lemma serve_send_handler:
  assumes "server_ok rp h" "plain_path rp cs" "sock_ok s" "tx_live s"
    and "pending s = send_request (rel_path cs) flags b len @ rest"
  obtains s1 info1 where "isr_receive_command (canon rp) s h info = isr_receive_send_command (canon rp) s1 h
      \<lparr>sh_flags = flags, sh_path_length = word_of_nat (length (rel_path cs)), sh_block_size = b, sh_effective_length = len\<rparr>
      (rel_path cs) info1" "tx s1 = tx s" "tx_live s1"
  using receive_send_request [OF assms(3) enough_path(3) [OF assms(1,2)] assms(5)] assms(4) that by metis

lemma serve_put_refused:
  assumes "server_ok rp h" "plain_path rp cs" "options_ok (Put cs flags b data)" "asks (Put cs flags b data) (pending s)"
    and "sock_ok s" "tx_live s" "node_at h (rp @ cs) = Some Dir \<and> msg = ''Path is a directory'' \<or>
      is_file (node_at h (rp @ cs)) \<and> \<not> has_flag flags ISR_FLAG_OVERWRITE \<and> msg = ''File exists, overwrite not set''"
  shows "\<exists>s' info'. isr_receive_command (canon rp) s h info = Some (- 1, s', h, info') \<and> tells (Refused msg) (tx s) (tx s')"
proof -
  note ok = assms(1) [unfolded server_ok_def]
  note path = enough_path [OF assms(1,2)]
  obtain pl where pl: "pending s = send_request (rel_path cs) flags b (word_of_nat (length data)) @ pl"
    using assms(4) by auto
  obtain s1 info1 where s1: "isr_receive_command (canon rp) s h info = isr_receive_send_command (canon rp) s1 h
      \<lparr>sh_flags = flags, sh_path_length = word_of_nat (length (rel_path cs)), sh_block_size = b,
       sh_effective_length = word_of_nat (length data)\<rparr> (rel_path cs) info1" "tx s1 = tx s" "tx_live s1"
    by (rule serve_send_handler [OF assms(1,2,5,6) pl])
  obtain s2 where s2: "reply_error s1 h (info1\<lparr>ri_is_overwrite := True\<rparr>) msg =
      (- 1, s2, h, info1\<lparr>ri_is_overwrite := True\<rparr>)" "tx s2 = tx s1 @ enc_response (isr_response_from_error msg)"
    using reply_error_live [OF s1(3)] by blast
  have "isr_stat h (canon (rp @ cs)) \<noteq> None \<and> (case isr_stat h (canon (rp @ cs)) of Some (d, _) \<Rightarrow> d | None \<Rightarrow> False) =
      (node_at h (rp @ cs) = Some Dir)"
    using isr_stat_canon [of h "rp @ cs"] ok path(4,5) assms(7)
    by (auto simp: is_file_iff)
  with s1 s2 path(1,2) assms(3,7) show ?thesis
    by (auto simp: isr_receive_send_command_def Let_def is_file_iff simp del: not_None_eq)
qed

text \<open>A file where a parent directory should be: the server accepts, and then gives up.\<close>

lemma serve_put_broken:
  assumes "server_ok rp h" "plain_path rp cs" "options_ok (Put cs flags b data)" "asks (Put cs flags b data) (pending s)"
    and "sock_ok s" "tx_live s" "node_at h (rp @ cs) = None" "file_above (node_at h) (rp @ cs)"
  shows "\<exists>s' h' info'. isr_receive_command (canon rp) s h info = Some (- 1, s', h', info') \<and>
    node_at h' = node_at h \<and> same_env h h' \<and> tells Broken (tx s) (tx s')"
proof -
  let ?h1 = "made_parents h (canon (rp @ cs))"
  note ok = assms(1) [unfolded server_ok_def]
  note path = enough_path [OF assms(1,2)]
  obtain pl where pl: "pending s = send_request (rel_path cs) flags b (word_of_nat (length data)) @ pl"
    using assms(4) by auto
  obtain s1 info1 where s1: "isr_receive_command (canon rp) s h info = isr_receive_send_command (canon rp) s1 h
      \<lparr>sh_flags = flags, sh_path_length = word_of_nat (length (rel_path cs)), sh_block_size = b,
       sh_effective_length = word_of_nat (length data)\<rparr> (rel_path cs) info1" "tx s1 = tx s" "tx_live s1"
    by (rule serve_send_handler [OF assms(1,2,5,6) pl])
  obtain s2 where s2: "net_send_exact s1 (enc_response (isr_response_from_result ISR_SEND_RESPONSE_CREATING)) = (True, s2)"
    "tx s2 = tx s1 @ enc_response (isr_response_from_result ISR_SEND_RESPONSE_CREATING)"
    using tcp.send_live [OF s1(3)] by metis
  have h1: "same_env h ?h1" "node_at ?h1 = node_at h"
    using made_parents_canon [of h "rp @ cs"] ok path(4,6,7) assms(8) by auto
  have blocked: "blocked (node_at h) (rp @ cs)" using assms(8) by (auto simp: blocked_def file_above_iff)
  have links: "no_links ?h1" using ok h1(2) by (simp add: no_links_def)
  from blocked h1(2) have opened: "isr_open_write ?h1 (canon (rp @ cs)) = (None, ?h1)"
    by (simp add: isr_open_write_def lookup_canon [OF links path(4,5)])
  have stat: "isr_stat h (canon (rp @ cs)) = None"
    using isr_stat_canon [of h "rp @ cs"] ok path(4,5) assms(7) by auto
  have "isr_receive_command (canon rp) s h info = Some (- 1, s2, ?h1, info1\<lparr>ri_is_overwrite := False\<rparr>)"
    using s1(1) s2(1) path(1,2) assms(3) stat opened
    by (simp add: isr_receive_send_command_def Let_def isr_transmit_send_response_def made_parents_def)
  with h1 s1(2) s2(2) show ?thesis by auto
qed

text \<open>A directory is made, or a file is in the way.\<close>

lemma serve_make:
  assumes "server_ok rp h" "plain_path rp cs" "asks (Make cs) (pending s)" "sock_ok s" "tx_live s"
  shows "\<exists>r s' h' info' ans. isr_receive_command (canon rp) s h info = Some (r, s', h', info') \<and>
    store_serve rp (Make cs) (node_at h) = (ans, node_at h') \<and> same_env h h' \<and> tells ans (tx s) (tx s') \<and> result_of ans r"
proof -
  note ok = assms(1) [unfolded server_ok_def]
  note path = enough_path [OF assms(1,2)]
  have req: "pending s = send_request (rel_path cs) ISR_FLAG_CREATE_DIRECTORY 0 0 @ []" using assms(3) by simp
  obtain s1 info1 where s1: "isr_receive_command (canon rp) s h info = isr_receive_send_command (canon rp) s1 h
      \<lparr>sh_flags = ISR_FLAG_CREATE_DIRECTORY, sh_path_length = word_of_nat (length (rel_path cs)), sh_block_size = 0,
       sh_effective_length = 0\<rparr> (rel_path cs) info1" "tx s1 = tx s" "tx_live s1"
    by (rule serve_send_handler [OF assms(1,2,4,5) req])
  have flag: "has_flag ISR_FLAG_CREATE_DIRECTORY ISR_FLAG_CREATE_DIRECTORY"
    by (simp add: has_flag_def ISR_FLAG_CREATE_DIRECTORY_def)
  obtain h1 where h1: "isr_mkdir_recursive h (canon (rp @ cs)) = (if file_above (node_at h) (rp @ cs) then - 1 else 0, h1)"
    "same_env h h1"
    "node_at h1 = (if file_above (node_at h) (rp @ cs) then node_at h else with_dirs (rp @ cs) (node_at h))"
    using isr_mkdir_recursive_canon [of h "rp @ cs"] ok path(4,5,7) by auto
  show ?thesis
  proof (cases "file_above (node_at h) (rp @ cs)")
    case True
    obtain s2 where "reply_error s1 h1 info1 ''Failed to create directory'' = (- 1, s2, h1, info1)"
      "tx s2 = tx s1 @ enc_response (isr_response_from_error ''Failed to create directory'')"
      using reply_error_live [OF s1(3)] by blast
    with True h1 s1 path(1,2) flag show ?thesis by (simp add: isr_receive_send_command_def)
  next
    case False
    obtain s2 where "net_send_exact s1 (enc_response (isr_response_from_result ISR_RESULT_OK)) = (True, s2)"
      "tx s2 = tx s1 @ enc_response (isr_response_from_result ISR_RESULT_OK)"
      using tcp.send_live [OF s1(3)] by metis
    with False h1 s1 path(1,2) flag show ?thesis
      by (simp add: isr_receive_send_command_def isr_transmit_send_response_def)
  qed
qed


text \<open>The listing of a directory, in the order of \<open>readdir\<close>.\<close>

definition listing :: "host \<Rightarrow> fpath \<Rightarrow> raw_entry list" where
  "listing h p = map raw (served h (canon p) (''.'' # ''..'' # dir_entries h p))"

lemma opendir_canon:
  assumes "no_links h" "tree_ok h" "plain_root p" "p \<noteq> []" "node_at h p = Some Dir" "\<not> deny h p"
  shows "opendir h (canon p) = Some (''.'' # ''..'' # dir_entries h p)"
  using assms lookup_canon [of h p True] tree_ok_not_blocked [of h p] by (simp add: opendir_def)

lemma listing_entries:
  assumes "\<forall>q. node_at h q \<noteq> None \<longrightarrow> named q"
  shows "listing h p = map (\<lambda>n. raw (served_entry h (canon p) n)) (dir_entries h p)"
proof -
  have "d \<noteq> ''.'' \<and> d \<noteq> ''..''" if "d \<in> set (dir_entries h p)" for d
    using that assms by (auto simp: dir_entries_iff named_def plain_root_def)
  then have "filter (\<lambda>d. d \<noteq> ''.'' \<and> d \<noteq> ''..'') (dir_entries h p) = dir_entries h p" by simp
  then show ?thesis by (simp add: listing_def served_def)
qed

lemma served_entry_canon:
  assumes "no_links h" "tree_ok h" "p \<noteq> []" "named (p @ [n])"
  shows "raw (served_entry h (canon p) n) = (case node_at h (p @ [n]) of
      Some (File data) \<Rightarrow> (0, word_of_nat (length data), bytes_of n)
    | Some Dir \<Rightarrow> (1, word_of_nat (dir_size h (p @ [n])), bytes_of n) | _ \<Rightarrow> (0, 0, bytes_of n))"
proof -
  have "length (canon (p @ [n])) \<le> ISR_PATH_MAX - 1" and n: "length n \<le> 255" and plain: "plain_root (p @ [n])"
    using assms(4) by (auto simp: named_def)
  then have "copy_n ISR_PATH_MAX (join_path (canon p) n) = canon (p @ [n])"
    by (simp add: copy_n_def join_path_def canon_snoc [OF assms(3)])
  with n isr_stat_canon [OF assms(1,2) plain] show ?thesis
    by (simp add: served_entry_def raw_def copy_n_def split: option.split node.split)
qed

lemma listing_lists_all:
  assumes "no_links h" "tree_ok h" "p \<noteq> []" "\<forall>q. node_at h q \<noteq> None \<longrightarrow> named q"
  shows "lists_all (\<lambda>n. node_at h (p @ [n])) (listing h p)"
  unfolding lists_all_def
proof (intro exI conjI)
  show "distinct (dir_entries h p)" by (rule distinct_dir_entries)
  show "set (dir_entries h p) = dom (\<lambda>n. node_at h (p @ [n]))" by (auto simp: dir_entries_iff)
  have entry: "case raw (served_entry h (canon p) n) of (t, sz, nm) \<Rightarrow> nm = bytes_of n \<and> (case node_at h (p @ [n]) of
       Some (File data) \<Rightarrow> t = 0 \<and> sz = word_of_nat (length data) | Some Dir \<Rightarrow> t = 1 | _ \<Rightarrow> False)"
    if n: "n \<in> set (dir_entries h p)" for n
  proof -
    obtain nd where nd: "node_at h (p @ [n]) = Some nd" using n unfolding dir_entries_iff by blast
    with assms(4) have "named (p @ [n])" by blast
    note shown = served_entry_canon [OF assms(1-3) this, unfolded nd]
    have "nd \<noteq> Symlink t" for t using assms(1) nd by (auto simp: no_links_def)
    then show ?thesis unfolding shown nd by (cases nd) auto
  qed
  show "list_all2 (\<lambda>n (t, sz, nm). nm = bytes_of n \<and> (case node_at h (p @ [n]) of
       Some (File data) \<Rightarrow> t = 0 \<and> sz = word_of_nat (length data) | Some Dir \<Rightarrow> t = 1 | _ \<Rightarrow> False))
       (dir_entries h p) (listing h p)"
    unfolding listing_entries [OF assms(4)] list_all2_map2 list_all2_same
    by (rule ballI) (rule entry)
qed

lemma card_children: "card (dom (\<lambda>n. node_at h (p @ [n]))) = length (dir_entries h p)"
proof -
  have "dom (\<lambda>n. node_at h (p @ [n])) = set (dir_entries h p)" by (auto simp: dir_entries_iff)
  then show ?thesis using distinct_card [OF distinct_dir_entries] by metis
qed

lemma serve_listing:
  assumes "server_ok rp h" "plain_path rp cs" "asks (Get cs flags b) (pending s)" "sock_ok s" "tx_live s"
    and "node_at h (rp @ cs) = Some Dir"
  shows "\<exists>r s' info'. isr_receive_command (canon rp) s h info = Some (r, s', h, info') \<and>
    (r = 0 \<and> tx s' = tx s @ listing_bytes (listing h (rp @ cs)) \<or>
     r = - 1 \<and> tx s' = tx s \<and> 2 ^ 20 \<le> length (dir_entries h (rp @ cs)))"
proof -
  let ?p = "rp @ cs"
  let ?dir = "''.'' # ''..'' # dir_entries h ?p"
  note ok = assms(1) [unfolded server_ok_def]
  note path = enough_path [OF assms(1,2)]
  have req: "pending s = recv_request (rel_path cs) flags b @ ISR_RECV_GO # []" using assms(3) by simp
  obtain s1 where s1: "isr_receive_command (canon rp) s h info = isr_receive_recv_command (canon rp) s1 h
      \<lparr>rh_flags = flags, rh_path_length = word_of_nat (length (rel_path cs)), rh_block_size = b\<rparr>
      (rel_path cs) (recv_info info (rel_path cs) flags)" "pending s1 = ISR_RECV_GO # []" "sock_ok s1" "tx s1 = tx s" "tx_live s1"
    using receive_recv_request [OF assms(4) path(3) req] assms(5) by metis
  have stat: "isr_stat h (canon ?p) = Some (True, word_of_nat (dir_size h ?p))"
    using isr_stat_canon [of h ?p] ok path(4,5) assms(6) by simp
  have dir: "opendir h (canon ?p) = Some ?dir"
    using opendir_canon [of h ?p] ok path(4,5) assms(6) by blast
  have small: "malloc h (256 * sizeof_entry_t) \<noteq> None"
    using ok by (simp add: sizeof_entry_t_def del: not_None_eq)
  have go: "ISR_RECV_GO \<noteq> ISR_RECV_UNABLE" by (simp add: isr_consts)
  have "\<exists>r s'. isr_transmit_recv_directory_listing s1 h (canon ?p) = (r, s') \<and>
    (r = 0 \<and> tx s' = tx s @ listing_bytes (listing h ?p) \<or> r = - 1 \<and> tx s' = tx s \<and> 2 ^ 20 \<le> length (dir_entries h ?p))"
  proof (cases "collect_entries h (canon ?p) ?dir [] 256 0 = None")
    case True
    have "\<not> length (dir_entries h ?p) < 2 ^ 20"
    proof
      assume few: "length (dir_entries h ?p) < 2 ^ 20"
      have "\<forall>n \<le> 2 * sizeof_entry_t * (length ([] :: entry_t list) + length ?dir). malloc h n \<noteq> None"
        using few ok by (auto simp: sizeof_entry_t_def simp del: not_None_eq)
      from collect_entries_served [OF this, of "canon ?p" 256 0] True show False by simp
    qed
    with True dir small s1(4) show ?thesis by (simp add: isr_transmit_recv_directory_listing_def del: collect_entries.simps)
  next
    case False
    from transmit_listing_collected [OF s1(5,3,2) dir small False] go s1(4) show ?thesis
      by (auto simp: listing_def listing_bytes_def)
  qed
  then obtain r s' where "isr_transmit_recv_directory_listing s1 h (canon ?p) = (r, s')"
    "r = 0 \<and> tx s' = tx s @ listing_bytes (listing h ?p) \<or> r = - 1 \<and> tx s' = tx s \<and> 2 ^ 20 \<le> length (dir_entries h ?p)"
    by blast
  with s1(1) path(1,2) stat show ?thesis by (simp add: isr_receive_recv_command_def)
qed

text \<open>A \<open>RECV\<close> request.\<close>

lemma serve_get:
  assumes "server_ok rp h" "plain_path rp cs" "options_ok (Get cs flags b)" "asks (Get cs flags b) (pending s)"
    and "sock_ok s" "tx_live s"
  shows "\<exists>r s' h' info' ans. isr_receive_command (canon rp) s h info = Some (r, s', h', info') \<and>
    store_serve rp (Get cs flags b) (node_at h) = (ans, node_at h') \<and> rd_only h h' \<and> rd_live h' \<and>
    tells ans (tx s) (tx s') \<and> result_of ans r"
proof -
  note ok = assms(1) [unfolded server_ok_def]
  note path = enough_path [OF assms(1,2)]
  have req: "pending s = recv_request (rel_path cs) flags b @ ISR_RECV_GO # []" using assms(4) by simp
  have stat: "isr_stat h (canon (rp @ cs)) = (case node_at h (rp @ cs) of
      Some (File bs) \<Rightarrow> Some (False, word_of_nat (length bs)) | Some Dir \<Rightarrow> Some (True, word_of_nat (dir_size h (rp @ cs))) | _ \<Rightarrow> None)"
    using isr_stat_canon [of h "rp @ cs"] ok path(4,5) by blast
  obtain s1 where s1: "isr_receive_command (canon rp) s h info = isr_receive_recv_command (canon rp) s1 h
      \<lparr>rh_flags = flags, rh_path_length = word_of_nat (length (rel_path cs)), rh_block_size = b\<rparr>
      (rel_path cs) (recv_info info (rel_path cs) flags)" "tx s1 = tx s" "tx_live s1"
    using receive_recv_request [OF assms(5) path(3) req] assms(6) by metis
  consider (missing) "node_at h (rp @ cs) = None" | (listed) "node_at h (rp @ cs) = Some Dir"
    | (found) data where "node_at h (rp @ cs) = Some (File data)"
    using ok by (cases "node_at h (rp @ cs)"; cases "the (node_at h (rp @ cs))") (auto simp: no_links_def)
  then show ?thesis
  proof cases
    case missing
    obtain s2 where "net_send_exact s1 (enc_confirmation \<lparr>conf_type = ISR_RECV_TYPE_NOT_FOUND, conf_length = 0\<rparr>) = (True, s2)"
      "tx s2 = tx s1 @ enc_confirmation \<lparr>conf_type = ISR_RECV_TYPE_NOT_FOUND, conf_length = 0\<rparr>"
      using tcp.send_live [OF s1(3)] by metis
    with missing s1 path(1,2) stat ok show ?thesis
      by (simp add: isr_receive_recv_command_def isr_send_recv_confirmation_def)
  next
    case listed
    let ?ch = "\<lambda>n. node_at h (rp @ cs @ [n])"
    obtain r s' info' where run: "isr_receive_command (canon rp) s h info = Some (r, s', h, info')"
      "r = 0 \<and> tx s' = tx s @ listing_bytes (listing h (rp @ cs)) \<or>
       r = - 1 \<and> tx s' = tx s \<and> 2 ^ 20 \<le> length (dir_entries h (rp @ cs))"
      using serve_listing [OF assms(1,2,4-6) listed] by blast
    have "lists_all ?ch (listing h (rp @ cs))" "card (dom ?ch) = length (dir_entries h (rp @ cs))"
      using listing_lists_all [of h "rp @ cs"] card_children [of h "rp @ cs"] ok path(5) by simp_all
    with run(2) have "tells (Listed ?ch) (tx s) (tx s')" "result_of (Listed ?ch) r"
      by (auto simp: crowded_def)
    moreover have "store_serve rp (Get cs flags b) (node_at h) = (Listed ?ch, node_at h)" using listed by simp
    moreover have "rd_only h h" "rd_live h" using ok by (auto simp: rd_only_def intro: exI [of _ "rd_sched h"])
    ultimately show ?thesis using run(1) by blast
  next
    case found
    have lk: "lookup h (canon (rp @ cs)) True = Found (rp @ cs)"
      using found ok tree_ok_not_blocked [of h "rp @ cs"] lookup_canon [of h "rp @ cs" True] path(4,5) by simp
    have comp: "can_compress (has_flag flags ISR_FLAG_USE_COMPRESSION) b h"
      using can_compress_ok [of h] ok assms(3) by simp
    have go: "ISR_RECV_GO \<noteq> ISR_RECV_UNABLE" by (simp add: isr_consts)
    have small: "length data < 2 ^ 55" using ok found by blast
    have "\<not> deny h (rp @ cs)" "rd_live h" using ok by blast+
    from server_download [OF assms(5,6) path(3) req go path(1,2) lk found this comp small, of info] found
    show ?thesis
      using rd_only_node_at by (fastforce simp del: node_at_other)
  qed
qed

section \<open>The refinement\<close>

lemma put_cases:
  assumes "server_ok rp h" "p = rp @ cs"
  obtains (refused) msg where "node_at h p = Some Dir \<and> msg = ''Path is a directory'' \<or>
        is_file (node_at h p) \<and> \<not> has_flag flags ISR_FLAG_OVERWRITE \<and> msg = ''File exists, overwrite not set''"
      "store_serve rp (Put cs flags b data) (node_at h) = (Refused msg, node_at h)"
  | (broken) "node_at h p = None" "file_above (node_at h) p"
  | (stored) "\<not> file_above (node_at h) p" "node_at h p \<noteq> Some Dir" "node_at h p \<noteq> None \<Longrightarrow> has_flag flags ISR_FLAG_OVERWRITE"
      "store_serve rp (Put cs flags b data) (node_at h) = (Stored (node_at h p \<noteq> None), put_file p data (node_at h))"
proof (cases "node_at h p")
  case None
  with broken stored assms(2) show ?thesis by (cases "file_above (node_at h) p") auto
next
  case (Some nd)
  have tree: "tree_ok h" "no_links h" using assms by (simp_all add: server_ok_def)
  have "\<not> file_above (node_at h) p"
  proof
    assume "file_above (node_at h) p"
    then obtain q bs where q: "strict_prefix q p" "node_at h q = Some (File bs)" by (auto simp: file_above_iff)
    with tree_ok_parents [OF tree(1) _ q(1)] Some show False by simp
  qed
  with refused stored Some tree(2) assms(2) show ?thesis
    by (cases nd; cases "has_flag flags ISR_FLAG_OVERWRITE") (auto simp: no_links_def)
qed

lemma with_dirs_File: "with_dirs p t q = Some (File bs) \<Longrightarrow> t q = Some (File bs)"
  by (simp add: with_dirs_def split: if_splits)

lemma server_ok_quiet:
  assumes "server_ok rp h" "isr_receive_command (canon rp) s h info = Some (r, s', h', info')"
    and "same_env h h' \<or> rd_only h h' \<and> rd_live h'" "\<And>q bs. node_at h' q = Some (File bs) \<Longrightarrow> node_at h q = Some (File bs)"
    and "\<And>q. node_at h' q \<noteq> None \<Longrightarrow> named q"
  shows "server_ok rp h'"
proof -
  note ok = assms(1) [unfolded server_ok_def]
  have "deny h' = deny h" "rd_live h'" "wr_live h'"
    using assms(3) ok unfolding rd_only_def by (auto simp: same_env_def rd_live_def wr_live_def; metis host.simps host.surjective)+
  with server_ok_evolves [OF assms(1) evolves_request [OF assms(2)]] ok assms(4,5) show ?thesis by blast
qed

lemma serve_request:
  assumes "server_ok rp h" "plain_path rp (path_of req)" "options_ok req" "asks req (pending s)" "sock_ok s" "tx_live s"
  shows "\<exists>r s' h' info' ans. isr_receive_command (canon rp) s h info = Some (r, s', h', info') \<and>
    store_serve rp req (node_at h) = (ans, node_at h') \<and> tells ans (tx s) (tx s') \<and> result_of ans r \<and> server_ok rp h'"
proof (cases req)
  case (Put cs flags b data)
  note put = assms(1) assms(2-4) [unfolded Put path_of.simps] assms(5,6)
  show ?thesis
  proof (rule put_cases [OF assms(1) refl, of cs flags b data], goal_cases refused broken stored)
    case (refused msg)
    from serve_put_refused [OF put refused(1), of info] refused(2) assms(1) Put show ?thesis by fastforce
  next
    case broken
    from serve_put_broken [OF put broken, of info] obtain s' h' info' where
      run: "isr_receive_command (canon rp) s h info = Some (- 1, s', h', info')" "node_at h' = node_at h" "same_env h h'"
      "tells Broken (tx s) (tx s')" by blast
    have "server_ok rp h'"
      by (rule server_ok_quiet [OF assms(1) run(1)]) (use assms(1) run(2,3) in \<open>auto simp: server_ok_def\<close>)
    moreover have "store_serve rp req (node_at h) = (Broken, node_at h')" using Put broken run(2) by simp
    ultimately show ?thesis using run(1,4) result_of.simps(2) by blast
  next
    case stored
    from serve_put [OF put stored(1-3), of info] obtain s' h' info' where
      run: "isr_receive_command (canon rp) s h info = Some (0, s', h', info')" "node_at h' = put_file (rp @ cs) data (node_at h)"
      "tells (Stored (node_at h (rp @ cs) \<noteq> None)) (tx s) (tx s')" "server_ok rp h'" by blast
    moreover have "store_serve rp req (node_at h) = (Stored (node_at h (rp @ cs) \<noteq> None), node_at h')"
      using Put stored(4) run(2) by simp
    moreover have "result_of (Stored x) 0" for x by simp
    ultimately show ?thesis by blast
  qed
next
  case (Make cs)
  from serve_make [OF assms(1) assms(2,4) [unfolded Make path_of.simps] assms(5,6), of info] obtain r s' h' info' ans where
    run: "isr_receive_command (canon rp) s h info = Some (r, s', h', info')"
    "store_serve rp (Make cs) (node_at h) = (ans, node_at h')" "same_env h h'" "tells ans (tx s) (tx s')" "result_of ans r"
    by blast
  have "server_ok rp h'"
    by (rule server_ok_quiet [OF assms(1) run(1)])
      (use run(2,3) with_dirs_File [of "rp @ cs" "node_at h"] server_ok_named(2) [OF assms(1) assms(2) [unfolded Make path_of.simps]]
        assms(1) in \<open>auto simp: server_ok_def split: if_splits\<close>)
  with run Make show ?thesis by blast
next
  case (Get cs flags b)
  from serve_get [OF assms(1) assms(2-4) [unfolded Get path_of.simps] assms(5,6), of info] obtain r s' h' info' ans where
    run: "isr_receive_command (canon rp) s h info = Some (r, s', h', info')"
    "store_serve rp (Get cs flags b) (node_at h) = (ans, node_at h')" "rd_only h h'" "rd_live h'"
    "tells ans (tx s) (tx s')" "result_of ans r"
    by blast
  have "server_ok rp h'"
    by (rule server_ok_quiet [OF assms(1) run(1)]) (use assms(1) run(3,4) rd_only_node_at in \<open>auto simp: server_ok_def\<close>)
  with run Get show ?thesis by blast
qed


section \<open>Any sequence of requests\<close>

fun serve_all :: "fpath \<Rightarrow> request list \<Rightarrow> tree \<Rightarrow> answer list \<times> tree" where
  "serve_all rp [] t = ([], t)"
| "serve_all rp (req # reqs) t =
     (case store_serve rp req t of (ans, t1) \<Rightarrow> case serve_all rp reqs t1 of (anss, t2) \<Rightarrow> (ans # anss, t2))"

definition client_asks :: "fpath \<Rightarrow> request \<Rightarrow> sock option \<times> string \<Rightarrow> bool" where
  "client_asks rp req c \<longleftrightarrow> plain_path rp (path_of req) \<and> options_ok req \<and>
     (\<exists>s. fst c = Some s \<and> sock_ok s \<and> tx_live s \<and> tx s = [] \<and> asks req (pending s))"

lemma server_ok_say [simp]: "server_ok rp (say line h) \<longleftrightarrow> server_ok rp h"
  by (simp add: server_ok_def host_invariants) (simp add: say_def)

lemma serve_requests:
  assumes "server_ok rp h" "list_all2 (client_asks rp) reqs cs"
  shows "\<exists>h' ss anss. accept_loop (canon rp) cs h d = Some (h', d @ ss) \<and>
    serve_all rp reqs (node_at h) = (anss, node_at h') \<and> list_all2 (\<lambda>ans s. tells ans [] (tx s)) anss ss \<and> server_ok rp h'"
  using assms(2,1)
proof (induction reqs cs arbitrary: h d rule: list_all2_induct)
  case (Cons req reqs c cs)
  obtain s peer where c: "c = (Some s, peer)" "plain_path rp (path_of req)" "options_ok req" "asks req (pending s)"
    "sock_ok s" "tx_live s" "tx s = []"
    using Cons.hyps(1) by (cases c) (auto simp: client_asks_def)
  obtain r s1 h1 info ans where run: "isr_receive_command (canon rp) s h info0 = Some (r, s1, h1, info)"
    "store_serve rp req (node_at h) = (ans, node_at h1)" "tells ans [] (tx s1)" "server_ok rp h1"
    using serve_request [OF Cons.prems c(2-6), of info0] c(7) by auto
  obtain line where line: "log_request peer info r h1 = say line h1" using log_request_say by blast
  have "server_ok rp (say line h1)" using run(4) by simp
  from Cons.IH [OF this, of "d @ [s1]"] obtain h' ss anss where
    "accept_loop (canon rp) cs (say line h1) (d @ [s1]) = Some (h', (d @ [s1]) @ ss)"
    "serve_all rp reqs (node_at h1) = (anss, node_at h')" "list_all2 (\<lambda>ans s. tells ans [] (tx s)) anss ss" "server_ok rp h'"
    by auto
  with run c(1) line show ?case
    by (intro exI [of _ h'] exI [of _ "s1 # ss"] exI [of _ "ans # anss"]) simp
qed simp

section \<open>Properties\<close>

text \<open>
  C1. The server refines the abstract store: with clients that send well-formed requests for plain
  paths, in any order and number, the tree it leaves is the one the abstract server computes, and
  every client gets its answer: every byte of it is fixed, but for the order of a listing, the sizes
  it gives for directories, and the blocks a compressed file is sent in. Only the listing of a
  directory with \<open>2 ^ 20\<close> entries or more may fail, for want of memory, and then nothing is sent.
\<close>

theorem serve_refines_store:
  assumes "server_ok rp h" "list_all2 (client_asks rp) reqs cs"
  shows "\<exists>h' ss anss. accept_loop (canon rp) cs h [] = Some (h', ss) \<and>
    serve_all rp reqs (node_at h) = (anss, node_at h') \<and> list_all2 (\<lambda>ans s. tells ans [] (tx s)) anss ss"
  using serve_requests [OF assms, of "[]"] by auto

lemma ex_server_ok: "server_ok [''srv''] ex_host"
proof -
  have "named q" if "node_at ex_host q \<noteq> None" for q
    using that
    by (auto simp: ex_host_nodes named_def plain_root_def is_sep_def backslash_def canon_def ISR_PATH_MAX_def split: if_splits)
  moreover have "\<forall>n < 2 ^ 31. malloc ex_host n \<noteq> None" by (simp add: ex_host_def host0_def malloc_def)
  moreover have "\<not> deny ex_host q" for q by (simp add: ex_host_def)
  ultimately show ?thesis using ex_host_ok ex_root by (auto simp: server_ok_def ex_host_nodes)
qed

theorem serve_refines_store_witness:
  "\<exists>h' s1 s2 s3. accept_loop ''/srv'' [(Some (sock0 (send_request ''d/f'' 0 0 1 @ [7] @ enc_u64 7)), ''a''),
       (Some (sock0 (send_request ''g/x'' 0 0 1 @ [7] @ enc_u64 7)), ''b''),
       (Some (sock0 (recv_request ''d/f'' 0 0 @ [ISR_RECV_GO])), ''c'')] ex_host [] = Some (h', [s1, s2, s3]) \<and>
     node_at h' [''srv'', ''d''] = Some Dir \<and> node_at h' [''srv'', ''d'', ''f''] = Some (File [7]) \<and>
     node_at h' [''srv'', ''g''] = Some (File [1]) \<and>
     tx s2 = enc_response (isr_response_from_result ISR_SEND_RESPONSE_CREATING) \<and>
     tx s3 = enc_confirmation \<lparr>conf_type = ISR_RECV_TYPE_FILE, conf_length = 1\<rparr> @ [7] @ enc_u64 7"
proof -
  let ?reqs = "[Put [''d'', ''f''] 0 0 [7], Put [''g'', ''x''] 0 0 [7], Get [''d'', ''f''] 0 0]"
  have rel: "rel_path [''d'', ''f''] = ''d/f''" "rel_path [''g'', ''x''] = ''g/x''" by (simp_all add: rel_path_def canon_def)
  have plain: "plain_path [''srv''] [''d'', ''f'']" "plain_path [''srv''] [''g'', ''x'']"
    by (simp_all add: plain_path_def plain_root_def is_sep_def backslash_def canon_def ISR_PATH_MAX_def)
  have flags: "\<not> has_flag 0 x" for x by (simp add: has_flag_def)
  have "list_all2 (client_asks [''srv'']) ?reqs [(Some (sock0 (send_request ''d/f'' 0 0 1 @ [7] @ enc_u64 7)), ''a''),
       (Some (sock0 (send_request ''g/x'' 0 0 1 @ [7] @ enc_u64 7)), ''b''),
       (Some (sock0 (recv_request ''d/f'' 0 0 @ [ISR_RECV_GO])), ''c'')]"
    using plain by (simp add: client_asks_def rel flags is_payload_def)
  from serve_refines_store [OF ex_server_ok this, unfolded ex_root(1)] obtain h' ss anss where
    run: "accept_loop ''/srv'' [(Some (sock0 (send_request ''d/f'' 0 0 1 @ [7] @ enc_u64 7)), ''a''),
       (Some (sock0 (send_request ''g/x'' 0 0 1 @ [7] @ enc_u64 7)), ''b''),
       (Some (sock0 (recv_request ''d/f'' 0 0 @ [ISR_RECV_GO])), ''c'')] ex_host [] = Some (h', ss)"
    and spec: "serve_all [''srv''] ?reqs (node_at ex_host) = (anss, node_at h')"
    and told: "list_all2 (\<lambda>ans s. tells ans [] (tx s)) anss ss"
    by blast
  let ?t = "put_file [''srv'', ''d'', ''f''] [7] (node_at ex_host)"
  have "serve_all [''srv''] ?reqs (node_at ex_host) = ([Stored False, Broken, Sent False 0 [7]], ?t)"
    by (simp add: ex_host_nodes put_file_def with_dirs_def file_above_def flags)
  with spec have anss: "anss = [Stored False, Broken, Sent False 0 [7]]" and t: "node_at h' = ?t" by simp_all
  obtain s1 s2 s3 where ss: "ss = [s1, s2, s3]" "tells Broken [] (tx s2)" "tells (Sent False 0 [7]) [] (tx s3)"
    using told unfolding anss by (auto simp: list_all2_Cons1 simp del: tells.simps)
  have "node_at h' [''srv'', ''d''] = Some Dir \<and> node_at h' [''srv'', ''d'', ''f''] = Some (File [7]) \<and>
      node_at h' [''srv'', ''g''] = Some (File [1])"
    unfolding t by (simp add: put_file_def with_dirs_def ex_host_nodes)
  with run ss show ?thesis by (simp add: is_payload_def del: accept_loop.simps)
qed

end
