(* ===== verification/Dialogue.thy ===== *)
theory Dialogue
  imports Store
begin

text \<open>
  Client and server together: what the client of \<open>isr-cli.c\<close> sends is what the handlers of
  \<open>isr.c\<close> expect, and back, so that an upload stores the local file on the server and a download
  stores the file of the server locally. The two sides run on their own hosts and meet in the
  bytes on the wire only.
\<close>

section \<open>Upload\<close>

definition upload_answer :: "bool \<Rightarrow> bytes" where
  "upload_answer existed = enc_response (isr_response_from_result
     (if existed then ISR_SEND_RESPONSE_OVERWRITING else ISR_SEND_RESPONSE_CREATING)) @
   enc_response (isr_response_from_result ISR_RESULT_OK)"

lemma length_rel_path:
  assumes "server_ok rp h" "plain_path rp cs"
  shows "length (rel_path cs) < 65536"
  using enough_path(3) [OF assms] by (simp add: good_path_def ISR_PATH_MAX_def)

text \<open>
  C4. An upload from end to end. The client of \<open>isr send\<close>, given the answer of a server that can
  store the file, succeeds and sends bytes on which that server gives this very answer, and stores
  the file of the client under the path requested, with its parent directories and nothing else.
\<close>

theorem upload_end_to_end:
  assumes "lookup (the_host w) local True = Found p" "node_at (the_host w) p = Some (File data)"
    "\<not> deny (the_host w) p" "rd_live (the_host w)" "length data < 2 ^ 55"
    "can_compress (has_flag flags ISR_FLAG_USE_COMPRESSION) b (the_host w)"
    and "conns w = Some c # cs" "sock_ok c" "tx_live c" "tx c = []" "pending c = upload_answer existed"
    and "server_ok rp h" "plain_path rp path" "options_ok (Put path flags b data)"
    and "store_serve rp (Put path flags b data) (node_at h) = (Stored existed, t)"
  shows "\<exists>w' c'. isr_cli_send_file host port (rel_path path) local flags b w = Some (0, w') \<and>
    closed w' = closed w @ [c'] \<and> node_at (the_host w') = node_at (the_host w) \<and>
    (\<forall>s. sock_ok s \<and> tx_live s \<and> tx s = [] \<and> pending s = tx c' \<longrightarrow>
      (\<exists>s' h' info'. isr_receive_command (canon rp) s h info = Some (0, s', h', info') \<and>
        node_at h' = t \<and> tx s' = pending c))"
proof -
  define st where "st = (if existed then Some (False, 0) else None :: (bool \<times> u64) option)"
  have pend: "pending c = enc_response (isr_response_from_result (answer_type st)) @
      enc_response (isr_response_from_result ISR_RESULT_OK) @ []"
    using assms(11) by (simp add: st_def answer_type_def upload_answer_def)
  obtain w' c' pl where run: "isr_cli_send_file host port (rel_path path) local flags b w = Some (0, w')"
    "closed w' = closed w @ [c']" "is_payload (has_flag flags ISR_FLAG_USE_COMPRESSION) b data pl"
    "tx c' = send_request (rel_path path) flags b (word_of_nat (length data)) @ pl"
    "node_at (the_host w') = node_at (the_host w)"
    using client_upload [OF assms(1-4,6,5) length_rel_path [OF assms(12,13)] assms(7-9) pend, of host port] assms(10) reads_node_at by auto
  have "\<exists>s' h' info'. isr_receive_command (canon rp) s h info = Some (0, s', h', info') \<and>
      node_at h' = t \<and> tx s' = pending c"
    if s: "sock_ok s" "tx_live s" "tx s = []" "pending s = tx c'" for s
  proof -
    have asks: "asks (Put path flags b data) (pending s)" using s(4) run(3,4) by auto
    have path: "plain_path rp (path_of (Put path flags b data))" using assms(13) by simp
    from serve_request [OF assms(12) path assms(14) asks s(1,2), of info] assms(15) s(3)
    obtain r s' h' info' where "isr_receive_command (canon rp) s h info = Some (r, s', h', info')"
      "node_at h' = t" "tells (Stored existed) [] (tx s')" "result_of (Stored existed) r"
      by (auto simp del: store_serve.simps tells.simps)
    with assms(11) show ?thesis by (auto simp: upload_answer_def)
  qed
  with run show ?thesis by blast
qed

text \<open>A client with the file \<open>/x\<close> and one connection, for the examples.\<close>

definition ex_client :: "(fpath \<times> node) list \<Rightarrow> bytes \<Rightarrow> world" where
  "ex_client ns answer = \<lparr>the_host = host0 ns, conns = [Some (sock0 answer)], closed = [], dialled = []\<rparr>"

lemma ex_client_simps [simp]:
  "the_host (ex_client ns answer) = host0 ns" "conns (ex_client ns answer) = [Some (sock0 answer)]"
  "closed (ex_client ns answer) = []"
  by (simp_all add: ex_client_def)

lemma ex_plain: "plain_path [''srv''] [''f'']" "plain_path [''srv''] [''g'']"
  by (simp_all add: plain_path_def plain_root_def is_sep_def backslash_def canon_def ISR_PATH_MAX_def)

theorem upload_end_to_end_witness:
  "\<exists>w' c' s' h' info'.
    isr_cli_send_file ''h'' ''1'' ''f'' ''/x'' 0 0 (ex_client [([''x''], File [7])] (upload_answer False)) = Some (0, w') \<and>
    closed w' = [c'] \<and> isr_receive_command ''/srv'' (sock0 (tx c')) ex_host info0 = Some (0, s', h', info') \<and>
    node_at h' [''srv'', ''f''] = Some (File [7]) \<and> tx s' = upload_answer False"
proof -
  let ?w = "ex_client [([''x''], File [7])] (upload_answer False)"
  let ?t = "put_file [''srv'', ''f''] [7] (node_at ex_host)"
  have rel: "rel_path [''f''] = ''f''" by (simp add: rel_path_def canon_def)
  have flags: "\<not> has_flag 0 x" for x by (simp add: has_flag_def)
  have client: "lookup (the_host ?w) ''/x'' True = Found [''x'']" "node_at (the_host ?w) [''x''] = Some (File [7])"
    "\<not> deny (the_host ?w) [''x'']" "rd_live (the_host ?w)" "length [7 :: u8] < 2 ^ 55"
    "can_compress (has_flag 0 ISR_FLAG_USE_COMPRESSION) 0 (the_host ?w)"
    "conns ?w = Some (sock0 (upload_answer False)) # []" "sock_ok (sock0 (upload_answer False))"
    "tx_live (sock0 (upload_answer False))" "tx (sock0 (upload_answer False)) = []"
    "pending (sock0 (upload_answer False)) = upload_answer False"
    by (simp_all add: lookup_def can_compress_def flags)
  have put: "options_ok (Put [''f''] 0 0 [7])"
    "store_serve [''srv''] (Put [''f''] 0 0 [7]) (node_at ex_host) = (Stored False, ?t)"
    by (simp_all add: flags ex_host_nodes file_above_def put_file_def)
  from upload_end_to_end [OF client ex_server_ok ex_plain(1) put, of "''h''" "''1''" info0, unfolded rel ex_root(1)]
  obtain w' c' where run: "isr_cli_send_file ''h'' ''1'' ''f'' ''/x'' 0 0 ?w = Some (0, w')" "closed w' = closed ?w @ [c']"
    "\<forall>s. sock_ok s \<and> tx_live s \<and> tx s = [] \<and> pending s = tx c' \<longrightarrow>
      (\<exists>s' h' info'. isr_receive_command ''/srv'' s ex_host info0 = Some (0, s', h', info') \<and>
        node_at h' = ?t \<and> tx s' = pending (sock0 (upload_answer False)))"
    by blast
  from run(3) [rule_format, of "sock0 (tx c')"] obtain s' h' info' where
    "isr_receive_command ''/srv'' (sock0 (tx c')) ex_host info0 = Some (0, s', h', info')"
    "node_at h' = ?t" "tx s' = upload_answer False"
    by auto
  moreover have "?t [''srv'', ''f''] = Some (File [7])" by (simp add: put_file_def)
  ultimately show ?thesis using run(1,2) by auto
qed

section \<open>Download\<close>

text \<open>
  C5. A download from end to end. For the request and the go-ahead of the client the server sends
  bytes on which the client asks exactly this, succeeds, and stores the file of the server under
  the local path; the tree of the server does not change.
\<close>

theorem download_end_to_end:
  assumes "server_ok rp h" "plain_path rp path" "options_ok (Get path flags b)" "node_at h (rp @ path) = Some (File data)"
    and "sock_ok s" "tx_live s" "tx s = []" "pending s = recv_request (rel_path path) flags b @ [ISR_RECV_GO]"
    and "isr_open_write (made_parents (the_host w) local) local = (Some f, h2)" "wr_live h2"
    and "can_compress (has_flag flags ISR_FLAG_USE_COMPRESSION) b h2"
  shows "\<exists>s' h' info'. isr_receive_command (canon rp) s h info = Some (0, s', h', info') \<and> node_at h' = node_at h \<and>
    (\<forall>c cs. conns w = Some c # cs \<and> sock_ok c \<and> tx_live c \<and> tx c = [] \<and> pending c = tx s' \<longrightarrow>
      (\<exists>w' c'. isr_cli_download_file host port (rel_path path) local flags b w = Some (0, w') \<and>
        closed w' = closed w @ [c'] \<and> tx c' = pending s \<and> node_at (the_host w') (fd_path f) = Some (File data) \<and>
        (\<forall>q. q \<noteq> fd_path f \<longrightarrow> node_at (the_host w') q = node_at h2 q)))"
proof -
  have path: "plain_path rp (path_of (Get path flags b))" and asks: "asks (Get path flags b) (pending s)"
    using assms(2,8) by simp_all
  from serve_request [OF assms(1) path assms(3) asks assms(5,6), of info] assms(4,7)
  obtain r s' h' info' where run: "isr_receive_command (canon rp) s h info = Some (r, s', h', info')"
    "node_at h' = node_at h" "tells (Sent (has_flag flags ISR_FLAG_USE_COMPRESSION) b data) [] (tx s')"
    "result_of (Sent (has_flag flags ISR_FLAG_USE_COMPRESSION) b data) r"
    by (auto simp del: tells.simps)
  then obtain pl where pl: "is_payload (has_flag flags ISR_FLAG_USE_COMPRESSION) b data pl"
    "tx s' = enc_confirmation \<lparr>conf_type = ISR_RECV_TYPE_FILE, conf_length = word_of_nat (length data)\<rparr> @ pl"
    by auto
  have small: "length data < 2 ^ 55" using assms(1,4) by (auto simp: server_ok_def)
  have "\<exists>w' c'. isr_cli_download_file host port (rel_path path) local flags b w = Some (0, w') \<and>
        closed w' = closed w @ [c'] \<and> tx c' = pending s \<and> node_at (the_host w') (fd_path f) = Some (File data) \<and>
        (\<forall>q. q \<noteq> fd_path f \<longrightarrow> node_at (the_host w') q = node_at h2 q)"
    if c: "conns w = Some c # cs" "sock_ok c" "tx_live c" "tx c = []" "pending c = tx s'" for c cs
    using client_download [OF c(1-3) length_rel_path [OF assms(1,2)] small pl(1) c(5) [unfolded pl(2)] assms(9-11), of host port]
      c(4) assms(8) by (fastforce simp: writes_def)
  with run show ?thesis by auto
qed


theorem download_end_to_end_witness:
  "\<exists>s' h' info' w'. isr_receive_command ''/srv'' (sock0 (recv_request ''g'' 0 0 @ [ISR_RECV_GO])) ex_host info0 =
      Some (0, s', h', info') \<and>
    isr_cli_download_file ''h'' ''1'' ''g'' ''/d/g'' 0 0 (ex_client [([''d''], Dir)] (tx s')) = Some (0, w') \<and>
    node_at (the_host w') [''d'', ''g''] = Some (File [1])"
proof -
  let ?h = "host0 [([''d''], Dir)]" and ?s = "sock0 (recv_request ''g'' 0 0 @ [ISR_RECV_GO])"
  let ?w = "\<lambda>answer. ex_client [([''d''], Dir)] answer"
  let ?f = "\<lparr>fd_path = [''d'', ''g''], fd_pos = 0\<rparr>"
  have rel: "rel_path [''g''] = ''g''" by (simp add: rel_path_def canon_def)
  have flags: "\<not> has_flag 0 x" for x by (simp add: has_flag_def)
  have parents: "made_parents ?h ''/d/g'' = ?h"
    by (simp add: made_parents_def isr_parent_dir_def isr_mkdir_recursive_def os_mkdir_def copy_n_def
      ISR_PATH_MAX_def lookup_def is_sep_def backslash_def Let_def)
  have opened: "isr_open_write (made_parents (the_host (?w a)) ''/d/g'') ''/d/g'' =
      (Some ?f, put_node [''d'', ''g''] (File []) ?h)" for a
    by (simp add: parents isr_open_write_def lookup_def)
  have req: "sock_ok ?s" "tx_live ?s" "tx ?s = []" "pending ?s = recv_request (rel_path [''g'']) 0 0 @ [ISR_RECV_GO]"
    "options_ok (Get [''g''] 0 0)" "node_at ex_host ([''srv''] @ [''g'']) = Some (File [1])"
    "wr_live (put_node [''d'', ''g''] (File []) ?h)"
    "can_compress (has_flag 0 ISR_FLAG_USE_COMPRESSION) 0 (put_node [''d'', ''g''] (File []) ?h)"
    by (simp_all add: rel flags ex_host_nodes wr_live_def can_compress_def)
  note run = download_end_to_end [where info = info0 and host = "''h''" and port = "''1''",
      OF ex_server_ok ex_plain(2) req(5,6) req(1-4) opened req(7,8), unfolded rel ex_root(1)]
  obtain s' h' info' where server: "isr_receive_command ''/srv'' ?s ex_host info0 = Some (0, s', h', info')"
    using run [of "[]"] by blast
  from run [of "tx s'"] server have "\<forall>c cs. conns (?w (tx s')) = Some c # cs \<and> sock_ok c \<and> tx_live c \<and> tx c = [] \<and> pending c = tx s' \<longrightarrow>
      (\<exists>w' c'. isr_cli_download_file ''h'' ''1'' ''g'' ''/d/g'' 0 0 (?w (tx s')) = Some (0, w') \<and>
        closed w' = closed (?w (tx s')) @ [c'] \<and> tx c' = pending ?s \<and> node_at (the_host w') (fd_path ?f) = Some (File [1]) \<and>
        (\<forall>q. q \<noteq> fd_path ?f \<longrightarrow> node_at (the_host w') q = node_at (put_node [''d'', ''g''] (File []) ?h) q))"
    by simp
  from this [rule_format, of "sock0 (tx s')" "[]"] server show ?thesis by auto
qed

end
