(* ===== verification/Client_Laws.thy ===== *)
theory Client_Laws
  imports Dialogue
begin

text \<open>
  Laws of the client and of the command line: the recursion over directories satisfies the
  equation of the C function, what the client does with answers that do not keep to the protocol,
  and what the block size option does.
\<close>

section \<open>The recursion over directories\<close>

lemma send_directory_rec:
  "isr_cli_send_directory host port remote local flags b w =
    send_directory_with (\<lambda>remote local. isr_cli_send_directory host port remote local flags b)
      host port remote local flags b w"
proof -
  let ?n = "left w"
  let ?up = "\<lambda>remote local. send_directory_upto ?n host port remote local flags b"
  let ?dir = "\<lambda>remote local. isr_cli_send_directory host port remote local flags b"
  have loop: "send_entries ?up f remote local ds 0 v = send_entries ?dir f remote local ds 0 v"
    if "left v < ?n" "thrifty f" for f remote local ds v
  proof (rule send_entries_cong [OF thrifty_send_directory_upto that(2) _ order_refl])
    fix remote local v'
    assume "left v' \<le> left v"
    with that(1) show "?up remote local v' = ?dir remote local v'"
      unfolding isr_cli_send_directory_def by (intro send_directory_upto_enough) simp_all
  qed
  have "send_directory_with ?up host port remote local flags b w = send_directory_with ?dir host port remote local flags b w"
    unfolding send_directory_with_def Let_def
    by (auto simp: loop [OF _ thrifty_send_file] split: option.splits prod.splits if_splits dest!: send_mkdir_left)
  then show ?thesis by (simp add: isr_cli_send_directory_def [of host port remote local flags b w])
qed

lemma download_directory_rec:
  "isr_cli_download_directory host port remote local flags b w =
    download_directory_with (\<lambda>remote local. isr_cli_download_directory host port remote local flags b)
      host port remote local flags b w"
proof -
  let ?n = "left w"
  let ?up = "\<lambda>remote local. download_directory_upto ?n host port remote local flags b"
  let ?dir = "\<lambda>remote local. isr_cli_download_directory host port remote local flags b"
  let ?file = "\<lambda>remote local. isr_cli_download_file host port remote local flags b"
  have loop: "download_entries ?up ?file remote local es 0 v = download_entries ?dir ?file remote local es 0 v"
    if "left v < ?n" for remote local es v
  proof (rule download_entries_cong [OF thrifty_download_directory_upto thrifty_download_file _ order_refl])
    fix remote local v'
    assume "left v' \<le> left v"
    with that(1) show "?up remote local v' = ?dir remote local v'"
      unfolding isr_cli_download_directory_def by (intro download_directory_upto_enough) simp_all
  qed
  have listed: "download_listed ?up ?file remote local buf v = download_listed ?dir ?file remote local buf v"
    if "left v < ?n" for remote local buf v
  proof -
    have "left (set_host x v) < ?n" for x using that by simp
    note same = loop [OF this]
    show ?thesis unfolding download_listed_def Let_def same ..
  qed
  obtain c w1 where c: "recv_connect host port remote flags b (print (''Downloading directory: '' @ remote @ '' -> '' @ local) w) = (c, w1)"
    by force
  have "download_directory_with ?up host port remote local flags b w = download_directory_with ?dir host port remote local flags b w"
  proof (cases c)
    case None
    then show ?thesis unfolding download_directory_with_def Let_def c by simp
  next
    case (Some sc)
    obtain s conf where sc: "c = Some (s, conf)" using Some by (cases sc) auto
    have w1: "left w1 < left w" using recv_connect_left [OF c] sc by simp
    obtain ok s1 w2 where go: "send_go s w1 = (ok, s1, w2)" by (metis prod_cases3)
    obtain buf s2 h2 where buf: "recv_verified_listing s1 (the_host w2) (conf_length conf) = (buf, s2, h2)"
      by (metis prod_cases3)
    have "left (net_close s2 (set_host h2 w2)) < left w" using send_go_left [OF go] w1 by simp
    note same = listed [OF this]
    show ?thesis
      unfolding download_directory_with_def c Let_def sc option.case prod.case go buf same ..
  qed
  then show ?thesis by (simp add: isr_cli_download_directory_def [of host port remote local flags b w])
qed

section \<open>Answers that break the protocol\<close>

lemma response_unterminated:
  assumes "length data = 254" "0 \<notin> set data"
  shows "response_text (dec_response (t # data)) = None" "response_type (dec_response (t # data)) = t"
  using assms by (simp_all add: response_text_def dec_response_def)

section \<open>Decimal numbers\<close>

lemma of_char_digit: "d < 10 \<Longrightarrow> (of_char (char_of (48 + d :: nat)) :: nat) = 48 + d"
  by simp

lemma of_char_int: "(of_char c :: int) = int (of_char c)"
  by (simp add: of_char_def)

lemma is_digit_char: "d < 10 \<Longrightarrow> is_digit (char_of (48 + d :: nat))"
  by (simp add: is_digit_def of_char_digit)

lemma udec_digits: "udec n \<noteq> [] \<and> (\<forall>c \<in> set (udec n). is_digit c)"
proof (induction n rule: udec.induct)
  case (1 n)
  then show ?case
    using is_digit_char [of n] is_digit_char [of "n mod 10"]
    by (cases "n < 10") (auto simp: udec.simps [of n])
qed

lemma fold_udec: "foldl (\<lambda>a c. a * 10 + (of_char c - 48)) 0 (udec n) = int n"
proof (induction n rule: udec.induct)
  case (1 n)
  show ?case
  proof (cases "n < 10")
    case True
    then show ?thesis by (simp add: udec.simps [of n] of_char_int of_char_digit)
  next
    case False
    have "n mod 10 < 10" by simp
    note d = of_char_digit [OF this]
    have "int (n div 10) * 10 + int (n mod 10) = int n"
      by (metis div_mult_mod_eq of_nat_add of_nat_mult of_nat_numeral)
    with 1 False show ?thesis by (simp add: udec.simps [of n] of_char_int d)
  qed
qed

lemma not_digit_sign: "is_digit c \<Longrightarrow> \<not> is_space c \<and> c \<noteq> CHR ''-'' \<and> c \<noteq> CHR ''+''"
  by (auto simp: is_digit_def is_space_def)

lemma strtol_udec: "int n < 2 ^ 63 \<Longrightarrow> strtol (udec n) = int n"
proof -
  assume n: "int n < 2 ^ 63"
  obtain c r where u: "udec n = c # r" using udec_digits [of n] by (cases "udec n") auto
  with udec_digits [of n] have "is_digit c" by simp
  have "takeWhile is_digit (udec n) = udec n" using udec_digits [of n] by simp
  with fold_udec [of n] have "digits_value (udec n) = int n" unfolding digits_value_def by metis
  with n u not_digit_sign [OF \<open>is_digit c\<close>] show ?thesis by (simp add: strtol_def Let_def)
qed

section \<open>Properties\<close>

text \<open>
  The recursion over directory trees ends: the functions are total, and the bound of the model
  does not show, since both satisfy the equation of the C function, whose body calls the function
  itself. A call that goes on has used up a connection.
\<close>

lemma directory_recursion:
  "isr_cli_send_directory host port remote local flags b w =
     send_directory_with (\<lambda>remote local. isr_cli_send_directory host port remote local flags b)
       host port remote local flags b w \<and>
   isr_cli_download_directory host port remote local flags b w =
     download_directory_with (\<lambda>remote local. isr_cli_download_directory host port remote local flags b)
       host port remote local flags b w"
  using send_directory_rec download_directory_rec by blast

text \<open>
  C38. A server that answers an upload with a failure whose 254 bytes of text hold no NUL makes the
  client print past the end of the response, which is undefined.
\<close>

theorem send_file_unterminated:
  assumes "isr_stat (the_host w) local = Some st" "isr_open_read (the_host w) local = Some f"
    and "conns w = Some c # cs" "sock_ok c" "tx_live c" "length remote < 65536"
    and "pending c = ISR_RESULT_OTHER_FAILURE # data @ rest" "length data = 254" "0 \<notin> set data"
  shows "isr_cli_send_file host port remote local flags b w = None"
proof -
  obtain w1 where w1: "net_connect host port w = (Some c, w1)"
    using assms(3) by (simp add: net_connect_def)
  obtain s1 where s1: "isr_transmit_send_command c remote flags b (snd st) = (True, s1)"
    "pending s1 = pending c" "sock_ok s1 = sock_ok c"
    using isr_transmit_send_command_live [OF assms(5,6)] by metis
  have "sock_ok s1" "pending s1 = (ISR_RESULT_OTHER_FAILURE # data) @ rest" "length (ISR_RESULT_OTHER_FAILURE # data) = 255"
    using s1 assms(4,7,8) by simp_all
  then obtain s2 where "net_recv_exact s1 255 = (Some (ISR_RESULT_OTHER_FAILURE # data), s2)"
    by (rule tcp.recv_exact)
  with w1 s1(1) assms(1,2) response_unterminated [OF assms(8,9)] show ?thesis
    by (cases st) (simp add: isr_cli_send_file_def Let_def)
qed

theorem send_file_unterminated_witness:
  "isr_cli_send_file ''h'' ''1'' ''f'' ''/x'' 0 0
     (ex_client [([''x''], File [7])] (ISR_RESULT_OTHER_FAILURE # replicate 254 65)) = None"
proof -
  let ?w = "ex_client [([''x''], File [7])] (ISR_RESULT_OTHER_FAILURE # replicate 254 65)"
  let ?c = "sock0 (ISR_RESULT_OTHER_FAILURE # replicate 254 65)"
  have "isr_stat (the_host ?w) ''/x'' = Some (False, 1)" "isr_open_read (the_host ?w) ''/x'' = Some \<lparr>fd_path = [''x''], fd_pos = 0\<rparr>"
    "conns ?w = Some ?c # []" "sock_ok ?c" "tx_live ?c" "length ''f'' < 65536"
    "pending ?c = ISR_RESULT_OTHER_FAILURE # replicate 254 65 @ []" "length (replicate 254 65 :: u8 list) = 254"
    "0 \<notin> set (replicate 254 65 :: u8 list)"
    by (simp_all add: isr_stat_def isr_open_read_def lookup_def)
  then show ?thesis by (rule send_file_unterminated)
qed

text \<open>
  C39. A listing that cannot be parsed, because memory is short or the buffer holds no whole entry,
  counts as an empty directory: the check for \<open>!entries && entry_count != 0\<close> never fires, and the
  download of the directory is reported as complete.
\<close>

theorem listing_failure_is_success:
  assumes "isr_cli_parse_directory_listing (the_host w) buf = (None, n)"
  shows "n = 0 \<and> (\<exists>w'. download_listed dir file_call remote local buf w = Some (0, w') \<and>
    console (the_host w') = console (the_host w) @ [''Directory download complete: '' @ remote])"
proof -
  have n: "n = 0"
    using assms by (auto simp: isr_cli_parse_directory_listing_def Let_def split: option.splits if_splits prod.splits)
  have "console (snd (isr_mkdir_recursive (the_host w) local)) = console (the_host w)"
    using isr_mkdir_recursive_keeps by (simp add: grows_def same_env_def)
  with assms n show ?thesis
    by (simp add: download_listed_def Let_def) (simp add: print_def set_host_def say_def)
qed

theorem listing_failure_is_success_witness:
  "\<exists>w'. download_listed (\<lambda>_ _ w. Some (- 1, w)) (\<lambda>_ _ w. Some (- 1, w)) ''r'' ''/d'' [1, 2, 3] (ex_client [] []) =
      Some (0, w') \<and> console (the_host w') = [''Directory download complete: r'']"
proof -
  have "isr_cli_parse_directory_listing (the_host (ex_client [] [])) [1, 2, 3] = (None, 0)"
    by (simp add: isr_cli_parse_directory_listing_def count_entries.simps)
  from listing_failure_is_success [OF this, of "\<lambda>_ _ w. Some (- 1, w)" "\<lambda>_ _ w. Some (- 1, w)" "''r''" "''/d''"]
  show ?thesis by simp
qed

text \<open>
  C40. \<open>-c N\<close> means \<open>N\<close> kilobytes, computed in 32 bits: for a decimal \<open>N\<close> below \<open>2 ^ 31\<close> the
  block size is \<open>1024 N\<close> modulo \<open>2 ^ 32\<close>, so it is right below 4194304 and 0 there.
\<close>

theorem block_size_option_decimal:
  assumes "n < 2 ^ 31"
  shows "unat (block_size_option (udec n)) = 1024 * n mod 2 ^ 32"
proof -
  have "atoi (udec n) = int n" using assms strtol_udec [of n] by (simp add: atoi_def to_int_small)
  then have "block_size_option (udec n) = word_of_nat (1024 * n)"
    by (simp add: block_size_option_def)
  moreover have "unat (word_of_nat (1024 * n) :: u32) = 1024 * n mod 2 ^ 32"
    by (simp only: unat_of_nat) simp
  ultimately show ?thesis by metis
qed

theorem block_size_option_decimal_witness:
  "unat (block_size_option ''64'') = 65536 \<and> unat (block_size_option ''4194304'') = 0"
proof -
  have "udec 64 = ''64''" "udec 4194304 = ''4194304''" by (simp_all add: udec.simps char_of_def bit_0)
  with block_size_option_decimal [of 64] block_size_option_decimal [of 4194304] show ?thesis by simp
qed

text \<open>
  With block size 0 a compressed upload sends no data: whatever the file holds, the sender
  transmits the sum 0 alone and returns success.
\<close>

theorem zero_block_size:
  assumes "malloc h 0 \<noteq> None" "malloc h 16 \<noteq> None" "tx_live s"
  shows "\<exists>s' h'. isr_transmit_file_compressed s h f 0 = Some (0, s', h') \<and> tx s' = tx s @ enc_u64 0"
proof -
  obtain r bs f1 h1 where e: "isr_read h f 0 = (r, bs, f1, h1)" by (metis prod_cases4)
  have r: "\<not> 0 < r"
    using e by (auto simp: isr_read_def Let_def split: option.splits node.splits list.splits io_ev.splits)
  obtain s1 where "net_send_exact s (enc_u64 0) = (True, s1)" "tx s1 = tx s @ enc_u64 0"
    using tcp.send_live [OF assms(3)] by metis
  moreover have "LZ4_compressBound (to_int (int (unat (0 :: u32)))) = 16"
    by (simp add: to_int_small LZ4_compressBound_def)
  ultimately show ?thesis
    using e r assms(1,2) by (auto simp: isr_transmit_file_compressed_def tx_compressed.simps [of s])
qed

theorem zero_block_size_witness:
  "\<exists>s' h'. isr_transmit_file_compressed (sock0 []) (host0 [([''x''], File [7])]) \<lparr>fd_path = [''x''], fd_pos = 0\<rparr> 0 =
    Some (0, s', h') \<and> tx s' = enc_u64 0"
  using zero_block_size [of "host0 [([''x''], File [7])]" "sock0 []" "\<lparr>fd_path = [''x''], fd_pos = 0\<rparr>"] by simp

end
