(* ===== verification/Trees.thy ===== *)
theory Trees
  imports Client_Laws
begin

text \<open>
  What the upload and the download of a directory tree share: trees, the tree of a host, a tree put
  at a free place, and the connections that a client uses up, one for each request.
\<close>

section \<open>Directory trees\<close>

text \<open>A tree as the recursion meets it, with the entries of a directory in the order of \<open>readdir\<close>.\<close>

datatype dir_tree = Leaf bytes | Branch entries
and entries = No_Entry | Entry string dir_tree entries

primrec tree_at :: "dir_tree \<Rightarrow> fpath \<Rightarrow> node option"
  and entry_at :: "entries \<Rightarrow> string \<Rightarrow> fpath \<Rightarrow> node option" where
  "tree_at (Leaf data) cs = (if cs = [] then Some (File data) else None)"
| "tree_at (Branch es) cs = (case cs of [] \<Rightarrow> Some Dir | c # cs \<Rightarrow> entry_at es c cs)"
| "entry_at No_Entry c cs = None"
| "entry_at (Entry n t es) c cs = (if c = n then tree_at t cs else entry_at es c cs)"

primrec entry_names :: "entries \<Rightarrow> string list" where
  "entry_names No_Entry = []"
| "entry_names (Entry n t es) = n # entry_names es"

text \<open>All the paths of a tree, from its root.\<close>

primrec tree_paths :: "dir_tree \<Rightarrow> fpath list" and entry_paths :: "entries \<Rightarrow> fpath list" where
  "tree_paths (Leaf data) = [[]]"
| "tree_paths (Branch es) = [] # entry_paths es"
| "entry_paths No_Entry = []"
| "entry_paths (Entry n t es) = map (Cons n) (tree_paths t) @ entry_paths es"

text \<open>No directory has two entries of the same name.\<close>

primrec distinct_names :: "dir_tree \<Rightarrow> bool" and distinct_entries :: "entries \<Rightarrow> bool" where
  "distinct_names (Leaf data) \<longleftrightarrow> True"
| "distinct_names (Branch es) \<longleftrightarrow> distinct_entries es"
| "distinct_entries No_Entry \<longleftrightarrow> True"
| "distinct_entries (Entry n t es) \<longleftrightarrow> n \<notin> set (entry_names es) \<and> distinct_names t \<and> distinct_entries es"

text \<open>The tree of a host at a path.\<close>

primrec holds_tree :: "host \<Rightarrow> fpath \<Rightarrow> dir_tree \<Rightarrow> bool"
  and holds_entries :: "host \<Rightarrow> fpath \<Rightarrow> entries \<Rightarrow> bool" where
  "holds_tree h p (Leaf data) \<longleftrightarrow> node_at h p = Some (File data)"
| "holds_tree h p (Branch es) \<longleftrightarrow> node_at h p = Some Dir \<and> dir_entries h p = entry_names es \<and>
     holds_entries h p es"
| "holds_entries h p No_Entry \<longleftrightarrow> True"
| "holds_entries h p (Entry n t es) \<longleftrightarrow> holds_tree h (p @ [n]) t \<and> holds_entries h p es"

lemma entry_at_None: "c \<notin> set (entry_names es) \<Longrightarrow> entry_at es c cs = None"
  by (induction es) simp_all

lemma holds_tree_at:
  assumes "tree_ok h"
  shows "holds_tree h p t \<Longrightarrow> node_at h (p @ cs) = tree_at t cs"
    and "holds_entries h p es \<Longrightarrow> c \<in> set (entry_names es) \<Longrightarrow> node_at h (p @ c # cs) = entry_at es c cs"
proof (induction t and es arbitrary: p cs and p c cs)
  case (Leaf data)
  then show ?case
    using tree_ok_parents [OF assms, of "p @ cs" p] by (cases "node_at h (p @ cs)") (auto simp: strict_prefix_def)
next
  case (Branch es)
  show ?case
  proof (cases cs)
    case Nil
    with Branch.prems show ?thesis by simp
  next
    case (Cons c r)
    show ?thesis
    proof (cases "c \<in> set (entry_names es)")
      case True
      with Branch Cons show ?thesis by simp
    next
      case False
      then have "node_at h (p @ [c]) = None" using Branch.prems dir_entries_iff [of c h p] by simp
      then have "node_at h (p @ c # r) = None"
        using tree_ok_prefix [OF assms, of "p @ c # r" "p @ [c]"] by (cases "node_at h (p @ c # r)") auto
      with False Cons show ?thesis by (simp add: entry_at_None)
    qed
  qed
next
  case (Entry n t es)
  then show ?case using Entry.IH(1) [of "p @ [n]" cs] by auto
qed simp_all

lemma holds_tree_reads:
  assumes "reads h h'"
  shows "holds_tree h' p t = holds_tree h p t" "holds_entries h' p es = holds_entries h p es"
proof -
  have "nodes h' = nodes h" "node_at h' = node_at h" using assms reads_node_at by (simp_all add: reads_def)
  then show "holds_tree h' p t = holds_tree h p t" "holds_entries h' p es = holds_entries h p es"
    by (induction t and es arbitrary: p and p) (simp_all add: dir_entries_def)
qed

lemma holds_tree_distinct:
  shows "holds_tree h p t \<Longrightarrow> distinct_names t"
    and "holds_entries h p es \<Longrightarrow> distinct (entry_names es) \<Longrightarrow> distinct_entries es"
  by (induction t and es arbitrary: p and p) (auto dest: arg_cong [where f = distinct] simp: distinct_dir_entries)

section \<open>A tree at a free place\<close>

text \<open>The tree stands at the place, and nothing else has changed but the directories above it.\<close>

definition grafted :: "fpath \<Rightarrow> dir_tree \<Rightarrow> tree \<Rightarrow> tree \<Rightarrow> bool" where
  "grafted p tr t t' \<longleftrightarrow> (\<forall>cs. t' (p @ cs) = tree_at tr cs) \<and> (\<forall>q. \<not> prefix p q \<longrightarrow> t' q = with_dirs p t q)"

definition grafted_entries :: "fpath \<Rightarrow> entries \<Rightarrow> tree \<Rightarrow> tree \<Rightarrow> bool" where
  "grafted_entries p es t t' \<longleftrightarrow>
     (\<forall>n \<in> set (entry_names es). \<forall>cs. t' (p @ n # cs) = entry_at es n cs) \<and>
     (\<forall>q. (\<forall>n \<in> set (entry_names es). \<not> prefix (p @ [n]) q) \<longrightarrow> t' q = t q)"

definition free_below :: "fpath \<Rightarrow> string set \<Rightarrow> tree \<Rightarrow> bool" where
  "free_below p ns t \<longleftrightarrow> (\<forall>q. prefix q p \<longrightarrow> t q \<noteq> None \<and> \<not> is_file (t q)) \<and> (\<forall>n \<in> ns. \<forall>cs. t (p @ n # cs) = None)"

lemma grafted_leaf:
  assumes "\<forall>cs. t (p @ cs) = None" "p \<noteq> []"
  shows "grafted p (Leaf data) t (put_file p data t)"
proof -
  have "prefix q (butlast p) \<longleftrightarrow> prefix q p" if "\<not> prefix p q" for q
    using that assms(2) by (cases p rule: rev_cases) auto
  moreover have "t p = None" using assms(1) [rule_format, of "[]"] by simp
  moreover have "\<not> prefix (p @ cs) (butlast p)" for cs
    using assms(2) prefix_length_le [of "p @ cs" "butlast p"] by (cases p) auto
  ultimately show ?thesis
    using assms(1) by (auto simp: grafted_def put_file_def with_dirs_def)
qed

lemma grafted_branch:
  assumes "grafted_entries p es (with_dirs p t) t'" "\<forall>cs. t (p @ cs) = None"
  shows "grafted p (Branch es) t t'"
proof -
  have "t' (p @ cs) = tree_at (Branch es) cs" for cs
  proof (cases cs)
    case Nil
    have "t' p = with_dirs p t p" using assms(1) prefix_length_le [of "p @ [n]" p for n] by (auto simp: grafted_entries_def)
    moreover have "t p = None" using assms(2) [rule_format, of "[]"] by simp
    ultimately show ?thesis using Nil by (simp add: with_dirs_def)
  next
    case (Cons n r)
    show ?thesis
    proof (cases "n \<in> set (entry_names es)")
      case True
      with assms(1) Cons show ?thesis by (simp add: grafted_entries_def)
    next
      case False
      then have "\<forall>m \<in> set (entry_names es). \<not> prefix (p @ [m]) (p @ n # r)" by auto
      then have "t' (p @ n # r) = with_dirs p t (p @ n # r)" using assms(1) unfolding grafted_entries_def by blast
      also have "\<dots> = None"
        using assms(2) prefix_length_le [of "p @ n # r" p] by (auto simp: with_dirs_def)
      finally show ?thesis using Cons False by (simp add: entry_at_None)
    qed
  qed
  moreover have "t' q = with_dirs p t q" if "\<not> prefix p q" for q
    using that assms(1) append_prefixD unfolding grafted_entries_def by blast
  ultimately show ?thesis by (simp add: grafted_def)
qed

lemma free_below_Make:
  assumes "\<not> file_above t p" "\<forall>cs. t (p @ cs) = None"
  shows "free_below p ns (with_dirs p t)"
proof -
  have "t p = None" using assms(2) [rule_format, of "[]"] by simp
  have "with_dirs p t q \<noteq> None \<and> \<not> is_file (with_dirs p t q)" if "prefix q p" for q
    using that assms(1) \<open>t p = None\<close> by (cases "q = p") (auto simp: with_dirs_def file_above_iff is_file_iff strict_prefix_def)
  moreover have "with_dirs p t (p @ n # cs) = None" for n cs
    using assms(2) prefix_length_le [of "p @ n # cs" p] by (auto simp: with_dirs_def)
  ultimately show ?thesis by (simp add: free_below_def)
qed

lemma free_below_child:
  assumes "free_below p ns t" "n \<in> ns"
  shows "\<not> file_above t (p @ [n])" "\<forall>cs. t ((p @ [n]) @ cs) = None"
    "grafted (p @ [n]) tr t t1 \<Longrightarrow> \<not> prefix (p @ [n]) q \<Longrightarrow> t1 q = t q"
  using assms by (auto simp: free_below_def file_above_iff is_file_iff grafted_def with_dirs_def strict_prefix_def)

lemma grafted_entry:
  assumes "free_below p (set (n # entry_names es)) t" "n \<notin> set (entry_names es)" "grafted (p @ [n]) tr t t1"
  shows "free_below p (set (entry_names es)) t1"
    and "grafted_entries p es t1 t2 \<Longrightarrow> grafted_entries p (Entry n tr es) t t2"
proof -
  have same: "t1 q = t q" if "\<not> prefix (p @ [n]) q" for q
    using free_below_child(3) [OF assms(1) _ assms(3) that] by simp
  have "\<not> prefix (p @ [n]) q" if "prefix q p" for q using that prefix_length_le [of "p @ [n]" q] prefix_length_le [of q p] by auto
  moreover have "t1 (p @ m # cs) = None" if "m \<in> set (entry_names es)" for m cs
  proof -
    have "\<not> prefix (p @ [n]) (p @ m # cs)" using that assms(2) by auto
    from same [OF this] that assms(1) show ?thesis by (simp add: free_below_def)
  qed
  ultimately show "free_below p (set (entry_names es)) t1" using same assms(1) by (simp add: free_below_def)
  show "grafted_entries p (Entry n tr es) t t2" if t2: "grafted_entries p es t1 t2"
  proof -
    have "t2 (p @ n # cs) = tree_at tr cs" for cs
    proof -
      have "\<forall>m \<in> set (entry_names es). \<not> prefix (p @ [m]) (p @ n # cs)" using assms(2) by auto
      then have "t2 (p @ n # cs) = t1 (p @ n # cs)" using t2 unfolding grafted_entries_def by blast
      with assms(3) show ?thesis by (simp add: grafted_def)
    qed
    with t2 same assms(2) show ?thesis by (auto simp: grafted_entries_def)
  qed
qed

section \<open>Paths\<close>

text \<open>The paths of a tree are plain, and short enough on both sides.\<close>

definition path_fits :: "fpath \<Rightarrow> fpath \<Rightarrow> fpath \<Rightarrow> fpath \<Rightarrow> bool" where
  "path_fits rp r p cs \<longleftrightarrow> plain_path rp (r @ cs) \<and> length (canon (p @ cs)) < ISR_PATH_MAX"

lemma join_rel_path: "r \<noteq> [] \<Longrightarrow> join_path (rel_path r) n = rel_path (r @ [n])"
  using canon_rel [of r] canon_rel [of "r @ [n]"] canon_snoc [of r n] by (simp add: join_path_def)

lemma tree_paths_root [simp]: "[] \<in> set (tree_paths t)"
  by (cases t) simp_all

lemma path_fits_entry:
  assumes "path_fits rp r p [n]" "r \<noteq> []" "p \<noteq> []" "rp \<noteq> []"
  shows "plain_root [n]" "n \<noteq> ''.''" "n \<noteq> ''..''" "good_path (rel_path (r @ [n]))"
    "fst (snprintf_path ISR_PATH_MAX (canon p) n) = canon (p @ [n])"
    "fst (snprintf_path ISR_PATH_MAX (rel_path r) n) = rel_path (r @ [n])"
proof -
  note fits = assms(1) [unfolded path_fits_def]
  show n: "plain_root [n]" using fits by (simp add: plain_path_def)
  then show "n \<noteq> ''.''" "n \<noteq> ''..''" by (simp_all add: plain_root_def)
  show good: "good_path (rel_path (r @ [n]))" using fits assms(4) good_rel_path by blast
  show "fst (snprintf_path ISR_PATH_MAX (canon p) n) = canon (p @ [n])"
    unfolding snprintf_path_def join_path_def canon_snoc [OF assms(3), symmetric] using conjunct2 [OF fits] by (simp add: copy_n_def)
  show "fst (snprintf_path ISR_PATH_MAX (rel_path r) n) = rel_path (r @ [n])"
    using conjunct2 [OF good [unfolded good_path_def]] by (simp add: snprintf_path_def join_rel_path [OF assms(2)] copy_n_def)
qed

section \<open>Connections\<close>

text \<open>
  Connections that are waiting, each with what the client expects for its request, and connections
  on which the client has made its requests.
\<close>

definition offered :: "(request \<Rightarrow> sock \<Rightarrow> bool) \<Rightarrow> request list \<Rightarrow> world \<Rightarrow> sock option list \<Rightarrow> bool" where
  "offered await reqs w rest \<longleftrightarrow> (\<exists>cs. conns w = map Some cs @ rest \<and> list_all2 await reqs cs)"

definition asked :: "request list \<Rightarrow> world \<Rightarrow> world \<Rightarrow> sock option list \<Rightarrow> bool" where
  "asked reqs w w' rest \<longleftrightarrow> conns w' = rest \<and>
     (\<exists>cs. closed w' = closed w @ cs \<and> list_all2 (\<lambda>req c. asks req (tx c)) reqs cs)"

lemma offered_append:
  assumes "offered await (a @ b) w rest"
  obtains mid where "offered await a w mid" "\<And>v. conns v = mid \<Longrightarrow> offered await b v rest"
proof -
  obtain cs1 cs2 where "conns w = map Some (cs1 @ cs2) @ rest" "list_all2 await a cs1" "list_all2 await b cs2"
    using assms unfolding offered_def list_all2_append1 by blast
  with that [of "map Some cs2 @ rest"] show ?thesis by (auto simp: offered_def)
qed

lemma asked_trans: "asked a w v mid \<Longrightarrow> asked b v w' rest \<Longrightarrow> asked (a @ b) w w' rest"
  unfolding asked_def by (auto intro: list_all2_appendI)

lemma asked_nothing [simp]: "asked [] w w rest \<longleftrightarrow> conns w = rest"
  by (simp add: asked_def)

lemma asked_print [simp]:
  "asked reqs w (print l w') rest \<longleftrightarrow> asked reqs w w' rest" "asked reqs (print l w) w' rest \<longleftrightarrow> asked reqs w w' rest"
  "asked reqs w (set_host h w') rest \<longleftrightarrow> asked reqs w w' rest" "asked reqs (set_host h w) w' rest \<longleftrightarrow> asked reqs w w' rest"
  by (simp_all add: asked_def)

lemma offered_print [simp]:
  "offered await reqs (print l w) rest \<longleftrightarrow> offered await reqs w rest"
  "offered await reqs (set_host h w) rest \<longleftrightarrow> offered await reqs w rest"
  by (simp_all add: offered_def)

lemma offered_nothing [simp]: "offered await [] w rest \<longleftrightarrow> conns w = rest"
  by (simp add: offered_def)

lemma offered_single:
  assumes "offered await [req] w rest"
  obtains c where "conns w = Some c # rest" "await req c"
  using assms by (auto simp: offered_def list_all2_Cons1)

text \<open>The bytes that one side sent arrive at the other, on a connection that holds.\<close>

definition receives :: "sock \<Rightarrow> sock option \<times> string \<Rightarrow> bool" where
  "receives c x \<longleftrightarrow> (\<exists>s. fst x = Some s \<and> sock_ok s \<and> tx_live s \<and> tx s = [] \<and> pending s = tx c)"

lemma receives_asks:
  assumes "list_all2 (\<lambda>req c. asks req (tx c)) reqs cs" "list_all2 receives cs accepted"
    and "\<forall>req \<in> set reqs. plain_path rp (path_of req) \<and> options_ok req"
  shows "list_all2 (client_asks rp) reqs accepted"
proof (rule list_all2_all_nthI)
  have len: "length reqs = length cs" "length cs = length accepted" using assms(1,2) list_all2_lengthD by blast+
  then show "length reqs = length accepted" by simp
  fix i
  assume i: "i < length reqs"
  have "asks (reqs ! i) (tx (cs ! i))" "receives (cs ! i) (accepted ! i)" "reqs ! i \<in> set reqs"
    using i len list_all2_nthD [OF assms(1) i] list_all2_nthD [OF assms(2)] by simp_all
  with assms(3) show "client_asks rp (reqs ! i) (accepted ! i)" by (auto simp: client_asks_def receives_def)
qed

section \<open>Examples\<close>

lemma host0_tree_ok:
  assumes "list_all (\<lambda>(q, nd). q \<noteq> [] \<and> (butlast q = [] \<or> map_of ns (butlast q) = Some Dir)) ns"
  shows "tree_ok (host0 ns)"
proof -
  have "node_at (host0 ns) p = Some Dir" if node: "node_at (host0 ns) (p @ [c]) \<noteq> None" for p c
  proof -
    obtain nd where "(p @ [c], nd) \<in> set ns" using node by (auto dest: map_of_SomeD)
    with assms show ?thesis by (auto simp: list_all_iff)
  qed
  then show ?thesis by (simp add: tree_ok_def)
qed

lemma length_dir_entries: "length (dir_entries h p) \<le> length (nodes h)"
proof -
  have "length (dir_entries h p) \<le> length (remdups (map fst (nodes h)))"
    unfolding dir_entries_def length_map by (rule length_filter_le)
  also have "\<dots> \<le> length (nodes h)" using length_remdups_leq [of "map fst (nodes h)"] by simp
  finally show ?thesis .
qed

text \<open>A directory with a file \<open>x\<close> and a directory \<open>d\<close> that holds a file \<open>y\<close>.\<close>

definition ex_entries :: entries where
  "ex_entries = Entry ''x'' (Leaf [7]) (Entry ''d'' (Branch (Entry ''y'' (Leaf [8]) No_Entry)) No_Entry)"

lemma ex_tree_fits: "\<forall>cs \<in> set (tree_paths (Branch ex_entries)). path_fits [''srv''] [''t''] [''t''] cs"
  by (simp add: ex_entries_def path_fits_def plain_path_def plain_root_def is_sep_def backslash_def canon_def ISR_PATH_MAX_def)

end
