(* ===== verification/Tree_Upload.thy ===== *)
theory Tree_Upload
  imports Trees
begin

text \<open>
  The upload of a directory tree from end to end: the requests that \<open>isr_cli_send_directory\<close>
  makes, in its order, what the client does with the answers to them, and what they leave on the
  server, which is a copy of the tree of the client.
\<close>

section \<open>The requests of an upload\<close>

primrec upload_requests :: "fpath \<Rightarrow> u8 \<Rightarrow> u32 \<Rightarrow> dir_tree \<Rightarrow> request list"
  and entry_requests :: "fpath \<Rightarrow> u8 \<Rightarrow> u32 \<Rightarrow> entries \<Rightarrow> request list" where
  "upload_requests r flags b (Leaf data) = [Put r flags b data]"
| "upload_requests r flags b (Branch es) = Make r # entry_requests r flags b es"
| "entry_requests r flags b No_Entry = []"
| "entry_requests r flags b (Entry n t es) = upload_requests (r @ [n]) flags b t @ entry_requests r flags b es"

fun welcomes :: "request \<Rightarrow> answer" where
  "welcomes (Put cs flags b data) = Stored False"
| "welcomes (Make cs) = Made"
| "welcomes (Get cs flags b) = Missing"

lemma serve_all_append:
  assumes "serve_all rp a t = (anss, t1)" "serve_all rp b t1 = (anss', t2)"
  shows "serve_all rp (a @ b) t = (anss @ anss', t2)"
  using assms by (induction a arbitrary: t anss) (auto split: prod.splits)

text \<open>Requests for a free place are all taken, and put the tree there.\<close>

lemma serve_upload:
  shows "rp @ r \<noteq> [] \<Longrightarrow> \<not> file_above t (rp @ r) \<Longrightarrow> \<forall>cs. t (rp @ r @ cs) = None \<Longrightarrow>
      distinct_names tr \<Longrightarrow> \<exists>t'. serve_all rp (upload_requests r flags b tr) t = (map welcomes (upload_requests r flags b tr), t') \<and>
        grafted (rp @ r) tr t t'"
    and "free_below (rp @ r) (set (entry_names es)) t \<Longrightarrow>
      distinct_entries es \<Longrightarrow> \<exists>t'. serve_all rp (entry_requests r flags b es) t = (map welcomes (entry_requests r flags b es), t') \<and>
        grafted_entries (rp @ r) es t t'"
proof (induction tr and es arbitrary: r t and r t)
  case (Leaf data)
  have "t (rp @ r) = None" using Leaf.prems(3) [rule_format, of "[]"] by simp
  with Leaf grafted_leaf [of t "rp @ r" data] show ?case by auto
next
  case (Branch es)
  have none: "\<forall>cs. t ((rp @ r) @ cs) = None" and "distinct_entries es" using Branch.prems(3,4) by simp_all
  from Branch.IH [OF free_below_Make [OF Branch.prems(2) none] this(2)]
  obtain t' where t': "serve_all rp (entry_requests r flags b es) (with_dirs (rp @ r) t) =
      (map welcomes (entry_requests r flags b es), t')" "grafted_entries (rp @ r) es (with_dirs (rp @ r) t) t'"
    by blast
  with grafted_branch [OF t'(2) none] Branch.prems(2) show ?case by auto
next
  case (Entry n tr es)
  have n: "n \<in> set (entry_names (Entry n tr es))" by simp
  note child = free_below_child [OF Entry.prems(1) n]
  from Entry.IH(1) [of "r @ [n]" t] child(1,2) Entry.prems(2) obtain t1 where t1:
    "serve_all rp (upload_requests (r @ [n]) flags b tr) t = (map welcomes (upload_requests (r @ [n]) flags b tr), t1)"
    "grafted ((rp @ r) @ [n]) tr t t1"
    by auto
  have fresh: "n \<notin> set (entry_names es)" "free_below (rp @ r) (set (n # entry_names es)) t" using Entry.prems by simp_all
  from Entry.IH(2) [OF grafted_entry(1) [OF fresh(2,1) t1(2)]] Entry.prems(2) obtain t2 where t2:
    "serve_all rp (entry_requests r flags b es) t1 = (map welcomes (entry_requests r flags b es), t2)"
    "grafted_entries (rp @ r) es t1 t2"
    by auto
  from serve_all_append [OF t1(1) t2(1)] grafted_entry(2) [OF fresh(2,1) t1(2) t2(2)] show ?case by auto
qed (simp add: grafted_entries_def)

section \<open>The client\<close>

text \<open>A host whose files can be read and sent.\<close>

definition source_ok :: "u8 \<Rightarrow> u32 \<Rightarrow> host \<Rightarrow> bool" where
  "source_ok flags b h \<longleftrightarrow> tree_ok h \<and> no_links h \<and> (\<forall>q. \<not> deny h q) \<and> rd_live h \<and>
     can_compress (has_flag flags ISR_FLAG_USE_COMPRESSION) b h \<and> (\<forall>q bs. node_at h q = Some (File bs) \<longrightarrow> length bs < 2 ^ 55)"

lemma source_ok_reads: "source_ok flags b h \<Longrightarrow> reads h h' \<Longrightarrow> source_ok flags b h'"
  using reads_node_at [of h h']
  by (simp add: source_ok_def reads_def tree_ok_def no_links_def can_compress_def heap_ok_def malloc_def)

definition awaits :: "request \<Rightarrow> sock \<Rightarrow> bool" where
  "awaits req c \<longleftrightarrow> sock_ok c \<and> tx_live c \<and> tx c = [] \<and> tells (welcomes req) [] (pending c)"

text \<open>The client has made its requests, and only read on its host.\<close>

definition sent :: "request list \<Rightarrow> world \<Rightarrow> world \<Rightarrow> sock option list \<Rightarrow> bool" where
  "sent reqs w w' rest \<longleftrightarrow> asked reqs w w' rest \<and> reads (the_host w) (the_host w')"

lemma sent_trans: "sent a w v mid \<Longrightarrow> sent b v w' rest \<Longrightarrow> sent (a @ b) w w' rest"
  unfolding sent_def using asked_trans reads_trans by blast

lemma sent_print [simp]:
  "sent reqs w (print l w') rest \<longleftrightarrow> sent reqs w w' rest" "sent reqs (print l w) w' rest \<longleftrightarrow> sent reqs w w' rest"
  by (simp_all add: sent_def)

text \<open>One directory and one file.\<close>

lemma client_make:
  assumes "offered awaits [Make r] w rest" "good_path (rel_path r)"
  shows "\<exists>w'. isr_cli_send_mkdir host port (rel_path r) w = Some (0, w') \<and> sent [Make r] w w' rest"
proof -
  obtain c where c: "conns w = Some c # rest" "sock_ok c" "tx_live c" "tx c = []"
    "pending c = enc_response (isr_response_from_result ISR_RESULT_OK) @ []"
    using assms(1) by (auto simp: awaits_def elim: offered_single)
  have len: "length (rel_path r) < 65536" using assms(2) by (simp add: good_path_def ISR_PATH_MAX_def)
  obtain w1 where w1: "net_connect host port w = (Some c, w1)" "the_host w1 = the_host w" "closed w1 = closed w" "conns w1 = rest"
    using c(1) by (simp add: net_connect_def)
  obtain s1 where s1: "isr_transmit_send_command c (rel_path r) ISR_FLAG_CREATE_DIRECTORY 0 0 = (True, s1)"
    "tx s1 = tx c @ send_request (rel_path r) ISR_FLAG_CREATE_DIRECTORY 0 0" "pending s1 = pending c" "sock_ok s1 = sock_ok c"
    using isr_transmit_send_command_live [OF c(3) len] .
  have "sock_ok s1" "pending s1 = enc_response (isr_response_from_result ISR_RESULT_OK) @ []" using s1 c by simp_all
  then obtain bs s2 where "net_recv_exact s1 255 = (Some bs, s2)" "response_type (dec_response bs) = ISR_RESULT_OK" "tx s2 = tx s1"
    by (rule recv_response) simp
  with w1 s1 c(4) have "isr_cli_send_mkdir host port (rel_path r) w = Some (0, net_close s2 w1) \<and>
      sent [Make r] w (net_close s2 w1) rest"
    by (simp add: isr_cli_send_mkdir_def Let_def sent_def asked_def)
  then show ?thesis by blast
qed

lemma client_put:
  assumes "offered awaits [Put r flags b data] w rest" "source_ok flags b (the_host w)" "good_path (rel_path r)"
    and "node_at (the_host w) p = Some (File data)" "plain_root p" "p \<noteq> []"
  shows "\<exists>w'. isr_cli_send_file host port (rel_path r) (canon p) flags b w = Some (0, w') \<and> sent [Put r flags b data] w w' rest"
proof -
  note ok = assms(2) [unfolded source_ok_def]
  obtain c where c: "conns w = Some c # rest" "sock_ok c" "tx_live c" "tx c = []"
    "pending c = enc_response (isr_response_from_result (answer_type None)) @ enc_response (isr_response_from_result ISR_RESULT_OK) @ []"
    using assms(1) by (auto simp: awaits_def answer_type_def elim: offered_single)
  have found: "lookup (the_host w) (canon p) True = Found p"
    using ok assms(4) lookup_canon [of "the_host w" p True] tree_ok_not_blocked [of "the_host w" p] assms(5,6) by simp
  have len: "length (rel_path r) < 65536" using assms(3) by (simp add: good_path_def ISR_PATH_MAX_def)
  have "\<not> deny (the_host w) p" "rd_live (the_host w)" "can_compress (has_flag flags ISR_FLAG_USE_COMPRESSION) b (the_host w)"
    "length data < 2 ^ 55"
    using ok assms(4) by blast+
  from client_upload [OF found assms(4) this len c(1-3,5), of host port] c(4) show ?thesis
    by (auto simp: sent_def asked_def)
qed

definition send_tree :: "string \<Rightarrow> string \<Rightarrow> u8 \<Rightarrow> u32 \<Rightarrow> dir_tree \<Rightarrow> transfer" where
  "send_tree host port flags b t remote local =
     (case t of Leaf data \<Rightarrow> isr_cli_send_file host port remote local flags b
      | Branch es \<Rightarrow> isr_cli_send_directory host port remote local flags b)"

text \<open>An entry of the loop: the paths are joined, the kind of the entry is looked up, and it is sent.\<close>

definition announced :: "string \<Rightarrow> string \<Rightarrow> dir_tree \<Rightarrow> world \<Rightarrow> world" where
  "announced local remote t w =
     (case t of Leaf data \<Rightarrow> print (''  Uploading: '' @ local @ '' -> '' @ remote) w | Branch es \<Rightarrow> w)"

lemma announced_simps [simp]:
  "offered awaits reqs (announced local remote t w) rest \<longleftrightarrow> offered awaits reqs w rest"
  "sent reqs (announced local remote t w) w' rest \<longleftrightarrow> sent reqs w w' rest"
  "reads (the_host w) (the_host (announced local remote t w))"
  by (cases t; simp add: announced_def)+

abbreviation send_loop :: "string \<Rightarrow> string \<Rightarrow> u8 \<Rightarrow> u32 \<Rightarrow> string \<Rightarrow> string \<Rightarrow> string list \<Rightarrow> world \<Rightarrow> (int \<times> world) option" where
  "send_loop host port flags b remote local ds w \<equiv>
     send_entries (\<lambda>remote local. isr_cli_send_directory host port remote local flags b)
       (\<lambda>remote local. isr_cli_send_file host port remote local flags b) remote local ds 0 w"

lemma send_entries_step:
  assumes "source_ok flags b (the_host w)" "holds_tree (the_host w) (p @ [n]) t" "path_fits rp r p [n]"
    and "r \<noteq> []" "p \<noteq> []" "plain_root p" "rp \<noteq> []"
    and "send_tree host port flags b t (rel_path (r @ [n])) (canon (p @ [n]))
      (announced (canon (p @ [n])) (rel_path (r @ [n])) t w) = Some (0, w1)"
  shows "send_loop host port flags b (rel_path r) (canon p) (n # ds) w =
    send_loop host port flags b (rel_path r) (canon p) ds w1"
proof -
  note path = path_fits_entry [OF assms(3-5,7)]
  have "plain_root (p @ [n])" using assms(6) path(1) by simp
  then have stat: "isr_stat (the_host w) (canon (p @ [n])) = (case node_at (the_host w) (p @ [n]) of
      Some (File bs) \<Rightarrow> Some (False, word_of_nat (length bs))
    | Some Dir \<Rightarrow> Some (True, word_of_nat (dir_size (the_host w) (p @ [n]))) | _ \<Rightarrow> None)"
    using isr_stat_canon [of "the_host w" "p @ [n]"] assms(1) by (simp add: source_ok_def)
  show ?thesis
  proof (cases t)
    case (Leaf data)
    with assms(2,8) path(2,3,5,6) stat show ?thesis by (simp add: send_tree_def announced_def Let_def)
  next
    case (Branch es)
    with assms(2,8) path(2,3,5,6) stat show ?thesis by (simp add: send_tree_def announced_def Let_def)
  qed
qed

lemma client_tree:
  shows "offered awaits (upload_requests r flags b t) w rest \<Longrightarrow> source_ok flags b (the_host w) \<Longrightarrow> holds_tree (the_host w) p t \<Longrightarrow>
      \<forall>cs \<in> set (tree_paths t). path_fits rp r p cs \<Longrightarrow> plain_root p \<Longrightarrow> p \<noteq> [] \<Longrightarrow> r \<noteq> [] \<Longrightarrow> rp \<noteq> [] \<Longrightarrow>
      \<exists>w'. send_tree host port flags b t (rel_path r) (canon p) w = Some (0, w') \<and> sent (upload_requests r flags b t) w w' rest"
    and "offered awaits (entry_requests r flags b es) w rest \<Longrightarrow> source_ok flags b (the_host w) \<Longrightarrow> holds_entries (the_host w) p es \<Longrightarrow>
      \<forall>cs \<in> set (entry_paths es). path_fits rp r p cs \<Longrightarrow> plain_root p \<Longrightarrow> p \<noteq> [] \<Longrightarrow> r \<noteq> [] \<Longrightarrow> rp \<noteq> [] \<Longrightarrow>
      \<exists>w'. send_loop host port flags b (rel_path r) (canon p) (entry_names es) w = Some (0, w') \<and>
        sent (entry_requests r flags b es) w w' rest"
proof (induction t and es arbitrary: r p w rest and r p w rest)
  case (Leaf data)
  have "good_path (rel_path r)" using Leaf.prems(4,8) good_rel_path [of rp r] by (simp add: path_fits_def)
  with client_put [of r flags b data w rest p host port] Leaf.prems show ?case by (simp add: send_tree_def)
next
  case (Branch es)
  have root: "path_fits rp r p []" and below: "\<forall>cs \<in> set (entry_paths es). path_fits rp r p cs" using Branch.prems(4) by simp_all
  then have good: "good_path (rel_path r)" using Branch.prems(8) good_rel_path [of rp r] by (simp add: path_fits_def)
  let ?w = "print (''Uploading directory: '' @ canon p @ '' -> '' @ rel_path r) w"
  have "offered awaits ([Make r] @ entry_requests r flags b es) ?w rest" using Branch.prems(1) by simp
  from offered_append [OF this] obtain mid where
    mid: "offered awaits [Make r] ?w mid" "\<And>v. conns v = mid \<Longrightarrow> offered awaits (entry_requests r flags b es) v rest"
    by metis
  obtain w1 where w1: "isr_cli_send_mkdir host port (rel_path r) ?w = Some (0, w1)" "sent [Make r] ?w w1 mid"
    using client_make [OF mid(1) good] by blast
  then have asked: "sent [Make r] w w1 mid" and reads: "reads (the_host w) (the_host w1)" and "conns w1 = mid"
    by (simp_all add: sent_def asked_def)
  note host1 = source_ok_reads [OF Branch.prems(2) reads] holds_tree_reads [OF reads]
  have es: "node_at (the_host w1) p = Some Dir" "dir_entries (the_host w1) p = entry_names es" "holds_entries (the_host w1) p es"
    using Branch.prems(3) host1(2) [of p "Branch es"] by simp_all
  have open_dir: "opendir (the_host w1) (canon p) = Some (''.'' # ''..'' # entry_names es)"
    using opendir_canon [of "the_host w1" p] host1(1) es(1,2) Branch.prems(5,6) by (simp add: source_ok_def)
  obtain w2 where w2: "send_loop host port flags b (rel_path r) (canon p) (entry_names es) w1 = Some (0, w2)"
    "sent (entry_requests r flags b es) w1 w2 rest"
    using Branch.IH [OF mid(2) [OF \<open>conns w1 = mid\<close>] host1(1) es(3) below Branch.prems(5-8)] by blast
  have "isr_cli_send_directory host port (rel_path r) (canon p) flags b w =
      Some (0, print (''Directory upload complete: '' @ rel_path r) w2)"
    unfolding send_directory_rec [of host port "rel_path r"] send_directory_with_def Let_def w1(1)
    using open_dir w2(1) by simp
  with sent_trans [OF asked w2(2)] show ?case by (simp add: send_tree_def)
next
  case (Entry n t es)
  have "offered awaits (upload_requests (r @ [n]) flags b t @ entry_requests r flags b es) w rest" using Entry.prems(1) by simp
  then obtain mid where mid: "offered awaits (upload_requests (r @ [n]) flags b t) w mid"
    "\<And>v. conns v = mid \<Longrightarrow> offered awaits (entry_requests r flags b es) v rest"
    using offered_append by metis
  let ?v = "announced (canon (p @ [n])) (rel_path (r @ [n])) t w"
  have here: "path_fits rp r p [n]" "\<forall>cs \<in> set (tree_paths t). path_fits rp (r @ [n]) (p @ [n]) cs"
    "\<forall>cs \<in> set (entry_paths es). path_fits rp r p cs"
    using Entry.prems(4) imageI [OF tree_paths_root [of t], of "Cons n"] by (auto simp: path_fits_def)
  have plain: "plain_root (p @ [n])" using path_fits_entry(1) [OF here(1) Entry.prems(7,6,8)] Entry.prems(5) by simp
  have v: "offered awaits (upload_requests (r @ [n]) flags b t) ?v mid" "reads (the_host w) (the_host ?v)" using mid(1) by simp_all
  have "source_ok flags b (the_host ?v)" "holds_tree (the_host ?v) (p @ [n]) t"
    using source_ok_reads [OF Entry.prems(2) v(2)] holds_tree_reads(1) [OF v(2)] Entry.prems(3) by simp_all
  from Entry.IH(1) [OF v(1) this here(2) plain] Entry.prems(8) obtain w1 where
    w1: "send_tree host port flags b t (rel_path (r @ [n])) (canon (p @ [n])) ?v = Some (0, w1)"
    "sent (upload_requests (r @ [n]) flags b t) w w1 mid"
    by auto
  then have reads: "reads (the_host w) (the_host w1)" and "conns w1 = mid" by (simp_all add: sent_def asked_def)
  have "holds_entries (the_host w1) p es" using Entry.prems(3) holds_tree_reads(2) [OF reads] by simp
  from Entry.IH(2) [OF mid(2) [OF \<open>conns w1 = mid\<close>] source_ok_reads [OF Entry.prems(2) reads] this here(3) Entry.prems(5-8)]
  obtain w2 where "send_loop host port flags b (rel_path r) (canon p) (entry_names es) w1 = Some (0, w2)"
    "sent (entry_requests r flags b es) w1 w2 rest"
    by blast
  with sent_trans [OF w1(2)] send_entries_step [OF Entry.prems(2) _ here(1) Entry.prems(7,6,5,8) w1(1)] Entry.prems(3)
  show ?case by (simp del: send_entries.simps)
next
  case No_Entry
  then show ?case by (auto simp: offered_def sent_def asked_def)
qed

section \<open>Client and server\<close>

text \<open>The requests are for plain paths, and their options are in order.\<close>

lemma upload_requests_ok:
  assumes "source_ok flags b h" "\<not> has_flag flags ISR_FLAG_CREATE_DIRECTORY"
  shows "holds_tree h p t \<Longrightarrow> \<forall>cs \<in> set (tree_paths t). path_fits rp r p cs \<Longrightarrow>
      \<forall>req \<in> set (upload_requests r flags b t). plain_path rp (path_of req) \<and> options_ok req"
    and "holds_entries h p es \<Longrightarrow> \<forall>cs \<in> set (entry_paths es). path_fits rp r p cs \<Longrightarrow>
      \<forall>req \<in> set (entry_requests r flags b es). plain_path rp (path_of req) \<and> options_ok req"
proof (induction t and es arbitrary: r p and r p)
  case (Leaf data)
  with assms show ?case by (auto simp: path_fits_def source_ok_def can_compress_def)
next
  case (Branch es)
  from Branch.IH [of p r] Branch.prems show ?case by (simp add: path_fits_def)
next
  case (Entry n t es)
  from Entry.IH(1) [of "p @ [n]" "r @ [n]"] Entry.IH(2) [of p r] Entry.prems show ?case
    by (auto simp: path_fits_def)
qed simp

lemma welcomes_unique: "tells (welcomes req) [] a \<Longrightarrow> tells (welcomes req) [] b \<Longrightarrow> a = b"
  by (cases req) simp_all

lemma answers_as_awaited:
  assumes "list_all2 (\<lambda>ans s. tells ans [] (tx s)) (map welcomes reqs) ss" "list_all2 awaits reqs cs"
  shows "map tx ss = map pending cs"
proof (rule nth_equalityI)
  show "length (map tx ss) = length (map pending cs)" using assms by (simp add: list_all2_conv_all_nth)
  show "map tx ss ! i = map pending cs ! i" if "i < length (map tx ss)" for i
    using assms that welcomes_unique [of "reqs ! i"] by (simp add: list_all2_conv_all_nth awaits_def)
qed

text \<open>
  The upload of a directory tree from end to end. When the place asked for is free, the client of
  \<open>isr send\<close> on a directory makes its requests in such an order that the server takes them all,
  with the very answers that the client was given, and when they are served the tree of the client
  stands on the server under the path asked for, node by node; apart from the directories above it
  nothing has changed. The client itself changes nothing on its host.
\<close>

theorem tree_upload:
  assumes "source_ok flags b (the_host w)" "\<not> has_flag flags ISR_FLAG_CREATE_DIRECTORY"
    and "holds_tree (the_host w) p (Branch es)" "plain_root p" "p \<noteq> []"
    and "\<forall>cs \<in> set (tree_paths (Branch es)). path_fits rp r p cs"
    and "conns w = map Some cs @ rest" "list_all2 awaits (upload_requests r flags b (Branch es)) cs"
    and "server_ok rp h" "node_at h (rp @ r) = None" "\<not> file_above (node_at h) (rp @ r)"
  shows "\<exists>w' cs'. isr_cli_send_directory host port (rel_path r) (canon p) flags b w = Some (0, w') \<and>
    closed w' = closed w @ cs' \<and> conns w' = rest \<and> reads (the_host w) (the_host w') \<and>
    (\<forall>accepted. list_all2 receives cs' accepted \<longrightarrow>
      (\<exists>h' ss. accept_loop (canon rp) accepted h [] = Some (h', ss) \<and> map tx ss = map pending cs \<and>
        (\<forall>q. node_at h' (rp @ r @ q) = node_at (the_host w) (p @ q)) \<and>
        (\<forall>q. \<not> prefix (rp @ r) q \<longrightarrow> node_at h' q = with_dirs (rp @ r) (node_at h) q)))"
proof -
  let ?reqs = "upload_requests r flags b (Branch es)"
  have "path_fits rp r p []" using assms(6) by simp
  then have r: "r \<noteq> []" and rp: "rp \<noteq> []" using assms(9) by (auto simp: path_fits_def plain_path_def server_ok_def)
  have "offered awaits ?reqs w rest" using assms(7,8) by (auto simp: offered_def)
  from client_tree(1) [OF this assms(1,3,6,4,5) r rp, of host port] obtain w' cs' where
    run: "isr_cli_send_directory host port (rel_path r) (canon p) flags b w = Some (0, w')" "conns w' = rest"
    "reads (the_host w) (the_host w')" "closed w' = closed w @ cs'" "list_all2 (\<lambda>req c. asks req (tx c)) ?reqs cs'"
    by (auto simp: send_tree_def sent_def asked_def)
  have tree: "tree_ok h" using assms(9) by (simp add: server_ok_def)
  have "node_at h (rp @ r @ q) = None" for q
    using tree_ok_prefix [OF tree, of "rp @ r @ q" "rp @ r"] assms(10) by (cases "node_at h (rp @ r @ q)") auto
  with serve_upload(1) [of rp r "node_at h" "Branch es" flags b] rp assms(11) holds_tree_distinct(1) [OF assms(3)] obtain t where
    t: "serve_all rp ?reqs (node_at h) = (map welcomes ?reqs, t)" "grafted (rp @ r) (Branch es) (node_at h) t"
    by auto
  have "\<exists>h' ss. accept_loop (canon rp) accepted h [] = Some (h', ss) \<and> map tx ss = map pending cs \<and>
      (\<forall>q. node_at h' (rp @ r @ q) = node_at (the_host w) (p @ q)) \<and>
      (\<forall>q. \<not> prefix (rp @ r) q \<longrightarrow> node_at h' q = with_dirs (rp @ r) (node_at h) q)"
    if "list_all2 receives cs' accepted" for accepted
  proof -
    note asked = receives_asks [OF run(5) that upload_requests_ok(1) [OF assms(1-3,6)]]
    from serve_requests [OF assms(9) asked, of "[]"] t(1) obtain h' ss where
      h': "accept_loop (canon rp) accepted h [] = Some (h', ss)" "node_at h' = t"
      "list_all2 (\<lambda>ans s. tells ans [] (tx s)) (map welcomes ?reqs) ss"
      by auto
    have "tree_ok (the_host w)" using assms(1) by (simp add: source_ok_def)
    from holds_tree_at(1) [OF this assms(3)] t(2) h' answers_as_awaited [OF h'(3) assms(8)] show ?thesis
      by (simp add: grafted_def)
  qed
  with run show ?thesis by blast
qed

text \<open>The directory \<open>/t\<close> with a file and a directory with a file, for the example.\<close>

definition ex_tree_nodes :: "(fpath \<times> node) list" where
  "ex_tree_nodes = [([''t''], Dir), ([''t'', ''x''], File [7]), ([''t'', ''d''], Dir), ([''t'', ''d'', ''y''], File [8])]"

definition ex_answers :: "sock list" where
  "ex_answers = map (\<lambda>a. sock0 a) [enc_response (isr_response_from_result ISR_RESULT_OK), upload_answer False,
     enc_response (isr_response_from_result ISR_RESULT_OK), upload_answer False]"

definition ex_tree_client :: world where
  "ex_tree_client = \<lparr>the_host = host0 ex_tree_nodes, conns = map Some ex_answers, closed = [], dialled = []\<rparr>"

lemma ex_tree_source: "source_ok 0 0 (host0 ex_tree_nodes)"
proof -
  have "tree_ok (host0 ex_tree_nodes)" by (rule host0_tree_ok) (simp add: ex_tree_nodes_def)
  moreover have "\<not> has_flag 0 x" for x by (simp add: has_flag_def)
  ultimately show ?thesis
    by (auto simp: source_ok_def no_links_def can_compress_def) (auto simp: ex_tree_nodes_def split: if_splits)
qed

lemma ex_tree_holds: "holds_tree (host0 ex_tree_nodes) [''t''] (Branch ex_entries)"
  by (simp_all add: ex_entries_def ex_tree_nodes_def dir_entries_def) (simp add: host0_def)

lemma ex_tree_awaits: "list_all2 awaits (upload_requests [''t''] 0 0 (Branch ex_entries)) ex_answers"
  by (simp add: ex_entries_def ex_answers_def awaits_def upload_answer_def)

end
