(* ===== verification/Tree_Download.thy ===== *)
theory Tree_Download
  imports Trees
begin

text \<open>
  The download of a directory tree from end to end: the requests that
  \<open>isr_cli_download_directory\<close> makes for a listing and, entry by entry, for what it finds
  there, what the server answers, and what the answers leave on the host of the client, which is a
  copy of the tree of the server.
\<close>

section \<open>The requests of a download and the answers\<close>

primrec download_requests :: "fpath \<Rightarrow> u8 \<Rightarrow> u32 \<Rightarrow> dir_tree \<Rightarrow> request list"
  and entry_downloads :: "fpath \<Rightarrow> u8 \<Rightarrow> u32 \<Rightarrow> entries \<Rightarrow> request list" where
  "download_requests r flags b (Leaf data) = [Get r flags b]"
| "download_requests r flags b (Branch es) = Get r flags b # entry_downloads r flags b es"
| "entry_downloads r flags b No_Entry = []"
| "entry_downloads r flags b (Entry n t es) = download_requests (r @ [n]) flags b t @ entry_downloads r flags b es"

text \<open>The bytes that a server with the tree of \<open>h\<close> answers a request for something that is there.\<close>

fun supplies :: "host \<Rightarrow> fpath \<Rightarrow> request \<Rightarrow> bytes \<Rightarrow> bool" where
  "supplies h rp (Get cs flags b) z \<longleftrightarrow>
     (case node_at h (rp @ cs) of
        Some (File data) \<Rightarrow> tells (Sent (has_flag flags ISR_FLAG_USE_COMPRESSION) b data) [] z
      | Some Dir \<Rightarrow> z = listing_bytes (listing h (rp @ cs))
      | _ \<Rightarrow> False)"
| "supplies h rp (Put cs flags b data) z \<longleftrightarrow> False"
| "supplies h rp (Make cs) z \<longleftrightarrow> False"

text \<open>No directory is so large that listing it could exhaust the memory.\<close>

definition uncrowded :: "host \<Rightarrow> bool" where
  "uncrowded h \<longleftrightarrow> (\<forall>q. length (dir_entries h q) < 2 ^ 20)"

fun gets :: "host \<Rightarrow> fpath \<Rightarrow> request \<Rightarrow> bool" where
  "gets h rp (Get cs flags b) \<longleftrightarrow> node_at h (rp @ cs) \<noteq> None"
| "gets h rp req \<longleftrightarrow> False"

lemma reads_same:
  assumes "reads h h'"
  shows "node_at h' = node_at h" "dir_entries h' = dir_entries h" "listing h' = listing h"
    "supplies h' rp req z = supplies h rp req z" "gets h' rp req = gets h rp req" "uncrowded h' = uncrowded h"
proof -
  show node: "node_at h' = node_at h" using assms by (rule reads_node_at)
  show dir: "dir_entries h' = dir_entries h" using assms by (auto simp: reads_def dir_entries_def)
  have "cwd h' = cwd h" "dir_size h' = dir_size h" using assms by (simp_all add: reads_def)
  moreover from this have "lookup h' s fl = lookup h s fl" for s fl by (simp add: lookup_def node split: list.split)
  ultimately have "isr_stat h' s = isr_stat h s" for s
    by (simp add: isr_stat_def node split: place.split option.split node.split)
  then show listing: "listing h' = listing h" by (simp add: fun_eq_iff listing_def served_def served_entry_def dir)
  show "supplies h' rp req z = supplies h rp req z" 
    by (cases req) (simp_all add: node listing split: option.split node.split)
  show "gets h' rp req = gets h rp req" by (cases req) (simp_all add: node)
  show "uncrowded h' = uncrowded h" by (simp add: uncrowded_def dir)
qed

lemma supply_one:
  assumes "server_ok rp h" "plain_path rp (path_of req)" "options_ok req" "asks req (pending s)" "sock_ok s" "tx_live s"
    and "tx s = []" "gets h rp req" "uncrowded h"
  shows "\<exists>s' h' info'. isr_receive_command (canon rp) s h info = Some (0, s', h', info') \<and> reads h h' \<and>
    server_ok rp h' \<and> supplies h rp req (tx s')"
proof -
  obtain cs flags b where req: "req = Get cs flags b" "node_at h (rp @ cs) \<noteq> None"
    using assms(8) by (cases req) auto
  note get = assms(1) assms(2-4) [unfolded req(1) path_of.simps] assms(5,6)
  obtain r s' h' info' ans where ok: "isr_receive_command (canon rp) s h info = Some (r, s', h', info')" "server_ok rp h'"
    using serve_request [OF assms(1-6), of info] by blast
  have links: "no_links h" using assms(1) by (simp add: server_ok_def)
  consider (dir) "node_at h (rp @ cs) = Some Dir" | (data) data where "node_at h (rp @ cs) = Some (File data)"
    using req(2) links by (cases "node_at h (rp @ cs)"; cases "the (node_at h (rp @ cs))") (auto simp: no_links_def)
  then show ?thesis
  proof cases
    case dir
    have "\<not> 2 ^ 20 \<le> length (dir_entries h (rp @ cs))" using assms(9) by (simp add: uncrowded_def not_le)
    with serve_listing [OF get(1,2,4-6) dir, of info] ok assms(7) dir show ?thesis
      by (auto simp: req(1))
  next
    case data
    from serve_get [OF get, of info] ok(1) data assms(7) have
      "rd_only h h'" "rd_live h'" "tells (Sent (has_flag flags ISR_FLAG_USE_COMPRESSION) b data) [] (tx s')" "r = 0"
      by (auto simp del: tells.simps)
    with ok data rd_only_reads show ?thesis by (simp add: req(1) del: tells.simps)
  qed
qed

lemma supply_all:
  assumes "server_ok rp h" "list_all2 (client_asks rp) reqs cs" "\<forall>req \<in> set reqs. gets h rp req" "uncrowded h"
  shows "\<exists>h' ss. accept_loop (canon rp) cs h d = Some (h', d @ ss) \<and> reads h h' \<and>
    list_all2 (\<lambda>req s. supplies h rp req (tx s)) reqs ss"
  using assms(2,1,3,4)
proof (induction reqs cs arbitrary: h d rule: list_all2_induct)
  case Nil
  then show ?case by simp
next
  case (Cons req reqs c cs)
  obtain s peer where c: "c = (Some s, peer)" "plain_path rp (path_of req)" "options_ok req" "asks req (pending s)"
    "sock_ok s" "tx_live s" "tx s = []"
    using Cons.hyps(1) by (cases c) (auto simp: client_asks_def)
  have "gets h rp req" using Cons.prems(2) by simp
  from supply_one [OF Cons.prems(1) c(2-7) this Cons.prems(3), of info0] obtain s1 h1 info where
    run: "isr_receive_command (canon rp) s h info0 = Some (0, s1, h1, info)" "reads h h1" "server_ok rp h1" "supplies h rp req (tx s1)"
    by blast
  obtain line where line: "log_request peer info 0 h1 = say line h1" using log_request_say by blast
  have reads: "reads h (say line h1)" and "server_ok rp (say line h1)" using run(2,3) by simp_all
  note same = reads_same [OF reads]
  from Cons.IH [of "say line h1" "d @ [s1]"] \<open>server_ok rp (say line h1)\<close> Cons.prems(2,3) same(5,6) obtain h' ss where
    rest: "accept_loop (canon rp) cs (say line h1) (d @ [s1]) = Some (h', (d @ [s1]) @ ss)" "reads (say line h1) h'"
    "list_all2 (\<lambda>req s. supplies (say line h1) rp req (tx s)) reqs ss"
    by auto
  have "reads h h'" using reads_trans [OF reads rest(2)] .
  with run rest c(1) line same(4) show ?case
    by (intro exI [of _ h'] exI [of _ "s1 # ss"]) simp
qed

section \<open>The client\<close>

text \<open>A host on which files and directories can be made.\<close>

definition sink_ok :: "u8 \<Rightarrow> u32 \<Rightarrow> host \<Rightarrow> bool" where
  "sink_ok flags b h \<longleftrightarrow> tree_ok h \<and> no_links h \<and> (\<forall>q. \<not> deny h q) \<and> wr_live h \<and> heap_ok h \<and>
     (\<forall>n < 2 ^ 31. malloc h n \<noteq> None) \<and> can_compress (has_flag flags ISR_FLAG_USE_COMPRESSION) b h"

lemma sink_ok_evolves:
  assumes "sink_ok flags b h" "evolves h h'" "deny h' = deny h" "wr_live h'"
  shows "sink_ok flags b h'"
  using assms evolves_tree_ok [OF assms(2)] evolves_no_links [OF assms(2)]
  by (simp add: sink_ok_def evolves_def heap_ok_def malloc_def can_compress_def)

lemma sink_ok_say [simp]: "sink_ok flags b (say line h) \<longleftrightarrow> sink_ok flags b h"
  by (simp add: sink_ok_def host_invariants can_compress_def) (simp add: say_def)

definition expects :: "host \<Rightarrow> fpath \<Rightarrow> request \<Rightarrow> sock \<Rightarrow> bool" where
  "expects h rp req c \<longleftrightarrow> sock_ok c \<and> tx_live c \<and> tx c = [] \<and> supplies h rp req (pending c)"

lemma writes_evolves:
  assumes "writes p h h'" "node_at h p = Some (File a)" "node_at h' p = Some (File b)"
  shows "evolves h h'"
  unfolding evolves_def
proof (intro conjI allI)
  show "heap_at h' = heap_at h" using assms(1) by (simp add: writes_def)
  show "kind_step (has_parent h' q) (node_at h q) (node_at h' q)" for q
    using assms by (cases "q = p") (auto simp: writes_def kind_step_def)
qed

text \<open>One file, at a free place.\<close>

lemma client_get:
  assumes "offered (expects hs rp) [Get r flags b] w rest" "node_at hs (rp @ r) = Some (File data)" "length data < 2 ^ 55"
    and "good_path (rel_path r)" "sink_ok flags b (the_host w)" "plain_root p" "butlast p \<noteq> []" "length (canon p) < ISR_PATH_MAX"
    and "\<not> file_above (node_at (the_host w)) p" "node_at (the_host w) p = None"
  shows "\<exists>w'. isr_cli_download_file host port (rel_path r) (canon p) flags b w = Some (0, w') \<and>
    asked [Get r flags b] w w' rest \<and> sink_ok flags b (the_host w') \<and>
    node_at (the_host w') = put_file p data (node_at (the_host w))"
proof -
  let ?h = "the_host w" and ?h1 = "made_parents (the_host w) (canon p)" and ?f = "\<lparr>fd_path = p, fd_pos = 0\<rparr>"
  let ?h2 = "put_node p (File []) ?h1"
  note ok = assms(5) [unfolded sink_ok_def]
  have p: "p \<noteq> []" using assms(7) by auto
  obtain c where c: "conns w = Some c # rest" "sock_ok c" "tx_live c" "tx c = []"
    "tells (Sent (has_flag flags ISR_FLAG_USE_COMPRESSION) b data) [] (pending c)"
    using assms(1,2) by (auto simp: expects_def simp del: tells.simps elim: offered_single)
  then obtain pl where pl: "is_payload (has_flag flags ISR_FLAG_USE_COMPRESSION) b data pl"
    "pending c = enc_confirmation \<lparr>conf_type = ISR_RECV_TYPE_FILE, conf_length = word_of_nat (length data)\<rparr> @ pl"
    by auto
  have h1: "same_env ?h ?h1" "node_at ?h1 = with_dirs (butlast p) (node_at ?h)"
    using made_parents_canon [of ?h p] ok assms(6-9) by auto
  have "node_at ?h1 p \<noteq> Some Dir" using assms(10) not_prefix_butlast [OF p] by (simp add: h1(2) with_dirs_def)
  moreover have "\<not> blocked (node_at ?h1) p" unfolding h1(2) using not_blocked_parents ok assms(9) by blast
  ultimately have opened: "isr_open_write ?h1 (canon p) = (Some ?f, ?h2)"
    using put_file_node [OF h1 _ _ assms(6) p] ok by blast
  have h2: "wr_live ?h2" "can_compress (has_flag flags ISR_FLAG_USE_COMPRESSION) b ?h2"
    using ok h1(1) by (simp_all add: wr_live_def same_env_def can_compress_def heap_ok_def malloc_def)
  have len: "length (rel_path r) < 65536" using assms(4) by (simp add: good_path_def ISR_PATH_MAX_def)
  from client_download [OF c(1-3) len assms(3) pl opened h2, of host port] c(4) obtain w' c' where
    run: "isr_cli_download_file host port (rel_path r) (canon p) flags b w = Some (0, w')" "closed w' = closed w @ [c']"
    "tx c' = recv_request (rel_path r) flags b @ [ISR_RECV_GO]" "node_at (the_host w') p = Some (File data)"
    "writes p ?h2 (the_host w')" "conns w' = rest"
    by auto
  have node: "node_at (the_host w') = put_file p data (node_at ?h)"
  proof
    fix q
    show "node_at (the_host w') q = put_file p data (node_at ?h) q"
      using run(4,5) by (cases "q = p") (simp_all add: writes_def put_file_def h1(2))
  qed
  have "node_at ?h2 p = Some (File [])" by simp
  from writes_evolves [OF run(5) this run(4)] have "evolves ?h (the_host w')"
    using evolves_made_parents [of ?h "canon p"] evolves_open [OF opened] evolves_trans by blast
  from sink_ok_evolves [OF assms(5) this] have "sink_ok flags b (the_host w')"
    using run(5) h1(1) h2(1) by (simp add: writes_def same_env_def)
  with run node show ?thesis by (simp add: asked_def)
qed

text \<open>One directory: its listing is fetched, it is made, and the loop over the entries starts.\<close>

definition seen :: "host \<Rightarrow> fpath \<Rightarrow> string \<Rightarrow> isr_cli_dir_entry" where
  "seen h p n = cooked (raw (served_entry h (canon p) n))"

abbreviation fetch_loop ::
    "string \<Rightarrow> string \<Rightarrow> u8 \<Rightarrow> u32 \<Rightarrow> string \<Rightarrow> string \<Rightarrow> isr_cli_dir_entry list \<Rightarrow> world \<Rightarrow> (int \<times> world) option" where
  "fetch_loop host port flags b remote local es w \<equiv>
     download_entries (\<lambda>remote local. isr_cli_download_directory host port remote local flags b)
       (\<lambda>remote local. isr_cli_download_file host port remote local flags b) remote local es 0 w"

lemma length_listing:
  assumes "uncrowded h"
  shows "length (enc_listing (listing h p)) < 2 ^ 31" "length (listing h p) * 24 < 2 ^ 31"
proof -
  have few: "length (dir_entries h p) < 2 ^ 20" using assms by (simp add: uncrowded_def)
  have "length (enc_listing (listing h p)) \<le> 266 * length (''.'' # ''..'' # dir_entries h p)"
    unfolding listing_def by (rule length_served_listing)
  with few show "length (enc_listing (listing h p)) < 2 ^ 31" by simp
  with length_enc_listing_ge [of "listing h p"] few show "length (listing h p) * 24 < 2 ^ 31"
    by (simp add: listing_def served_def) (use length_filter_le [of "\<lambda>d. d \<noteq> ''.'' \<and> d \<noteq> ''..''" "dir_entries h p"] in linarith)
qed

lemma parse_listing:
  assumes "uncrowded hs" "\<forall>n < 2 ^ 31. malloc h n \<noteq> None"
  shows "isr_cli_parse_directory_listing h (enc_listing (listing hs p)) =
    (if listing hs p = [] then None else Some (map cooked (listing hs p)), length (listing hs p))"
proof -
  have es: "entries_of (enc_listing (listing hs p)) = listing hs p" unfolding listing_def by (rule entries_of_served)
  have "malloc h (length (listing hs p) * 24) \<noteq> None" "\<forall>n \<le> 65536. malloc h n \<noteq> None"
    using assms(2) length_listing(2) [OF assms(1)] by auto
  then show ?thesis using isr_cli_parse_directory_listing_of [of h "enc_listing (listing hs p)"] unfolding es by blast
qed

lemma client_list:
  assumes "offered (expects hs rp) [Get r flags b] w rest" "node_at hs (rp @ r) = Some Dir" "server_ok rp hs" "uncrowded hs"
    and "good_path (rel_path r)" "sink_ok flags b (the_host w)" "plain_root p" "p \<noteq> []" "length (canon p) < ISR_PATH_MAX"
    and "\<not> file_above (node_at (the_host w)) p"
  obtains w1 where "asked [Get r flags b] w w1 rest" "sink_ok flags b (the_host w1)"
    "node_at (the_host w1) = with_dirs p (node_at (the_host w))"
    "\<And>w2. fetch_loop host port flags b (rel_path r) (canon p) (map (seen hs (rp @ r)) (dir_entries hs (rp @ r))) w1 = Some (0, w2) \<Longrightarrow>
      isr_cli_download_directory host port (rel_path r) (canon p) flags b w =
        Some (0, print (''Directory download complete: '' @ rel_path r) w2)"
proof -
  let ?es = "listing hs (rp @ r)" and ?buf = "enc_listing (listing hs (rp @ r))"
  let ?conf = "\<lparr>conf_type = ISR_RECV_TYPE_DIRECTORY, conf_length = word_of_nat (length ?buf) :: u64\<rparr>"
  let ?w0 = "print (''Downloading directory: '' @ rel_path r @ '' -> '' @ canon p) w"
  note ok = assms(6) [unfolded sink_ok_def]
  obtain c where c: "conns ?w0 = Some c # rest" "sock_ok c" "tx_live c" "tx c = []"
    "pending c = enc_confirmation ?conf @ ?buf @ enc_u64 (isr_count_byte_values ?buf)"
    using assms(1,2) by (auto simp: expects_def listing_bytes_def elim: offered_single)
  have len: "length (rel_path r) < 65536" using assms(5) by (simp add: good_path_def ISR_PATH_MAX_def)
  obtain s1 w1 where 1: "recv_connect host port (rel_path r) flags b ?w0 = (Some (s1, ?conf), w1)" "the_host w1 = the_host ?w0"
    "closed w1 = closed ?w0" "tx s1 = tx c @ recv_request (rel_path r) flags b"
    "pending s1 = ?buf @ enc_u64 (isr_count_byte_values ?buf)" "sock_ok s1" "tx_live s1" "conns w1 = rest"
    using recv_connect_live [OF c(1-3) len c(5)] .
  obtain s2 where go: "send_go s1 w1 = (True, s2, w1)" "tx s2 = tx s1 @ [ISR_RECV_GO]" "pending s2 = pending s1" "sock_ok s2 = sock_ok s1"
    using send_go_live [OF 1(7)] .
  have small: "length ?buf < 2 ^ 31" by (rule length_listing(1) [OF assms(4)])
  have host: "the_host w1 = say (''Downloading directory: '' @ rel_path r @ '' -> '' @ canon p) (the_host w)" using 1(2) by simp
  have mem: "\<forall>n < 2 ^ 31. malloc (the_host w1) n \<noteq> None" using ok by (simp add: host malloc_def)
  with small have "malloc (the_host w1) (length ?buf) \<noteq> None" by blast
  moreover have "sock_ok s2" "pending s2 = ?buf @ enc_u64 (isr_count_byte_values ?buf) @ []" "length ?buf < 2 ^ 64"
    using go 1(5,6) small by simp_all
  ultimately obtain s3 where 3: "recv_verified_listing s2 (the_host w1) (word_of_nat (length ?buf)) = (Some ?buf, s3, the_host w1)"
    "tx s3 = tx s2"
    using recv_verified_listing_ok [of s2 ?buf "[]" "the_host w1"] by auto
  obtain h1 where h1: "isr_mkdir_recursive (the_host w1) (canon p) = (0, h1)" "same_env (the_host w1) h1"
    "node_at h1 = with_dirs p (node_at (the_host w))"
    using isr_mkdir_recursive_canon [of "the_host w1" p] ok assms(7-10) by (auto simp: host host_invariants say_def)
  let ?w2 = "set_host h1 (net_close s3 (set_host (the_host w1) w1))"
  have entries: "map cooked ?es = map (seen hs (rp @ r)) (dir_entries hs (rp @ r))"
    using listing_entries [of hs "rp @ r"] assms(3) by (simp add: server_ok_def seen_def)
  show ?thesis
  proof (rule that [of ?w2])
    show "asked [Get r flags b] w ?w2 rest" using 1 go 3 c(4) by (simp add: asked_def)
    have ev: "evolves (the_host w1) h1" using evolves_mkdir [of "the_host w1" "canon p"] h1(1) by simp
    have sink: "sink_ok flags b (the_host w1)" using assms(6) by (simp add: host)
    then have "deny h1 = deny (the_host w1)" "wr_live h1" using h1(2) by (simp_all add: sink_ok_def same_env_def wr_live_def)
    from sink_ok_evolves [OF sink ev this] show "sink_ok flags b (the_host ?w2)" by simp
    show "node_at (the_host ?w2) = with_dirs p (node_at (the_host w))" using h1(3) by simp
    fix w3
    assume loop: "fetch_loop host port flags b (rel_path r) (canon p) (map (seen hs (rp @ r)) (dir_entries hs (rp @ r))) ?w2 = Some (0, w3)"
    have "isr_cli_download_directory host port (rel_path r) (canon p) flags b w =
        download_listed (\<lambda>remote local. isr_cli_download_directory host port remote local flags b)
          (\<lambda>remote local. isr_cli_download_file host port remote local flags b) (rel_path r) (canon p) ?buf
          (net_close s3 (set_host (the_host w1) w1))"
      unfolding download_directory_rec [of host port "rel_path r"] download_directory_with_def Let_def 1(1) option.case prod.case
      using go(1) 3(1) by (simp add: isr_consts)
    also have "\<dots> = Some (0, print (''Directory download complete: '' @ rel_path r) w3)"
      using loop parse_listing [OF assms(4) mem, of "rp @ r"] h1(1) unfolding download_listed_def entries [symmetric]
      by (cases "?es = []") simp_all
    finally show "isr_cli_download_directory host port (rel_path r) (canon p) flags b w =
        Some (0, print (''Directory download complete: '' @ rel_path r) w3)" .
  qed
qed

text \<open>An entry of the loop: the paths are joined, and what the listing says it is is fetched.\<close>

definition fetch_tree :: "string \<Rightarrow> string \<Rightarrow> u8 \<Rightarrow> u32 \<Rightarrow> dir_tree \<Rightarrow> transfer" where
  "fetch_tree host port flags b t remote local =
     (case t of Leaf data \<Rightarrow> isr_cli_download_file host port remote local flags b
      | Branch es \<Rightarrow> isr_cli_download_directory host port remote local flags b)"

lemma fetch_step:
  assumes "server_ok rp hs" "holds_tree hs (rp @ r @ [n]) t" "path_fits rp r p [n]" "r \<noteq> []" "p \<noteq> []"
    and "fetch_tree host port flags b t (rel_path (r @ [n])) (canon (p @ [n])) w = Some (0, w1)"
  shows "fetch_loop host port flags b (rel_path r) (canon p) (seen hs (rp @ r) n # es) w =
    fetch_loop host port flags b (rel_path r) (canon p) es w1"
proof -
  have rp: "rp \<noteq> []" and ok: "no_links hs" "tree_ok hs" "\<forall>q. node_at hs q \<noteq> None \<longrightarrow> named q"
    using assms(1) by (simp_all add: server_ok_def)
  note path = path_fits_entry [OF assms(3-5) rp]
  obtain nd where nd: "node_at hs ((rp @ r) @ [n]) = Some nd" "nd = (case t of Leaf data \<Rightarrow> File data | Branch es \<Rightarrow> Dir)"
    using assms(2) by (cases t) auto
  with ok(3) have named: "named ((rp @ r) @ [n])" by blast
  then have nul: "NUL \<notin> set n" by (simp add: named_def)
  have "rp @ r \<noteq> []" using rp by simp
  note entry = served_entry_canon [OF ok(1,2) this named, unfolded nd(1)]
  have "seen hs (rp @ r) n = \<lparr>de_name = n, de_size = (case t of Leaf data \<Rightarrow> word_of_nat (length data)
      | Branch es \<Rightarrow> word_of_nat (dir_size hs ((rp @ r) @ [n]))), de_is_directory = (case t of Leaf data \<Rightarrow> 0 | Branch es \<Rightarrow> 1)\<rparr>"
    unfolding seen_def entry nd(2) using nul by (cases t) (simp_all add: cstr_bytes_of)
  with assms(6) path(5,6) show ?thesis by (cases t) (simp_all add: fetch_tree_def Let_def)
qed

lemma client_fetch:
  assumes "server_ok rp hs" "uncrowded hs"
  shows "offered (expects hs rp) (download_requests r flags b t) w rest \<Longrightarrow> sink_ok flags b (the_host w) \<Longrightarrow>
      holds_tree hs (rp @ r) t \<Longrightarrow> \<forall>cs \<in> set (tree_paths t). path_fits rp r p cs \<Longrightarrow> plain_root p \<Longrightarrow> p \<noteq> [] \<Longrightarrow> r \<noteq> [] \<Longrightarrow>
      (\<exists>data. t = Leaf data) \<longrightarrow> butlast p \<noteq> [] \<Longrightarrow>
      \<not> file_above (node_at (the_host w)) p \<Longrightarrow> \<forall>cs. node_at (the_host w) (p @ cs) = None \<Longrightarrow>
      \<exists>w'. fetch_tree host port flags b t (rel_path r) (canon p) w = Some (0, w') \<and>
        asked (download_requests r flags b t) w w' rest \<and> sink_ok flags b (the_host w') \<and>
        grafted p t (node_at (the_host w)) (node_at (the_host w'))"
    and "offered (expects hs rp) (entry_downloads r flags b es) w rest \<Longrightarrow> sink_ok flags b (the_host w) \<Longrightarrow>
      holds_entries hs (rp @ r) es \<Longrightarrow> \<forall>cs \<in> set (entry_paths es). path_fits rp r p cs \<Longrightarrow> plain_root p \<Longrightarrow> p \<noteq> [] \<Longrightarrow> r \<noteq> [] \<Longrightarrow>
      free_below p (set (entry_names es)) (node_at (the_host w)) \<Longrightarrow> distinct (entry_names es) \<Longrightarrow>
      \<exists>w'. fetch_loop host port flags b (rel_path r) (canon p) (map (seen hs (rp @ r)) (entry_names es)) w = Some (0, w') \<and>
        asked (entry_downloads r flags b es) w w' rest \<and> sink_ok flags b (the_host w') \<and>
        grafted_entries p es (node_at (the_host w)) (node_at (the_host w'))"
proof (induction t and es arbitrary: r p w rest and r p w rest)
  case (Leaf data)
  have rp: "rp \<noteq> []" and small: "length data < 2 ^ 55" using assms(1) Leaf.prems(3) by (auto simp: server_ok_def)
  have fits: "path_fits rp r p []" using Leaf.prems(4) by simp
  then have "good_path (rel_path r)" "length (canon p) < ISR_PATH_MAX" using good_rel_path [of rp r] rp by (simp_all add: path_fits_def)
  moreover have "node_at (the_host w) p = None" using Leaf.prems(10) [rule_format, of "[]"] by simp
  moreover have "node_at hs (rp @ r) = Some (File data)" "butlast p \<noteq> []" using Leaf.prems(3,8) by simp_all
  ultimately have "\<exists>w'. isr_cli_download_file host port (rel_path r) (canon p) flags b w = Some (0, w') \<and>
    asked [Get r flags b] w w' rest \<and> sink_ok flags b (the_host w') \<and>
    node_at (the_host w') = put_file p data (node_at (the_host w))"
    using client_get [of hs rp r flags b w rest data p host port] Leaf.prems(1,2,5,9) small by simp
  with grafted_leaf [OF Leaf.prems(10,6), of data] show ?case by (auto simp: fetch_tree_def)
next
  case (Branch es)
  have rp: "rp \<noteq> []" using assms(1) by (simp add: server_ok_def)
  have root: "path_fits rp r p []" and below: "\<forall>cs \<in> set (entry_paths es). path_fits rp r p cs" using Branch.prems(4) by simp_all
  then have path: "good_path (rel_path r)" "length (canon p) < ISR_PATH_MAX" using good_rel_path [of rp r] rp by (simp_all add: path_fits_def)
  have dir: "node_at hs (rp @ r) = Some Dir" "dir_entries hs (rp @ r) = entry_names es" "holds_entries hs (rp @ r) es"
    using Branch.prems(3) by simp_all
  have "offered (expects hs rp) ([Get r flags b] @ entry_downloads r flags b es) w rest" using Branch.prems(1) by simp
  from offered_append [OF this] obtain mid where
    mid: "offered (expects hs rp) [Get r flags b] w mid" "\<And>v. conns v = mid \<Longrightarrow> offered (expects hs rp) (entry_downloads r flags b es) v rest"
    by metis
  obtain w1 where w1: "asked [Get r flags b] w w1 mid" "sink_ok flags b (the_host w1)"
    "node_at (the_host w1) = with_dirs p (node_at (the_host w))"
    "\<And>w2. fetch_loop host port flags b (rel_path r) (canon p) (map (seen hs (rp @ r)) (entry_names es)) w1 = Some (0, w2) \<Longrightarrow>
      isr_cli_download_directory host port (rel_path r) (canon p) flags b w =
        Some (0, print (''Directory download complete: '' @ rel_path r) w2)"
    using client_list [OF mid(1) dir(1) assms path(1) Branch.prems(2,5,6) path(2) Branch.prems(9), unfolded dir(2), of host port] by metis
  have "conns w1 = mid" using w1(1) by (simp add: asked_def)
  have free: "free_below p (set (entry_names es)) (node_at (the_host w1))"
    unfolding w1(3) by (rule free_below_Make [OF Branch.prems(9,10)])
  have "distinct (entry_names es)" using distinct_dir_entries [of hs "rp @ r"] dir(2) by simp
  from Branch.IH [OF mid(2) [OF \<open>conns w1 = mid\<close>] w1(2) dir(3) below Branch.prems(5-7) free this] obtain w2 where
    w2: "fetch_loop host port flags b (rel_path r) (canon p) (map (seen hs (rp @ r)) (entry_names es)) w1 = Some (0, w2)"
    "asked (entry_downloads r flags b es) w1 w2 rest" "sink_ok flags b (the_host w2)"
    "grafted_entries p es (node_at (the_host w1)) (node_at (the_host w2))"
    by blast
  from w1(4) [OF w2(1)] asked_trans [OF w1(1) w2(2)] w2(3) grafted_branch [OF w2(4) [unfolded w1(3)] Branch.prems(10)]
  show ?case by (simp add: fetch_tree_def)
next
  case No_Entry
  then show ?case by (simp add: grafted_entries_def)
next
  case (Entry n t es)
  have rp: "rp \<noteq> []" using assms(1) by (simp add: server_ok_def)
  have "offered (expects hs rp) (download_requests (r @ [n]) flags b t @ entry_downloads r flags b es) w rest"
    using Entry.prems(1) by simp
  from offered_append [OF this] obtain mid where
    mid: "offered (expects hs rp) (download_requests (r @ [n]) flags b t) w mid"
    "\<And>v. conns v = mid \<Longrightarrow> offered (expects hs rp) (entry_downloads r flags b es) v rest"
    by metis
  have here: "path_fits rp r p [n]" "\<forall>cs \<in> set (tree_paths t). path_fits rp (r @ [n]) (p @ [n]) cs"
    "\<forall>cs \<in> set (entry_paths es). path_fits rp r p cs"
    using Entry.prems(4) imageI [OF tree_paths_root [of t], of "Cons n"] by (auto simp: path_fits_def)
  have plain: "plain_root (p @ [n])" using path_fits_entry(1) [OF here(1) Entry.prems(7,6) rp] Entry.prems(5) by simp
  have held: "holds_tree hs (rp @ r @ [n]) t" "holds_entries hs (rp @ r) es" using Entry.prems(3) by simp_all
  have fresh: "n \<notin> set (entry_names es)" "free_below p (set (n # entry_names es)) (node_at (the_host w))"
    using Entry.prems(8,9) by simp_all
  have n: "n \<in> set (n # entry_names es)" by simp
  note child = free_below_child [OF fresh(2) n]
  have up: "(\<exists>data. t = Leaf data) \<longrightarrow> butlast (p @ [n]) \<noteq> []" using Entry.prems(6) by simp
  from Entry.IH(1) [OF mid(1) Entry.prems(2) held(1) here(2) plain _ _ up child(1,2)] obtain w1 where
    w1: "fetch_tree host port flags b t (rel_path (r @ [n])) (canon (p @ [n])) w = Some (0, w1)"
    "asked (download_requests (r @ [n]) flags b t) w w1 mid" "sink_ok flags b (the_host w1)"
    "grafted (p @ [n]) t (node_at (the_host w)) (node_at (the_host w1))"
    by auto
  have "conns w1 = mid" using w1(2) by (simp add: asked_def)
  have "distinct (entry_names es)" using Entry.prems(9) by simp
  from Entry.IH(2) [OF mid(2) [OF \<open>conns w1 = mid\<close>] w1(3) held(2) here(3) Entry.prems(5-7) grafted_entry(1) [OF fresh(2,1) w1(4)] this]
  obtain w2 where
    w2: "fetch_loop host port flags b (rel_path r) (canon p) (map (seen hs (rp @ r)) (entry_names es)) w1 = Some (0, w2)"
    "asked (entry_downloads r flags b es) w1 w2 rest" "sink_ok flags b (the_host w2)"
    "grafted_entries p es (node_at (the_host w1)) (node_at (the_host w2))"
    by blast
  from fetch_step [OF assms(1) held(1) here(1) Entry.prems(7,6) w1(1)] w2(1,3) asked_trans [OF w1(2) w2(2)]
    grafted_entry(2) [OF fresh(2,1) w1(4) w2(4)]
  show ?case by (simp del: download_entries.simps)
qed

section \<open>Client and server\<close>

lemma download_requests_gets:
  shows "holds_tree h (rp @ r) t \<Longrightarrow> \<forall>req \<in> set (download_requests r flags b t). gets h rp req"
    and "holds_entries h (rp @ r) es \<Longrightarrow> \<forall>req \<in> set (entry_downloads r flags b es). gets h rp req"
proof (induction t and es arbitrary: r and r)
  case (Entry n t es)
  with Entry.IH(1) [of "r @ [n]"] show ?case by auto
qed auto

text \<open>The bytes that the server sent arrive at the client, on a connection that holds.\<close>

definition delivers :: "sock \<Rightarrow> sock \<Rightarrow> bool" where
  "delivers s c \<longleftrightarrow> sock_ok c \<and> tx_live c \<and> tx c = [] \<and> pending c = tx s"

lemma delivers_expects:
  assumes "list_all2 (\<lambda>req s. supplies h rp req (tx s)) reqs ss" "list_all2 delivers ss cs"
  shows "list_all2 (expects h rp) reqs cs"
  by (rule list_all2_trans [OF _ assms]) (simp add: expects_def delivers_def)

text \<open>
  The download of a directory tree from end to end. To the requests that the client of
  \<open>isr recv\<close> on a directory makes, in its order, the server gives answers on which the client makes
  these very requests, succeeds, and ends with the tree of the server on its own host, node by node,
  where there was nothing before; apart from the directories above it nothing has changed there. The
  server only reads.
\<close>

theorem tree_download:
  assumes "server_ok rp h" "uncrowded h" "holds_tree h (rp @ r) (Branch es)"
    and "list_all2 (client_asks rp) (download_requests r flags b (Branch es)) accepted"
    and "sink_ok flags b (the_host w)" "plain_root p" "p \<noteq> []" "\<forall>cs \<in> set (tree_paths (Branch es)). path_fits rp r p cs"
    and "node_at (the_host w) p = None" "\<not> file_above (node_at (the_host w)) p"
  shows "\<exists>h' ss. accept_loop (canon rp) accepted h [] = Some (h', ss) \<and> reads h h' \<and>
    (\<forall>cs. list_all2 delivers ss cs \<and> conns w = map Some cs @ rest \<longrightarrow>
      (\<exists>w' cs'. isr_cli_download_directory host port (rel_path r) (canon p) flags b w = Some (0, w') \<and>
        closed w' = closed w @ cs' \<and> conns w' = rest \<and>
        list_all2 (\<lambda>req c. asks req (tx c)) (download_requests r flags b (Branch es)) cs' \<and>
        (\<forall>q. node_at (the_host w') (p @ q) = node_at h (rp @ r @ q)) \<and>
        (\<forall>q. \<not> prefix p q \<longrightarrow> node_at (the_host w') q = with_dirs p (node_at (the_host w)) q)))"
proof -
  let ?reqs = "download_requests r flags b (Branch es)"
  have r: "r \<noteq> []" using assms(8) by (auto simp: path_fits_def plain_path_def)
  from supply_all [OF assms(1,4) download_requests_gets(1) [OF assms(3)] assms(2), of "[]"] obtain h' ss where
    run: "accept_loop (canon rp) accepted h [] = Some (h', ss)" "reads h h'"
    "list_all2 (\<lambda>req s. supplies h rp req (tx s)) ?reqs ss"
    by auto
  have local: "tree_ok (the_host w)" using assms(5) by (simp add: sink_ok_def)
  have free: "\<forall>q. node_at (the_host w) (p @ q) = None"
    using tree_ok_prefix [OF local, of "p @ q" p for q] assms(9) by (metis prefixI)
  have "\<exists>w' cs'. isr_cli_download_directory host port (rel_path r) (canon p) flags b w = Some (0, w') \<and>
      closed w' = closed w @ cs' \<and> conns w' = rest \<and> list_all2 (\<lambda>req c. asks req (tx c)) ?reqs cs' \<and>
      (\<forall>q. node_at (the_host w') (p @ q) = node_at h (rp @ r @ q)) \<and>
      (\<forall>q. \<not> prefix p q \<longrightarrow> node_at (the_host w') q = with_dirs p (node_at (the_host w)) q)"
    if cs: "list_all2 delivers ss cs" "conns w = map Some cs @ rest" for cs
  proof -
    have "offered (expects h rp) ?reqs w rest" using delivers_expects [OF run(3) cs(1)] cs(2) by (auto simp: offered_def)
    from client_fetch(1) [OF assms(1,2) this assms(5,3,8,6,7) r _ assms(10) free, of host port] obtain w' where
      w': "isr_cli_download_directory host port (rel_path r) (canon p) flags b w = Some (0, w')"
      "asked ?reqs w w' rest" "grafted p (Branch es) (node_at (the_host w)) (node_at (the_host w'))"
      by (auto simp: fetch_tree_def)
    have "tree_ok h" using assms(1) by (simp add: server_ok_def)
    from holds_tree_at(1) [OF this assms(3)] w' show ?thesis by (auto simp: asked_def grafted_def)
  qed
  with run show ?thesis by blast
qed

text \<open>The directory \<open>/srv/t\<close>, with a file and a directory with a file, for the example.\<close>

definition ex_served :: "(fpath \<times> node) list" where
  "ex_served = [([''srv''], Dir), ([''srv'', ''t''], Dir), ([''srv'', ''t'', ''x''], File [7]),
     ([''srv'', ''t'', ''d''], Dir), ([''srv'', ''t'', ''d'', ''y''], File [8])]"

definition ex_wishes :: "(sock option \<times> string) list" where
  "ex_wishes = map (\<lambda>cs. (Some (sock0 (recv_request (rel_path cs) 0 0 @ [ISR_RECV_GO])), ''peer''))
     [[''t''], [''t'', ''x''], [''t'', ''d''], [''t'', ''d'', ''y'']]"

definition ex_fetcher :: "sock list \<Rightarrow> world" where
  "ex_fetcher ss = \<lparr>the_host = host0 [], conns = map Some (map (\<lambda>s. sock0 (tx s)) ss), closed = [], dialled = []\<rparr>"

lemma ex_served_ok: "server_ok [''srv''] (host0 ex_served)"
proof -
  have "tree_ok (host0 ex_served)" by (rule host0_tree_ok) (simp add: ex_served_def)
  moreover have "named q" if "node_at (host0 ex_served) q \<noteq> None" for q
    using that
    by (auto simp: ex_served_def named_def plain_root_def is_sep_def backslash_def canon_def ISR_PATH_MAX_def split: if_splits)
  moreover have "no_links (host0 ex_served)" by (auto simp: no_links_def ex_served_def)
  moreover have "length bs < 2 ^ 55" if "node_at (host0 ex_served) q = Some (File bs)" for q bs
    using that by (auto simp: ex_served_def split: if_splits)
  moreover have "\<forall>n < 2 ^ 31. malloc (host0 ex_served) n \<noteq> None" by simp
  moreover have "node_at (host0 ex_served) [''srv''] = Some Dir" by (simp add: ex_served_def)
  ultimately show ?thesis using ex_root(2) unfolding server_ok_def by simp
qed

lemma ex_served_holds: "holds_tree (host0 ex_served) ([''srv''] @ [''t'']) (Branch ex_entries)"
  by (simp add: ex_entries_def ex_served_def dir_entries_def) (simp add: host0_def)

lemma ex_wishes_asked: "list_all2 (client_asks [''srv'']) (download_requests [''t''] 0 0 (Branch ex_entries)) ex_wishes"
proof -
  have "\<not> has_flag 0 x" for x by (simp add: has_flag_def)
  then show ?thesis
    by (simp add: ex_entries_def ex_wishes_def client_asks_def plain_path_def plain_root_def is_sep_def backslash_def
      canon_def ISR_PATH_MAX_def)
qed

lemma ex_sink: "sink_ok 0 0 (host0 [])" "uncrowded (host0 ex_served)"
proof -
  have "tree_ok (host0 [])" by (rule host0_tree_ok) simp
  moreover have "\<not> has_flag 0 x" for x by (simp add: has_flag_def)
  ultimately show "sink_ok 0 0 (host0 [])" by (auto simp: sink_ok_def no_links_def can_compress_def)
  have "length (dir_entries (host0 ex_served) q) \<le> 6" for q
    using length_dir_entries [of "host0 ex_served" q] by (simp add: host0_def ex_served_def)
  then show "uncrowded (host0 ex_served)"
    unfolding uncrowded_def by (rule allI [OF le_less_trans]) simp
qed

end
