(* ===== verification/Program.thy ===== *)
theory Program
  imports Tree_Upload Tree_Download
begin

text \<open>
  Runs of the whole program: \<open>main\<close> with the command line of an \<open>isr send -r\<close> or an \<open>isr recv -r\<close>
  on one host, and \<open>main\<close> with that of \<open>isr serve\<close> on another.
\<close>

section \<open>Command lines\<close>

text \<open>No option of \<open>send\<close> sets the flag of a directory request.\<close>

lemma has_flag_or: "has_flag (f OR g) x \<longleftrightarrow> has_flag f x \<or> has_flag g x"
  by (simp add: has_flag_def bit.conj_disj_distrib2 or_eq_0_iff)

lemma send_options_flags:
  assumes "send_options opts b f r = Inr (b', f', r')" "\<not> has_flag f ISR_FLAG_CREATE_DIRECTORY"
  shows "\<not> has_flag f' ISR_FLAG_CREATE_DIRECTORY"
proof -
  have "\<not> has_flag ISR_FLAG_USE_COMPRESSION ISR_FLAG_CREATE_DIRECTORY"
    "\<not> has_flag ISR_FLAG_OVERWRITE ISR_FLAG_CREATE_DIRECTORY"
    by (simp_all add: has_flag_def isr_consts)
  with assms show ?thesis
    by (induction opts b f r rule: send_options.induct) (auto simp: has_flag_or split: if_splits)
qed

lemma main_send_tree:
  assumes "parse_host_port hp 256 16 = Some (host, port)" "send_options opts 0 0 False = Inr (b, flags, True)"
    and "isr_stat (the_host (proc pc)) local = Some (True, sz)"
    and "isr_cli_send_directory host port remote local flags b (proc pc) = Some (0, w')"
  shows "main (''send'' # hp # local # remote # opts) pc = Some (Some 0, pc\<lparr>proc := w'\<rparr>)"
  using assms by (simp add: main_def cmd_send_def on_world_def exit_status_def)

lemma main_recv_tree:
  assumes "parse_host_port hp 256 16 = Some (host, port)" "recv_options opts 0 0 False = Inr (b, flags, True)"
    and "local \<noteq> []" "hd local \<noteq> CHR ''-''"
    and "isr_cli_download_directory host port remote local flags b (proc pc) = Some (0, w')"
  shows "main (''recv'' # hp # remote # local # opts) pc = Some (Some 0, pc\<lparr>proc := w'\<rparr>)"
  using assms by (simp add: main_def cmd_recv_def on_world_def exit_status_def)

text \<open>The server that is started on a plain directory runs the accept loop on it.\<close>

lemma strip_seps_canon:
  assumes "plain_root rp" "rp \<noteq> []"
  shows "strip_seps (canon rp) = canon rp"
proof -
  obtain q c where rp: "rp = q @ [c]" using assms(2) by (cases rp rule: rev_cases) auto
  with assms(1) have c: "c \<noteq> []" "\<not> is_sep (last c)" by (auto simp: plain_root_def)
  with rp have "last (canon rp) = last c" by (simp add: canon_def)
  with c(2) show ?thesis by (subst strip_seps.simps) simp
qed

lemma main_serve:
  assumes "server_ok rp (the_host (proc ps))" "serve_options opts DEFAULT_PORT = Inr port" "can_listen ps port"
  obtains line where
    "\<And>h' ss. accept_loop (canon rp) (incoming ps) (say line (the_host (proc ps))) (finished ps) = Some (h', ss) \<Longrightarrow>
      main (''serve'' # canon rp # opts) ps =
        Some (None, (on_host (\<lambda>_. h') ps)\<lparr>incoming := [], finished := ss\<rparr>)"
proof -
  let ?h = "the_host (proc ps)"
  have ok: "plain_root rp" "rp \<noteq> []" "node_at ?h rp = Some Dir" "tree_ok ?h" "no_links ?h"
    "length (canon rp) < ISR_PATH_MAX"
    using assms(1) by (auto simp: server_ok_def named_def)
  have dir: "strip_seps (copy_n ISR_PATH_MAX (canon rp)) = canon rp" "copy_n ISR_PATH_MAX (canon rp) = canon rp"
    using ok(6) strip_seps_canon [OF ok(1,2)] by (simp_all add: copy_n_def)
  have "\<not> blocked (node_at ?h) rp" using tree_ok_not_blocked [OF ok(4)] ok(3) by simp
  with lookup_canon [OF ok(5,1,2)] ok(3,6) have real: "realpath ?h (canon rp) = Some (canon rp)"
    by (simp add: realpath_def)
  have "isr_stat ?h (canon rp) = Some (True, word_of_nat (dir_size ?h rp))"
    using isr_stat_canon [OF ok(5,4,1,2)] ok(3) by simp
  with real dir assms(2,3) show ?thesis
    by (intro that [of "''Serving '' @ quoted (canon rp) @ '' on port '' @ port"])
      (simp add: main_def cmd_serve_def isr_set_server_root_def Let_def)
qed

section \<open>Properties\<close>

text \<open>
  C2. \<open>isr send -r\<close> to \<open>isr serve\<close>, both from their command lines. When the place asked for is
  free, the client exits with 0 on the answers its requests call for; a server on which these requests
  arrive takes them all, gives these very answers and goes on waiting, and then the tree of the client
  stands under the path asked for, node by node; apart from the directories above it nothing else has
  changed there. The client changes nothing on its host.
\<close>

theorem program_upload:
  assumes "parse_host_port hp 256 16 = Some (host, port)" "send_options opts 0 0 False = Inr (b, flags, True)"
    and "source_ok flags b (the_host (proc pc))" "holds_tree (the_host (proc pc)) p (Branch es)" "plain_root p" "p \<noteq> []"
    and "\<forall>cs \<in> set (tree_paths (Branch es)). path_fits rp r p cs"
    and "conns (proc pc) = map Some cs @ rest" "list_all2 awaits (upload_requests r flags b (Branch es)) cs"
    and "serve_options sopts DEFAULT_PORT = Inr sport" "can_listen ps sport" "finished ps = []"
    and "server_ok rp (the_host (proc ps))" "node_at (the_host (proc ps)) (rp @ r) = None"
    and "\<not> file_above (node_at (the_host (proc ps))) (rp @ r)"
  shows "\<exists>pc' cs'. main (''send'' # hp # canon p # rel_path r # opts) pc = Some (Some 0, pc') \<and>
    closed (proc pc') = closed (proc pc) @ cs' \<and> reads (the_host (proc pc)) (the_host (proc pc')) \<and>
    (list_all2 receives cs' (incoming ps) \<longrightarrow>
      (\<exists>ps'. main (''serve'' # canon rp # sopts) ps = Some (None, ps') \<and> map tx (finished ps') = map pending cs \<and>
        (\<forall>q. node_at (the_host (proc ps')) (rp @ r @ q) = node_at (the_host (proc pc)) (p @ q)) \<and>
        (\<forall>q. \<not> prefix (rp @ r) q \<longrightarrow>
          node_at (the_host (proc ps')) q = with_dirs (rp @ r) (node_at (the_host (proc ps))) q)))"
proof -
  obtain line where serve: "\<And>h' ss. accept_loop (canon rp) (incoming ps) (say line (the_host (proc ps))) (finished ps) =
      Some (h', ss) \<Longrightarrow> main (''serve'' # canon rp # sopts) ps =
        Some (None, (on_host (\<lambda>_. h') ps)\<lparr>incoming := [], finished := ss\<rparr>)"
    using main_serve [OF assms(13,10,11)] by blast
  have flag: "\<not> has_flag flags ISR_FLAG_CREATE_DIRECTORY"
    by (rule send_options_flags [OF assms(2)]) (simp add: has_flag_def)
  have stat: "isr_stat (the_host (proc pc)) (canon p) = Some (True, word_of_nat (dir_size (the_host (proc pc)) p))"
    using assms(3,4) isr_stat_canon [OF _ _ assms(5,6)] by (simp add: source_ok_def)
  from tree_upload [where h = "say line (the_host (proc ps))" and host = host and port = port,
      OF assms(3) flag assms(4-9)] assms(13-15)
  obtain w' cs' where run: "isr_cli_send_directory host port (rel_path r) (canon p) flags b (proc pc) = Some (0, w')"
    "closed w' = closed (proc pc) @ cs'" "reads (the_host (proc pc)) (the_host w')"
    "\<And>accepted. list_all2 receives cs' accepted \<Longrightarrow>
      \<exists>h' ss. accept_loop (canon rp) accepted (say line (the_host (proc ps))) [] = Some (h', ss) \<and>
        map tx ss = map pending cs \<and>
        (\<forall>q. node_at h' (rp @ r @ q) = node_at (the_host (proc pc)) (p @ q)) \<and>
        (\<forall>q. \<not> prefix (rp @ r) q \<longrightarrow> node_at h' q = with_dirs (rp @ r) (node_at (the_host (proc ps))) q)"
    by auto
  from main_send_tree [OF assms(1,2) stat run(1)] run(2,3) serve run(4) [of "incoming ps"] assms(12)
  show ?thesis by fastforce
qed

text \<open>The programs of the examples, on the hosts of the examples before.\<close>

definition ex_program :: "world \<Rightarrow> (sock option \<times> string) list \<Rightarrow> process" where
  "ex_program w accepted = \<lparr>proc = w, can_listen = (\<lambda>_. True), incoming = accepted, finished = []\<rparr>"

lemma ex_program_simps [simp]:
  "proc (ex_program w accepted) = w" "can_listen (ex_program w accepted) port"
  "incoming (ex_program w accepted) = accepted" "finished (ex_program w accepted) = []"
  by (simp_all add: ex_program_def)

definition ex_alone :: "host \<Rightarrow> world" where
  "ex_alone h = \<lparr>the_host = h, conns = [], closed = [], dialled = []\<rparr>"

lemma ex_alone_host [simp]: "the_host (ex_alone h) = h"
  by (simp add: ex_alone_def)

lemma ex_names: "rel_path [''t''] = ''t''" "canon [''t''] = ''/t''" "plain_root [''t'']" "[''t''] \<noteq> []"
  by (simp_all add: rel_path_def canon_def plain_root_def is_sep_def backslash_def)

lemma ex_options:
  "parse_host_port ''h:1'' 256 16 = Some (''h'', ''1'')" "send_options [''-r''] 0 0 False = Inr (0, 0, True)"
  "recv_options [''-r''] 0 0 False = Inr (0, 0, True)" "serve_options [] DEFAULT_PORT = Inr DEFAULT_PORT"
  by (simp_all add: parse_host_port_def copy_n_def)

theorem program_upload_witness:
  "\<exists>pc' ps'. main [''send'', ''h:1'', ''/t'', ''t'', ''-r''] (ex_program ex_tree_client []) = Some (Some 0, pc') \<and>
    main [''serve'', ''/srv''] (ex_program (ex_alone ex_host)
      (map (\<lambda>c. (Some (sock0 (tx c)), ''peer'')) (closed (proc pc')))) = Some (None, ps') \<and>
    map tx (finished ps') = map pending ex_answers \<and>
    node_at (the_host (proc ps')) [''srv'', ''t'', ''d'', ''y''] = Some (File [8])"
proof -
  have client: "the_host ex_tree_client = host0 ex_tree_nodes" "conns ex_tree_client = map Some ex_answers @ []"
    "closed ex_tree_client = []"
    by (simp_all add: ex_tree_client_def)
  have free: "node_at ex_host ([''srv''] @ [''t'']) = None" "\<not> file_above (node_at ex_host) ([''srv''] @ [''t''])"
    by (simp_all add: ex_host_nodes file_above_def)
  define server where "server = (\<lambda>accepted. ex_program (ex_alone ex_host) accepted)"
  have srv: "finished (server a) = []" "can_listen (server a) port" "the_host (proc (server a)) = ex_host"
    "incoming (server a) = a" for a port
    by (simp_all add: server_def)
  note run = program_upload [where pc = "ex_program ex_tree_client []" and ps = "server a" for a, unfolded ex_program_simps(1) client(1) srv(3),
      OF ex_options(1,2) ex_tree_source ex_tree_holds ex_names(3,4) ex_tree_fits client(2) ex_tree_awaits ex_options(4) srv(2,1)
        ex_server_ok free, unfolded ex_names(1,2) ex_root(1) client(3) srv(4)]
  obtain pc' cs' where pc': "main [''send'', ''h:1'', ''/t'', ''t'', ''-r''] (ex_program ex_tree_client []) = Some (Some 0, pc')"
    "closed (proc pc') = [] @ cs'" using run [of "[]"] by blast
  have "list_all2 receives cs' (map (\<lambda>c. (Some (sock0 (tx c)), ''peer'')) cs')"
    by (simp add: list_all2_conv_all_nth receives_def)
  with run [of "map (\<lambda>c. (Some (sock0 (tx c)), ''peer'')) cs'"] pc' obtain ps' where
    ps': "main [''serve'', ''/srv''] (server (map (\<lambda>c. (Some (sock0 (tx c)), ''peer'')) cs')) = Some (None, ps')"
    "map tx (finished ps') = map pending ex_answers"
    "\<And>q. node_at (the_host (proc ps')) ([''srv''] @ [''t''] @ q) = node_at (host0 ex_tree_nodes) ([''t''] @ q)"
    by (metis append_Nil option.inject prod.inject)
  show ?thesis using pc' ps'(1,2) ps'(3) [of "[''d'', ''y'']"] by (auto simp: server_def ex_tree_nodes_def)
qed

text \<open>
  C3. \<open>isr recv -r\<close> from \<open>isr serve\<close>, both from their command lines. To the requests of the client
  the server gives answers on which the client makes these very requests and exits with 0, and then
  the tree of the server stands at the local path, where there was nothing before, node by node; apart
  from the directories above it nothing else has changed there. The server only reads and goes on
  waiting.
\<close>

theorem program_download:
  assumes "serve_options sopts DEFAULT_PORT = Inr sport" "can_listen ps sport" "finished ps = []"
    and "server_ok rp (the_host (proc ps))" "uncrowded (the_host (proc ps))"
    and "holds_tree (the_host (proc ps)) (rp @ r) (Branch es)"
    and "list_all2 (client_asks rp) (download_requests r flags b (Branch es)) (incoming ps)"
    and "parse_host_port hp 256 16 = Some (host, port)" "recv_options opts 0 0 False = Inr (b, flags, True)"
    and "sink_ok flags b (the_host (proc pc))" "plain_root p" "p \<noteq> []"
    and "\<forall>cs \<in> set (tree_paths (Branch es)). path_fits rp r p cs"
    and "node_at (the_host (proc pc)) p = None" "\<not> file_above (node_at (the_host (proc pc))) p"
  shows "\<exists>ps'. main (''serve'' # canon rp # sopts) ps = Some (None, ps') \<and>
    reads (the_host (proc ps)) (the_host (proc ps')) \<and>
    (\<forall>cs. list_all2 delivers (finished ps') cs \<and> conns (proc pc) = map Some cs @ rest \<longrightarrow>
      (\<exists>pc' cs'. main (''recv'' # hp # rel_path r # canon p # opts) pc = Some (Some 0, pc') \<and>
        closed (proc pc') = closed (proc pc) @ cs' \<and> conns (proc pc') = rest \<and>
        list_all2 (\<lambda>req c. asks req (tx c)) (download_requests r flags b (Branch es)) cs' \<and>
        (\<forall>q. node_at (the_host (proc pc')) (p @ q) = node_at (the_host (proc ps)) (rp @ r @ q)) \<and>
        (\<forall>q. \<not> prefix p q \<longrightarrow> node_at (the_host (proc pc')) q = with_dirs p (node_at (the_host (proc pc))) q)))"
proof -
  obtain line where serve: "\<And>h' ss. accept_loop (canon rp) (incoming ps) (say line (the_host (proc ps))) (finished ps) =
      Some (h', ss) \<Longrightarrow> main (''serve'' # canon rp # sopts) ps =
        Some (None, (on_host (\<lambda>_. h') ps)\<lparr>incoming := [], finished := ss\<rparr>)"
    using main_serve [OF assms(4,1,2)] by blast
  let ?hs = "say line (the_host (proc ps))"
  have same: "reads (the_host (proc ps)) ?hs" by simp
  have "server_ok rp ?hs" using assms(4) by simp
  moreover have "uncrowded ?hs" using assms(5) reads_same(6) [OF same] by simp
  moreover have "holds_tree ?hs (rp @ r) (Branch es)" using assms(6) holds_tree_reads(1) [OF same] by blast
  ultimately obtain h' ss where
    run: "accept_loop (canon rp) (incoming ps) ?hs [] = Some (h', ss)" "reads ?hs h'"
    "\<And>cs. list_all2 delivers ss cs \<and> conns (proc pc) = map Some cs @ rest \<Longrightarrow>
      \<exists>w' cs'. isr_cli_download_directory host port (rel_path r) (canon p) flags b (proc pc) = Some (0, w') \<and>
        closed w' = closed (proc pc) @ cs' \<and> conns w' = rest \<and>
        list_all2 (\<lambda>req c. asks req (tx c)) (download_requests r flags b (Branch es)) cs' \<and>
        (\<forall>q. node_at (the_host w') (p @ q) = node_at ?hs (rp @ r @ q)) \<and>
        (\<forall>q. \<not> prefix p q \<longrightarrow> node_at (the_host w') q = with_dirs p (node_at (the_host (proc pc))) q)"
    using tree_download [where host = host and port = port and rest = rest, OF _ _ _ assms(7,10-15)] by blast
  have start: "canon p \<noteq> []" "hd (canon p) \<noteq> CHR ''-''"
    using canon_rel [OF assms(12)] by simp_all
  have "\<exists>pc' cs'. main (''recv'' # hp # rel_path r # canon p # opts) pc = Some (Some 0, pc') \<and>
        closed (proc pc') = closed (proc pc) @ cs' \<and> conns (proc pc') = rest \<and>
        list_all2 (\<lambda>req c. asks req (tx c)) (download_requests r flags b (Branch es)) cs' \<and>
        (\<forall>q. node_at (the_host (proc pc')) (p @ q) = node_at (the_host (proc ps)) (rp @ r @ q)) \<and>
        (\<forall>q. \<not> prefix p q \<longrightarrow> node_at (the_host (proc pc')) q = with_dirs p (node_at (the_host (proc pc))) q)"
    if "list_all2 delivers ss cs \<and> conns (proc pc) = map Some cs @ rest" for cs
  proof -
    from run(3) [OF that] obtain w' cs' where
      w': "isr_cli_download_directory host port (rel_path r) (canon p) flags b (proc pc) = Some (0, w')"
      "closed w' = closed (proc pc) @ cs'" "conns w' = rest"
      "list_all2 (\<lambda>req c. asks req (tx c)) (download_requests r flags b (Branch es)) cs'"
      "\<forall>q. node_at (the_host w') (p @ q) = node_at (the_host (proc ps)) (rp @ r @ q)"
      "\<forall>q. \<not> prefix p q \<longrightarrow> node_at (the_host w') q = with_dirs p (node_at (the_host (proc pc))) q"
      by auto
    from main_recv_tree [OF assms(8,9) start w'(1)] w'(2-6) show ?thesis by simp
  qed
  moreover obtain ps' where "main (''serve'' # canon rp # sopts) ps = Some (None, ps')" "the_host (proc ps') = h'"
    "finished ps' = ss"
    using serve [of h' ss] run(1) assms(3) by simp
  moreover have "reads (the_host (proc ps)) h'" using run(2) by simp
  ultimately show ?thesis by blast
qed

theorem program_download_witness:
  "\<exists>ps' pc'. main [''serve'', ''/srv''] (ex_program (ex_alone (host0 ex_served)) ex_wishes) = Some (None, ps') \<and>
    main [''recv'', ''h:1'', ''t'', ''/t'', ''-r''] (ex_program (ex_fetcher (finished ps')) []) = Some (Some 0, pc') \<and>
    node_at (the_host (proc pc')) [''t''] = Some Dir \<and> node_at (the_host (proc pc')) [''t'', ''x''] = Some (File [7]) \<and>
    node_at (the_host (proc pc')) [''t'', ''d'', ''y''] = Some (File [8])"
proof -
  define server where "server = ex_program (ex_alone (host0 ex_served)) ex_wishes"
  have srv: "can_listen server port" "finished server = []" "the_host (proc server) = host0 ex_served"
    "incoming server = ex_wishes" for port
    by (simp_all add: server_def)
  have free: "sink_ok 0 0 (the_host (ex_fetcher ss))" "node_at (the_host (ex_fetcher ss)) [''t''] = None"
    "\<not> file_above (node_at (the_host (ex_fetcher ss))) [''t'']" for ss
    using ex_sink(1) by (simp_all add: ex_fetcher_def file_above_def)
  note run = program_download [where ps = server and pc = "ex_program (ex_fetcher ss) []" and rest = "[]" for ss,
      unfolded srv(3,4) ex_program_simps(1),
      OF ex_options(4) srv(1,2) ex_served_ok ex_sink(2) ex_served_holds ex_wishes_asked ex_options(1,3) free(1) ex_names(3,4)
        ex_tree_fits free(2,3), unfolded ex_names(1,2) ex_root(1)]
  obtain ps' where ps': "main [''serve'', ''/srv''] server = Some (None, ps')" using run [of "[]"] by blast
  have "list_all2 delivers (finished ps') (map (\<lambda>s. sock0 (tx s)) (finished ps'))"
    by (simp add: list_all2_conv_all_nth delivers_def)
  moreover have "conns (ex_fetcher ss) = map Some (map (\<lambda>s. sock0 (tx s)) ss) @ []" for ss by (simp add: ex_fetcher_def)
  ultimately obtain pc' where
    pc': "main [''recv'', ''h:1'', ''t'', ''/t'', ''-r''] (ex_program (ex_fetcher (finished ps')) []) = Some (Some 0, pc')"
    "\<And>q. node_at (the_host (proc pc')) ([''t''] @ q) = node_at (host0 ex_served) ([''srv''] @ [''t''] @ q)"
    using run [of "finished ps'"] ps' by (metis option.inject prod.inject)
  show ?thesis
    using ps' pc'(1) pc'(2) [of "[]"] pc'(2) [of "[''x'']"] pc'(2) [of "[''d'', ''y'']"]
    by (auto simp: server_def ex_served_def)
qed

end
