(* ===== verification/Connect.thy ===== *)
theory Connect
  imports Prelude
begin

text \<open>
  Setting up connections in \<open>lib/mininet.h\<close>: the loops of \<open>net_connect\<close> and \<open>net_listen\<close> over
  the addresses that \<open>getaddrinfo\<close> returns.

  The system calls are parameters, collected in a record: the list of addresses for a host and a
  port, and for every address whether \<open>socket\<close>, \<open>connect\<close>, \<open>bind\<close> and \<open>listen\<close> succeed. The
  state is the table of open descriptors, each with the address it is connected or bound to;
  \<open>socket\<close> returns a descriptor that is not in the table. \<open>None\<close> is \<open>NET_INVALID_SOCKET\<close>.
\<close>

record 'a calls =
  getaddrinfo :: "string option \<Rightarrow> string \<Rightarrow> 'a list option"
  can_socket :: "'a \<Rightarrow> bool"
  can_connect :: "'a \<Rightarrow> bool"
  can_bind :: "'a \<Rightarrow> bool"
  can_backlog :: "'a \<Rightarrow> bool"

type_synonym 'a fds = "(nat \<times> 'a option) list"

definition fresh_fd :: "'a fds \<Rightarrow> nat" where
  "fresh_fd t = Suc (Max (insert 0 (fst ` set t)))"

definition os_close :: "nat \<Rightarrow> 'a fds \<Rightarrow> 'a fds" where
  "os_close fd t = filter (\<lambda>(n, a). n \<noteq> fd) t"

definition attach :: "nat \<Rightarrow> 'a \<Rightarrow> 'a fds \<Rightarrow> 'a fds" where
  "attach fd a t = map (\<lambda>(n, b). (n, if n = fd then Some a else b)) t"

text \<open>The loop; \<open>use\<close> is \<open>connect\<close> or \<open>bind\<close>.\<close>

fun try_addresses :: "('a \<Rightarrow> bool) \<Rightarrow> ('a \<Rightarrow> bool) \<Rightarrow> 'a list \<Rightarrow> 'a fds \<Rightarrow> (nat \<times> 'a) option \<times> 'a fds" where
  "try_addresses sock_ok use [] t = (None, t)"
| "try_addresses sock_ok use (p # ps) t =
     (if \<not> sock_ok p then try_addresses sock_ok use ps t
      else
        (let fd = fresh_fd t; t1 = (fd, None) # t in
         if \<not> use p then try_addresses sock_ok use ps (os_close fd t1)
         else (Some (fd, p), attach fd p t1)))"

definition net_connect_fd :: "'a calls \<Rightarrow> string \<Rightarrow> string \<Rightarrow> 'a fds \<Rightarrow> nat option \<times> 'a fds" where
  "net_connect_fd os host port t =
     (case getaddrinfo os (Some host) port of
        None \<Rightarrow> (None, t)
      | Some res \<Rightarrow>
          (case try_addresses (can_socket os) (can_connect os) res t of
             (found, t1) \<Rightarrow> (map_option fst found, t1)))"

definition net_listen_fd :: "'a calls \<Rightarrow> string \<Rightarrow> 'a fds \<Rightarrow> nat option \<times> 'a fds" where
  "net_listen_fd os port t =
     (case getaddrinfo os None port of
        None \<Rightarrow> (None, t)
      | Some res \<Rightarrow>
          (case try_addresses (can_socket os) (can_bind os) res t of
             (None, t1) \<Rightarrow> (None, t1)
           | (Some (fd, a), t1) \<Rightarrow>
               if \<not> can_backlog os a then (None, os_close fd t1) else (Some fd, t1)))"

section \<open>The first address that works\<close>

lemma fresh_fd: "fresh_fd t \<notin> fst ` set t"
proof
  assume "fresh_fd t \<in> fst ` set t"
  then have "fresh_fd t \<le> Max (insert 0 (fst ` set t))" by (intro Max_ge) auto
  then show False by (simp add: fresh_fd_def)
qed

lemma os_close_fresh: "fd \<notin> fst ` set t \<Longrightarrow> os_close fd ((fd, a) # t) = t"
  by (force simp: os_close_def filter_id_conv)

lemma attach_fresh: "fd \<notin> fst ` set t \<Longrightarrow> attach fd a ((fd, b) # t) = (fd, Some a) # t"
  by (force simp: attach_def intro!: map_idI)

lemma try_addresses_find:
  "try_addresses sock_ok use ps t =
    (case find (\<lambda>p. sock_ok p \<and> use p) ps of
       None \<Rightarrow> (None, t) | Some p \<Rightarrow> (Some (fresh_fd t, p), (fresh_fd t, Some p) # t))"
  by (induction ps) (simp_all add: Let_def os_close_fresh attach_fresh fresh_fd)

section \<open>Property\<close>

text \<open>
  C37. \<open>net_connect\<close> and \<open>net_listen\<close> use the first address on which the calls succeed, and leak
  no descriptor: after a failure, of one address or of all, the table is as it was, and after a
  success it has one new entry, the socket returned.
\<close>

theorem first_address_no_leak:
  "net_connect_fd os host port t =
     (case Option.bind (getaddrinfo os (Some host) port) (find (\<lambda>p. can_socket os p \<and> can_connect os p)) of
        None \<Rightarrow> (None, t)
      | Some p \<Rightarrow> (Some (fresh_fd t), (fresh_fd t, Some p) # t)) \<and>
   net_listen_fd os port t =
     (case Option.bind (getaddrinfo os None port) (find (\<lambda>p. can_socket os p \<and> can_bind os p)) of
        None \<Rightarrow> (None, t)
      | Some p \<Rightarrow> if can_backlog os p then (Some (fresh_fd t), (fresh_fd t, Some p) # t) else (None, t))"
  by (auto simp: net_connect_fd_def net_listen_fd_def try_addresses_find os_close_fresh fresh_fd
    split: option.split)

end
