(* ===== verification/Escapes.thy ===== *)
theory Escapes
  imports Paths
begin

text \<open>
  What the jail does not cover: symbolic links below the served directory. \<open>isr_resolve_path\<close>
  resolves the parent directory of a path, not its last component, and compares characters with
  the root, not components.
\<close>

section \<open>Paths through real directories\<close>

definition real_dirs :: "host \<Rightarrow> fpath \<Rightarrow> bool" where
  "real_dirs h p \<longleftrightarrow> (\<forall>q. prefix q p \<longrightarrow> node_at h q = Some Dir)"

lemma walk_through:
  assumes "plain_root cs" "\<forall>q. prefix q cs \<longrightarrow> t (cur @ q) = Some Dir"
  shows "walk t n cur (cs @ ds) fl = walk t n (cur @ cs) ds fl"
  using assms
proof (induction cs arbitrary: cur)
  case (Cons c cs)
  have c: "c \<noteq> []" "c \<noteq> ''.''" "c \<noteq> ''..''" "plain_root cs"
    using Cons.prems(1) by (simp_all add: plain_root_def)
  have dirs: "t cur = Some Dir" "t (cur @ [c]) = Some Dir" "\<forall>q. prefix q cs \<longrightarrow> t ((cur @ [c]) @ q) = Some Dir"
    using Cons.prems(2) by (auto dest: spec [of _ "[]"] spec [of _ "[c]"] spec [of _ "c # _"])
  with Cons.IH [OF c(4) dirs(3)] c show ?case by simp
qed simp

lemma lookup_below:
  assumes "real_dirs h p" "plain_root (p @ cs)" "p @ cs \<noteq> []"
  shows "lookup h (canon (p @ cs)) fl = walk (node_at h) 40 p cs fl"
proof -
  have "node_at h [] = Some Dir" "\<forall>q. prefix q p \<longrightarrow> node_at h ([] @ q) = Some Dir"
    using assms(1) by (simp_all add: real_dirs_def)
  with walk_through [of p "node_at h" "[]" 40 cs fl] assms(2) show ?thesis
    by (simp add: lookup_abs split_canon [OF assms(2,3)])
qed

lemma lookup_real_dir:
  assumes "real_dirs h p" "plain_root p" "p \<noteq> []"
  shows "lookup h (canon p) fl = Found p"
  using lookup_below [of h p "[]" fl] assms by simp

lemma mkdir_real_dir:
  assumes "real_dirs h p" "plain_root p" "p \<noteq> []" "length (canon p) < ISR_PATH_MAX"
  shows "isr_mkdir_recursive h (canon p) = (0, h)"
proof -
  have idle: "os_mkdir h (canon r) = (MkExist, h)" if "r \<noteq> []" "prefix r p" for r
  proof -
    have "real_dirs h r" using assms(1) that(2) by (auto simp: real_dirs_def intro: prefix_order.trans)
    from lookup_real_dir [OF this plain_root_prefix [OF assms(2) that(2)] that(1)] show ?thesis
      by (simp add: os_mkdir_def)
  qed
  obtain c cs where p: "p = [c] @ cs" using assms(3) by (cases p) auto
  have "mkdir_loop h (canon [c]) (concat (map (\<lambda>c. CHR ''/'' # c) cs)) = (h, canon p)"
    unfolding p using mkdir_loop_idle [of "[c]" cs h] assms(2) idle p by simp
  from isr_mkdir_recursive_start [OF _ _ this, of] show ?thesis
    using assms(2,4) idle [OF assms(3)] p by simp
qed

lemma made_parents_real:
  assumes "real_dirs h q" "plain_root (q @ [f])" "q \<noteq> []" "length (canon (q @ [f])) < ISR_PATH_MAX"
  shows "made_parents h (canon (q @ [f])) = h"
proof -
  have par: "butlast (q @ [f]) \<noteq> []" using assms(3) by simp
  note last = canon_last [OF assms(2) par]
  have "isr_parent_dir (canon (q @ [f])) ISR_PATH_MAX = Some (canon q)"
    using assms(4) strrchr_last [OF last(2), of "canon q"] last(1)
    by (simp add: isr_parent_dir_def Let_def)
  moreover have "length (canon q) < ISR_PATH_MAX" using assms(4) last(1) by simp
  ultimately show ?thesis
    using mkdir_real_dir [OF assms(1) _ assms(3)] assms(2) by (simp add: made_parents_def)
qed

text \<open>The path is resolved through its parent, which can be a link.\<close>

lemma resolve_parent:
  assumes "plain_root (rp @ cs)" "rp \<noteq> []" "cs \<noteq> []" "length (canon (rp @ cs)) < ISR_PATH_MAX"
    and "realpath h (canon (butlast (rp @ cs))) = Some (canon q)" "q \<noteq> []"
    and "length (canon (q @ [last cs])) < ISR_PATH_MAX" "prefix (canon rp) (canon q)"
  shows "isr_resolve_path h (canon rp) (rel_path cs) ISR_PATH_MAX = Some (canon (q @ [last cs]))"
proof -
  let ?p = "rp @ cs"
  have par: "butlast ?p \<noteq> []" using assms(2,3) by (simp add: butlast_append)
  note last = canon_last [OF assms(1) par]
  have lp: "last ?p = last cs" using assms(3) by simp
  obtain k where k: "length (canon (butlast ?p)) = Suc k" using canon_cons [OF par] par by (cases "butlast ?p") auto
  have slash: "strrchr (canon ?p) CHR ''/'' = Some (Suc k)"
    unfolding last(1) using strrchr_last [OF last(2), of "canon (butlast ?p)"] k by simp
  have parts: "take (Suc k) (canon ?p) = canon (butlast ?p)" "drop (Suc (Suc k)) (canon ?p) = last cs"
    unfolding last(1) using k lp by simp_all
  have q: "canon (q @ [last cs]) = canon q @ CHR ''/'' # last cs" using canon_snoc [OF assms(6)] .
  have cat: "strncat ISR_PATH_MAX (strncat ISR_PATH_MAX (canon q) ''/'') (last cs) = canon (q @ [last cs])"
    using assms(7) q by (simp add: strncat_def)
  have copies: "copy_n ISR_PATH_MAX (canon ?p) = canon ?p" "copy_n ISR_PATH_MAX (last cs) = last cs"
    "copy_n ISR_PATH_MAX (canon (q @ [last cs])) = canon (q @ [last cs])"
    using assms(4,7) q by (simp_all add: copy_n_def)
  have "take (length (canon rp)) (canon (q @ [last cs])) = canon rp"
    using assms(8) q by (auto simp: prefix_def)
  then show ?thesis
    using assms(4) unfolding isr_resolve_path_def snprintf_path_def join_rel [OF assms(2,3)]
    by (simp add: Let_def copies slash parts assms(5) cat)
qed

lemma rel_path_simps: "rel_path [c] = c" "rel_path [c, d] = c @ ''/'' @ d"
  by (simp_all add: rel_path_def canon_def)

lemma realpath_real_dir:
  assumes "real_dirs h p" "plain_root p" "p \<noteq> []" "length (canon p) < ISR_PATH_MAX"
  shows "realpath h (canon p) = Some (canon p)"
  using lookup_real_dir [OF assms(1-3)] assms(4) by (simp add: realpath_def)

text \<open>A tree with two links below the root, for the examples.\<close>

definition link_tree :: host where
  "link_tree = host0 [([''srv''], Dir), ([''etc''], Dir), ([''etc'', ''f''], File [1]), ([''srvx''], Dir),
     ([''srv'', ''l''], Symlink ''/etc/f''), ([''srv'', ''d''], Symlink ''/srvx'')]"

lemma link_tree_nodes: "node_at link_tree p = (if p = [] then Some Dir else map_of [([''srv''], Dir), ([''etc''], Dir),
    ([''etc'', ''f''], File [1]), ([''srvx''], Dir), ([''srv'', ''l''], Symlink ''/etc/f''),
    ([''srv'', ''d''], Symlink ''/srvx'')] p)"
  by (simp add: link_tree_def)

lemma link_tree_dirs: "real_dirs link_tree [''srv'']" "real_dirs link_tree [''srvx'']"
  by (auto simp: real_dirs_def link_tree_nodes prefix_Cons)

lemma link_tree_lookup:
  "lookup link_tree ''/srv/l'' True = Found [''etc'', ''f'']" "lookup link_tree ''/srv/d'' True = Found [''srvx'']"
  by (simp_all add: lookup_def link_tree_nodes eval_nat_numeral)

lemma link_tree_host: "\<not> deny link_tree p" "wr_live link_tree" "can_compress False b link_tree"
  by (simp_all add: link_tree_def can_compress_def)

section \<open>Properties\<close>

text \<open>
  C28. A link in last position leads out of the jail: the server accepts an upload with the
  overwrite flag to the name of a link in the served directory, follows the link, and overwrites
  the file it leads to, wherever that is.
\<close>

theorem final_link_escapes:
  assumes "plain_root (rp @ [l])" "rp \<noteq> []" "real_dirs h rp" "length (canon (rp @ [l])) < ISR_PATH_MAX" "NUL \<notin> set l"
    and "node_at h (rp @ [l]) = Some (Symlink target)" "lookup h (canon (rp @ [l])) True = Found q"
    and "node_at h q = Some (File old)" "\<not> deny h q" "\<not> prefix rp q"
    and "has_flag flags ISR_FLAG_OVERWRITE" "\<not> has_flag flags ISR_FLAG_CREATE_DIRECTORY"
    and "sock_ok s" "tx_live s" "pending s = send_request l flags b (word_of_nat (length data)) @ w @ rest"
    and "is_payload (has_flag flags ISR_FLAG_USE_COMPRESSION) b data w" "length data < 2 ^ 55"
    and "wr_live h" "can_compress (has_flag flags ISR_FLAG_USE_COMPRESSION) b h"
  shows "\<exists>s' h' info'. isr_receive_command (canon rp) s h info = Some (0, s', h', info') \<and>
    node_at h' q = Some (File data)"
proof -
  let ?full = "canon (rp @ [l])" and ?f = "\<lparr>fd_path = q, fd_pos = 0\<rparr>"
  have rp: "plain_root rp" "plain_root [l]" using assms(1) by simp_all
  have len: "length (canon rp) < ISR_PATH_MAX" "length l < ISR_PATH_MAX"
    using assms(4) canon_snoc [OF assms(2)] by simp_all
  have valid: "isr_validate_path l = 0" using valid_rel [OF rp(2)] by (simp add: rel_path_simps)
  have resolve: "isr_resolve_path h (canon rp) l ISR_PATH_MAX = Some ?full"
    using resolve_parent [OF assms(1,2) _ assms(4), of h rp] realpath_real_dir [OF assms(3) rp(1) assms(2) len(1)] assms(2,4)
    by (simp add: rel_path_simps)
  have stat: "isr_stat h ?full = Some (False, word_of_nat (length old))"
    using assms(7,8) by (simp add: isr_stat_def)
  have open': "isr_open_write (made_parents h ?full) ?full = (Some ?f, put_node q (File []) h)"
    using assms(7-9) made_parents_real [OF assms(3,1,2,4)] by (simp add: isr_open_write_def)
  have "good_path l" using len(2) assms(5) by (simp add: good_path_def)
  moreover have "may_write (isr_stat h ?full) flags" using stat assms(11,12) by (simp add: may_write_def)
  moreover have "wr_live (put_node q (File []) h)" using assms(18) by (simp add: wr_live_def)
  moreover have "can_compress (has_flag flags ISR_FLAG_USE_COMPRESSION) b (put_node q (File []) h)"
    using assms(19) by (simp add: can_compress_def heap_ok_def malloc_def)
  ultimately show ?thesis
    using server_upload [OF assms(13,14) _ assms(15-17) valid resolve _ open'] by fastforce
qed

theorem final_link_escapes_witness:
  "\<exists>s' h' info'. isr_receive_command ''/srv'' (sock0 (send_request ''l'' 2 0 1 @ [7] @ enc_u64 7)) link_tree info0 =
      Some (0, s', h', info') \<and> node_at h' [''etc'', ''f''] = Some (File [7])"
proof -
  have pay: "is_payload False 0 [7] ([7] @ enc_u64 7)" by (simp add: is_payload_def)
  show ?thesis
    using final_link_escapes [of "[''srv'']" "''l''" link_tree "''/etc/f''" "[''etc'', ''f'']" "[1]" 2
      "sock0 (send_request ''l'' 2 0 1 @ [7] @ enc_u64 7)" 0 "[7]" "[7] @ enc_u64 7" "[]" info0]
      link_tree_dirs link_tree_lookup(1) link_tree_host pay
    by (simp add: canon_def plain_root_def is_sep_def backslash_def ISR_PATH_MAX_def link_tree_nodes has_flag_def
        ISR_FLAG_USE_COMPRESSION_def ISR_FLAG_OVERWRITE_def ISR_FLAG_CREATE_DIRECTORY_def)
qed

text \<open>
  C29. A link to a directory leads out of the jail, too, when the name of that directory continues
  the name of the root (\<open>/srvx\<close> and \<open>/srv\<close>): the server accepts an upload to a path below the
  link and creates the file there.
\<close>

theorem sibling_link_escapes:
  assumes "plain_root (rp @ [d, f])" "rp \<noteq> []" "real_dirs h rp" "length (canon (rp @ [d, f])) < ISR_PATH_MAX"
    and "NUL \<notin> set d" "NUL \<notin> set f"
    and "node_at h (rp @ [d]) = Some (Symlink target)" "lookup h (canon (rp @ [d])) True = Found q"
    and "real_dirs h q" "plain_root q" "prefix (canon rp) (canon q)" "\<not> prefix rp q"
    and "length (canon (q @ [f])) < ISR_PATH_MAX" "node_at h (q @ [f]) = None" "\<not> deny h (q @ [f])"
    and "\<not> has_flag flags ISR_FLAG_CREATE_DIRECTORY"
    and "sock_ok s" "tx_live s" "pending s = send_request (d @ ''/'' @ f) flags b (word_of_nat (length data)) @ w @ rest"
    and "is_payload (has_flag flags ISR_FLAG_USE_COMPRESSION) b data w" "length data < 2 ^ 55"
    and "wr_live h" "can_compress (has_flag flags ISR_FLAG_USE_COMPRESSION) b h"
  shows "\<exists>s' h' info'. isr_receive_command (canon rp) s h info = Some (0, s', h', info') \<and>
    node_at h' (q @ [f]) = Some (File data)"
proof -
  let ?full = "canon (q @ [f])" and ?f = "\<lparr>fd_path = q @ [f], fd_pos = 0\<rparr>"
  have q: "q \<noteq> []"
  proof
    assume "q = []"
    then have "prefix (canon rp) ''/''" using assms(11) by (simp add: canon_def)
    moreover obtain c cs where "rp = c # cs" "c \<noteq> []" using assms(1,2) by (cases rp) (auto simp: plain_root_def)
    ultimately show False by (auto simp: canon_def prefix_def)
  qed
  have df: "plain_root [d, f]" "plain_root (q @ [f])" using assms(1,10) by (simp_all add: plain_root_def)
  have len: "length (canon q) < ISR_PATH_MAX" "length (d @ ''/'' @ f) < ISR_PATH_MAX"
    using assms(4,13) canon_snoc [OF q] canon_append [OF assms(2)] by simp_all
  have valid: "isr_validate_path (d @ ''/'' @ f) = 0" using valid_rel [OF df(1)] by (simp add: rel_path_simps)
  have resolve: "isr_resolve_path h (canon rp) (d @ ''/'' @ f) ISR_PATH_MAX = Some ?full"
    using resolve_parent [OF assms(1,2) _ assms(4), of h q] assms(8,11,13) q len(1)
    by (simp add: rel_path_simps realpath_def butlast_append)
  have "lookup h ?full True = Absent (q @ [f])"
    using lookup_below [OF assms(9) df(2), of True] assms(9,14) df(2)
    by (simp add: real_dirs_def plain_root_def)
  then have stat: "isr_stat h ?full = None" and
    open': "isr_open_write (made_parents h ?full) ?full = (Some ?f, put_node (q @ [f]) (File []) h)"
    using assms(15) made_parents_real [OF assms(9) df(2) q assms(13)] by (simp_all add: isr_stat_def isr_open_write_def)
  have "good_path (d @ ''/'' @ f)" using len(2) assms(5,6) by (simp add: good_path_def)
  moreover have "may_write (isr_stat h ?full) flags" using stat assms(16) by (simp add: may_write_def)
  moreover have "wr_live (put_node (q @ [f]) (File []) h)" using assms(22) by (simp add: wr_live_def)
  moreover have "can_compress (has_flag flags ISR_FLAG_USE_COMPRESSION) b (put_node (q @ [f]) (File []) h)"
    using assms(23) by (simp add: can_compress_def heap_ok_def malloc_def)
  ultimately show ?thesis
    using server_upload [OF assms(17,18) _ assms(19-21) valid resolve _ open'] by fastforce
qed

theorem sibling_link_escapes_witness:
  "\<exists>s' h' info'. isr_receive_command ''/srv'' (sock0 (send_request ''d/f'' 0 0 1 @ [7] @ enc_u64 7)) link_tree info0 =
      Some (0, s', h', info') \<and> node_at h' [''srvx'', ''f''] = Some (File [7])"
proof -
  have pay: "is_payload False 0 [7] ([7] @ enc_u64 7)" by (simp add: is_payload_def)
  show ?thesis
    using sibling_link_escapes [of "[''srv'']" "''d''" "''f''" link_tree "''/srvx''" "[''srvx'']" 0
      "sock0 (send_request ''d/f'' 0 0 1 @ [7] @ enc_u64 7)" 0 "[7]" "[7] @ enc_u64 7" "[]" info0]
      link_tree_dirs link_tree_lookup(2) link_tree_host pay
    by (simp add: canon_def plain_root_def is_sep_def backslash_def ISR_PATH_MAX_def link_tree_nodes has_flag_def
        ISR_FLAG_USE_COMPRESSION_def ISR_FLAG_OVERWRITE_def ISR_FLAG_CREATE_DIRECTORY_def)
qed

end
