(* ===== verification/Lz4_Fast.thy ===== *)
theory Lz4_Fast
  imports Lz4_Enc_Proof
begin

text \<open>
  The other decoder of \<open>lib/lz4.c\<close>, \<open>LZ4_decompress_unsafe_generic\<close>, which is told the size of
  the output and trusts its input, with the entry points that pass it no dictionary, a prefix or
  an external dictionary.

  The output, the bytes before it (the prefix) and the dictionary lie in one memory, a byte list
  whose indices are the addresses. So the output may overwrite the dictionary while it is in use,
  as it does in a ring buffer. The source is a list of its own. An access outside either is \<open>None\<close>.
\<close>

section \<open>The decoder\<close>

text \<open>A pointer difference as a \<open>size_t\<close>.\<close>

definition size_t_of :: "int \<Rightarrow> nat" where
  "size_t_of i = unat (word_of_int i :: u64)"

text \<open>The sum, and the advanced \<open>ip\<close>.\<close>

function read_long_length_no_check :: "bytes \<Rightarrow> nat \<Rightarrow> nat \<Rightarrow> (nat \<times> nat) option" where
  "read_long_length_no_check source ip l =
     (if ip < length source then
        (let b = source ! ip in
         if b = 255 then read_long_length_no_check source (ip + 1) (l + unat b)
         else Some (l + unat b, ip + 1))
      else None)"
  by pat_completeness auto
termination by (relation "measure (\<lambda>(source, ip, l). length source - ip)") auto

declare read_long_length_no_check.simps [simp del]

definition unsafe_length :: "bytes \<Rightarrow> nat \<Rightarrow> nat \<Rightarrow> (nat \<times> nat) option" where
  "unsafe_length source nibble ip =
     (if nibble = 15 then do { (l, ip) \<leftarrow> read_long_length_no_check source ip 0; Some (nibble + l, ip) }
      else Some (nibble, ip))"

definition LZ4_memmove :: "bytes \<Rightarrow> nat \<Rightarrow> int \<Rightarrow> nat \<Rightarrow> bytes option" where
  "LZ4_memmove m d s n = do { bs \<leftarrow> mem_ld m s n; mem_st m (int d) bs }"

text \<open>The arguments and constants of the function: \<open>oend\<close>, \<open>prefixStart\<close> and the dictionary.\<close>

record unsafe_ctx =
  u_src :: bytes
  u_end :: int
  u_prefix :: int
  u_dict :: int
  u_dict_size :: nat

datatype unsafe_step = Unsafe_Next nat nat bytes | Unsafe_End nat bytes | Unsafe_Error bytes

text \<open>The copy of a match: first the part in the dictionary. The result has the advanced \<open>op\<close>.\<close>

definition unsafe_copy :: "unsafe_ctx \<Rightarrow> nat \<Rightarrow> nat \<Rightarrow> nat \<Rightarrow> bytes \<Rightarrow> (bytes \<times> nat) option" where
  "unsafe_copy c offset ml op m =
     (let before = size_t_of (int op - u_prefix c) in
      do {
        (m, op, ml, match) \<leftarrow>
          (if before < offset then
             (let dictEnd = u_dict c + int (u_dict_size c);
                  extMatch = dictEnd - int (offset - before);
                  extml = offset - before
              in if ml < extml then
                   do { m \<leftarrow> LZ4_memmove m op extMatch ml; Some (m, op + ml, 0, u_prefix c) }
                 else
                   do { m \<leftarrow> LZ4_memmove m op extMatch extml; Some (m, op + extml, ml - extml, u_prefix c) })
           else Some (m, op, ml, int op - int offset));
        m \<leftarrow> copy_bytes_to m op match (op + ml);
        Some (m, op + ml) })"

definition unsafe_match :: "unsafe_ctx \<Rightarrow> u8 \<Rightarrow> nat \<Rightarrow> nat \<Rightarrow> bytes \<Rightarrow> unsafe_step option" where
  "unsafe_match c token ip op m =
     do {
       offset \<leftarrow> LZ4_readLE16 (u_src c) ip;
       (ml, ip) \<leftarrow> unsafe_length (u_src c) (match_nibble token) (ip + 2);
       let ml = ml + MINMATCH;
       if size_t_of (u_end c - int op) < ml then Some (Unsafe_Error m)
       else if size_t_of (int op - u_prefix c + int (u_dict_size c)) < offset then Some (Unsafe_Error m)
       else do {
         (m, op) \<leftarrow> unsafe_copy c offset ml op m;
         Some (if size_t_of (u_end c - int op) < LASTLITERALS then Unsafe_Error m
               else Unsafe_Next ip op m) } }"

definition unsafe_iter :: "unsafe_ctx \<Rightarrow> nat \<Rightarrow> nat \<Rightarrow> bytes \<Rightarrow> unsafe_step option" where
  "unsafe_iter c ip op m =
     do {
       token \<leftarrow> byte_at (u_src c) ip;
       (ll, ip) \<leftarrow> unsafe_length (u_src c) (lit_nibble token) (ip + 1);
       if size_t_of (u_end c - int op) < ll then Some (Unsafe_Error m)
       else do {
         m \<leftarrow> copy_lit (u_src c) m op (int ip) ll;
         let op = op + ll;
         let ip = ip + ll;
         if size_t_of (u_end c - int op) < MFLIMIT then
           Some (if int op = u_end c then Unsafe_End ip m else Unsafe_Error m)
         else unsafe_match c token ip op m } }"

lemma read_long_length_ip: "read_long_length_no_check source ip l = Some (k, ip') \<Longrightarrow> ip < ip'"
proof (induction source ip l rule: read_long_length_no_check.induct)
  case (1 source ip l)
  then show ?case
    by (subst (asm) (2) read_long_length_no_check.simps) (force simp: Let_def split: if_splits)
qed

lemma unsafe_length_ip: "unsafe_length source nibble ip = Some (k, ip') \<Longrightarrow> ip \<le> ip'"
  by (auto simp: unsafe_length_def bind_eq_Some_conv dest!: read_long_length_ip split: if_splits)

lemma unsafe_match_ip: "unsafe_match c token ip op m = Some (Unsafe_Next ip' op' m') \<Longrightarrow> ip < ip'"
  by (auto simp: unsafe_match_def Let_def bind_eq_Some_conv split: if_splits dest!: unsafe_length_ip)

lemma unsafe_iter_ip:
  "unsafe_iter c ip op m = Some (Unsafe_Next ip' op' m') \<Longrightarrow> ip < ip' \<and> ip < length (u_src c)"
  by (auto simp: unsafe_iter_def Let_def bind_eq_Some_conv byte_at_def split: if_splits
    dest!: unsafe_match_ip unsafe_length_ip)

function unsafe_loop :: "unsafe_ctx \<Rightarrow> nat \<Rightarrow> nat \<Rightarrow> bytes \<Rightarrow> (int \<times> bytes) option" where
  "unsafe_loop c ip op m =
     (case unsafe_iter c ip op m of
        None \<Rightarrow> None
      | Some (Unsafe_Error m') \<Rightarrow> Some (- 1, m')
      | Some (Unsafe_End ip' m') \<Rightarrow> Some (to_int (int ip'), m')
      | Some (Unsafe_Next ip' op' m') \<Rightarrow> unsafe_loop c ip' op' m')"
  by pat_completeness auto
termination
  by (relation "measure (\<lambda>(c, ip, op, m). length (u_src c) - ip)") (auto dest!: unsafe_iter_ip)

declare unsafe_loop.simps [simp del]

definition LZ4_decompress_unsafe_generic ::
    "bytes \<Rightarrow> bytes \<Rightarrow> nat \<Rightarrow> int \<Rightarrow> nat \<Rightarrow> int \<Rightarrow> nat \<Rightarrow> (int \<times> bytes) option" where
  "LZ4_decompress_unsafe_generic istart m ostart decompressedSize prefixSize dictStart dictSize =
     unsafe_loop \<lparr>u_src = istart, u_end = int ostart + decompressedSize,
       u_prefix = int ostart - int prefixSize, u_dict = dictStart, u_dict_size = dictSize\<rparr> 0 ostart m"

section \<open>The entry points\<close>

text \<open>\<open>NULL\<close> is address 0. The result is the return value with the memory.\<close>

definition LZ4_decompress_fast :: "bytes \<Rightarrow> bytes \<Rightarrow> nat \<Rightarrow> int \<Rightarrow> (int \<times> bytes) option" where
  "LZ4_decompress_fast source m dest originalSize =
     LZ4_decompress_unsafe_generic source m dest originalSize 0 0 0"

definition LZ4_decompress_fast_withPrefix64k :: "bytes \<Rightarrow> bytes \<Rightarrow> nat \<Rightarrow> int \<Rightarrow> (int \<times> bytes) option" where
  "LZ4_decompress_fast_withPrefix64k source m dest originalSize =
     LZ4_decompress_unsafe_generic source m dest originalSize (64 * 1024) 0 0"

definition LZ4_decompress_fast_extDict ::
    "bytes \<Rightarrow> bytes \<Rightarrow> nat \<Rightarrow> int \<Rightarrow> int \<Rightarrow> nat \<Rightarrow> (int \<times> bytes) option" where
  "LZ4_decompress_fast_extDict source m dest originalSize dictStart dictSize =
     LZ4_decompress_unsafe_generic source m dest originalSize 0 dictStart dictSize"

definition LZ4_decompress_fast_usingDict ::
    "bytes \<Rightarrow> bytes \<Rightarrow> nat \<Rightarrow> int \<Rightarrow> int \<Rightarrow> int \<Rightarrow> (int \<times> bytes) option" where
  "LZ4_decompress_fast_usingDict source m dest originalSize dictStart dictSize =
     (if dictSize = 0 \<or> dictStart + dictSize = int dest then
        LZ4_decompress_unsafe_generic source m dest originalSize (size_t_of dictSize) 0 0
      else LZ4_decompress_fast_extDict source m dest originalSize dictStart (size_t_of dictSize))"

end
