(* ===== verification/Lz4_Fast_Proof.thy ===== *)
theory Lz4_Fast_Proof
  imports Lz4_Fast
begin

text \<open>
  \<open>LZ4_decompress_unsafe_generic\<close> against the format. The ghost of the proof is the whole output
  so far, the history: of it the format can refer to the last 65535 bytes, and \<open>reaches\<close> says where
  in the memory the decoder finds each of them, in the prefix or in the dictionary. A write keeps
  this when it hits no byte of the dictionary that can still be referred to (\<open>apart\<close>).
\<close>

section \<open>Writing to the memory\<close>

definition put :: "bytes \<Rightarrow> nat \<Rightarrow> bytes \<Rightarrow> bytes" where
  "put m op bs = take op m @ bs @ drop (op + length bs) m"

lemma length_put [simp]: "op + length bs \<le> length m \<Longrightarrow> length (put m op bs) = length m"
  by (simp add: put_def)

lemma nth_put: "op + length bs \<le> length m \<Longrightarrow> j < length m \<Longrightarrow>
    put m op bs ! j = (if j < op then m ! j else if j < op + length bs then bs ! (j - op) else m ! j)"
  unfolding put_def by (rule nth_splice)

lemma put_Nil [simp]: "put m op [] = m"
  by (simp add: put_def)

lemma put_put: "op + length bs + length cs \<le> length m \<Longrightarrow>
    put (put m op bs) (op + length bs) cs = put m op (bs @ cs)"
  by (simp add: put_def ac_simps)

lemma mem_st_put: "op + length bs \<le> length m \<Longrightarrow> mem_st m (int op) bs = Some (put m op bs)"
  by (simp add: put_def)

lemma take_drop_put: "op + length bs \<le> length m \<Longrightarrow> take (length bs) (drop op (put m op bs)) = bs"
  by (simp add: put_def)

section \<open>Matches on the history\<close>

lemma lz_copy_0 [simp]: "lz_copy out off 0 = out"
  by (simp add: lz_copy_def)

lemma lz_byte_step:
  assumes "0 < off" "off \<le> length out"
  shows "lz_byte out (length out) off (length out + n) = lz_copy out off n ! (length out + n - off)"
proof (cases "n < off")
  case True
  then have "length out + n - off < length out" using assms by simp
  with True assms show ?thesis by (simp add: lz_copy_def nth_append lz_byte_def)
next
  case False
  then have "length out + n - off = length out + (n - off)" "n - off < n" using assms(1) by simp_all
  with False assms(1) show ?thesis by (simp add: lz_copy_def nth_append lz_byte_def le_mod_geq)
qed

lemma lz_copy_Suc:
  assumes "0 < off" "off \<le> length out"
  shows "lz_copy out off (Suc n) = lz_copy out off n @ [lz_copy out off n ! (length out + n - off)]"
  using lz_byte_step [OF assms, of n] by (simp add: lz_copy_def)

lemma lz_copy_add:
  assumes "0 < off" "off \<le> length out"
  shows "lz_copy (lz_copy out off a) off b = lz_copy out off (a + b)"
proof (induction b)
  case (Suc b)
  have "off \<le> length (lz_copy out off a)" using assms(2) by simp
  from lz_copy_Suc [OF assms(1) this, of b] lz_copy_Suc [OF assms, of "a + b"] Suc.IH
  show ?case by (simp add: add.assoc)
qed simp

lemma lz_copy_short:
  assumes "0 < off" "off \<le> length out" "n \<le> off"
  shows "lz_copy out off n = out @ take n (drop (length out - off) out)"
  using assms by (auto simp: lz_copy_def lz_byte_def intro!: nth_equalityI)

text \<open>The bytes that a match appends.\<close>

definition matched_bytes :: "bytes \<Rightarrow> nat \<Rightarrow> nat \<Rightarrow> bytes" where
  "matched_bytes out off n = drop (length out) (lz_copy out off n)"

lemma length_matched [simp]: "length (matched_bytes out off n) = n"
  by (simp add: matched_bytes_def)

lemma append_matched: "out @ matched_bytes out off n = lz_copy out off n"
  by (simp add: matched_bytes_def lz_copy_def)

lemma matched_add:
  assumes "0 < off" "off \<le> length out"
  shows "matched_bytes out off (a + b) = matched_bytes out off a @ matched_bytes (lz_copy out off a) off b"
proof -
  have "lz_copy out off (a + b) = out @ matched_bytes out off a @ matched_bytes (lz_copy out off a) off b"
    using append_matched [of "lz_copy out off a" off b] append_matched [of out off a] lz_copy_add [OF assms, of a b]
    by (metis append.assoc)
  then show ?thesis by (simp add: matched_bytes_def)
qed

lemma matched_short: "0 < off \<Longrightarrow> off \<le> length out \<Longrightarrow> n \<le> off \<Longrightarrow>
    matched_bytes out off n = take n (drop (length out - off) out)"
  by (simp add: matched_bytes_def lz_copy_short)

section \<open>Where the history is\<close>

text \<open>
  The position of the byte \<open>k\<close> before \<open>op\<close>, for a prefix that starts at \<open>ps\<close> and a dictionary of
  \<open>ds\<close> bytes that ends at \<open>de\<close>.
\<close>

definition origin :: "int \<Rightarrow> int \<Rightarrow> nat \<Rightarrow> nat \<Rightarrow> int" where
  "origin ps de op k = (if int k \<le> int op - ps then int op - int k else de - (int k - (int op - ps)))"

definition reaches :: "int \<Rightarrow> int \<Rightarrow> nat \<Rightarrow> nat \<Rightarrow> bytes \<Rightarrow> bytes \<Rightarrow> bool" where
  "reaches ps de ds op m hist \<longleftrightarrow> ps \<le> int op \<and> op \<le> length m \<and>
     int (min 65535 (length hist)) \<le> int op - ps + int ds \<and>
     (\<forall>k. 0 < k \<and> k \<le> min 65535 (length hist) \<longrightarrow>
        0 \<le> origin ps de op k \<and> nat (origin ps de op k) < length m \<and>
        m ! nat (origin ps de op k) = hist ! (length hist - k))"

definition apart :: "int \<Rightarrow> int \<Rightarrow> nat \<Rightarrow> int \<Rightarrow> int \<Rightarrow> bool" where
  "apart ps de ds lo hi \<longleftrightarrow> de \<le> lo \<or> hi \<le> de - int ds \<or> ps + 65535 \<le> de"

lemma reachesD:
  assumes "reaches ps de ds op m hist" "0 < k" "k \<le> min 65535 (length hist)"
  shows "0 \<le> origin ps de op k" "nat (origin ps de op k) < length m"
    "m ! nat (origin ps de op k) = hist ! (length hist - k)"
  using assms by (auto simp: reaches_def)

lemma reaches_put:
  assumes "reaches ps de ds op m hist" "apart ps de ds lo hi" "lo \<le> int op" "int (op + length bs) \<le> hi"
    "op + length bs \<le> length m"
  shows "reaches ps de ds (op + length bs) (put m op bs) (hist @ bs)"
  unfolding reaches_def
proof (intro conjI allI impI)
  have r: "ps \<le> int op" "int (min 65535 (length hist)) \<le> int op - ps + int ds"
    using assms(1) by (auto simp: reaches_def)
  then show "ps \<le> int (op + length bs)"
    "int (min 65535 (length (hist @ bs))) \<le> int (op + length bs) - ps + int ds" by simp_all
  show "op + length bs \<le> length (put m op bs)" using assms(5) by simp
  fix k
  assume k: "0 < k \<and> k \<le> min 65535 (length (hist @ bs))"
  let ?p = "origin ps de (op + length bs) k"
  have "0 \<le> ?p \<and> nat ?p < length m \<and> put m op bs ! nat ?p = (hist @ bs) ! (length (hist @ bs) - k)"
  proof (cases "k \<le> length bs")
    case True
    then obtain i where i: "length bs = i + k" by (metis le_add_diff_inverse2)
    then have p: "?p = int (op + i)" using r(1) by (simp add: origin_def)
    have "length (hist @ bs) - k = length hist + i" using i by simp
    moreover have "put m op bs ! (op + i) = bs ! i" using i k assms(5) by (simp add: nth_put)
    moreover have "nat ?p = op + i" "0 \<le> ?p" "op + i < length m" using p i k assms(5) by auto
    ultimately show ?thesis by (simp only: nth_append_length_plus)
  next
    case False
    define j where "j = k - length bs"
    have j: "0 < j" "j \<le> min 65535 (length hist)" "k = j + length bs" "j + length bs \<le> 65535"
      using False k by (auto simp: j_def)
    have p: "?p = origin ps de op j" by (simp add: origin_def j(3))
    have "?p < int op \<or> int (op + length bs) \<le> ?p"
    proof (cases "int j \<le> int op - ps")
      case True
      with p j(1) show ?thesis by (simp add: origin_def)
    next
      case far: False
      then have q: "?p = de - (int j - (int op - ps))" using p by (simp add: origin_def)
      have "int j \<le> int (min 65535 (length hist))" using j(2) by (simp only: of_nat_le_iff)
      with r(2) have "int j - (int op - ps) \<le> int ds" by linarith
      with q far assms(2-4) j(4) show ?thesis by (auto simp: apart_def)
    qed
    with reachesD [OF assms(1) j(1,2)] p assms(5)
    have "put m op bs ! nat ?p = hist ! (length hist - j)" by (auto simp: nth_put)
    with reachesD [OF assms(1) j(1,2)] p j show ?thesis by (auto simp: nth_append)
  qed
  then show "0 \<le> ?p" "nat ?p < length (put m op bs)"
    "put m op bs ! nat ?p = (hist @ bs) ! (length (hist @ bs) - k)" using assms(5) by simp_all
qed

text \<open>The byte at a distance within the prefix, and a piece of the dictionary.\<close>

lemma reaches_near:
  assumes "reaches ps de ds op m hist" "0 < off" "off \<le> min 65535 (length hist)" "int off \<le> int op - ps"
  shows "off \<le> op" "m ! (op - off) = hist ! (length hist - off)"
  using reachesD [OF assms(1-3)] assms(4) by (simp_all add: origin_def nat_diff_distrib')

lemma reaches_far:
  assumes "reaches ps de ds op m hist" "off \<le> min 65535 (length hist)" "before = nat (int op - ps)"
    "before < off" "n \<le> off - before"
  shows "mem_ld m (de - int (off - before)) n = Some (take n (drop (length hist - off) hist))"
proof -
  have ps: "ps \<le> int op" using assms(1) by (simp add: reaches_def)
  have at: "0 \<le> de - int (off - before) + int i \<and> nat (de - int (off - before) + int i) < length m \<and>
      m ! nat (de - int (off - before) + int i) = hist ! (length hist - off + i)" if "i < off - before" for i
  proof -
    have o: "origin ps de op (off - i) = de - int (off - before) + int i"
      using that assms(3) ps by (auto simp: origin_def of_nat_diff)
    have k: "0 < off - i" "off - i \<le> min 65535 (length hist)" "length hist - (off - i) = length hist - off + i"
      using that assms(2) by auto
    from reachesD [OF assms(1) k(1,2)] show ?thesis unfolding o k(3) by blast
  qed
  have "0 \<le> de - int (off - before)" using at [of 0] assms(4) by simp
  then obtain s where s: "de - int (off - before) = int s" by (rule nonneg_int_cases)
  have "s + i < length m \<and> m ! (s + i) = hist ! (length hist - off + i)" if "i < off - before" for i
    using at [OF that] by (simp add: s nat_add_distrib)
  moreover obtain i where i: "off - before = Suc i" using assms(4) by (metis Suc_diff_Suc)
  then have "s + i < length m" using calculation [of i] by simp
  with i assms(5) have "s + n \<le> length m" by simp
  moreover have "take n (drop s m) = take n (drop (length hist - off) hist)"
    by (rule nth_equalityI) (use calculation assms(2,5) in auto)
  ultimately show ?thesis by (simp add: s)
qed

section \<open>The stages\<close>

lemma size_t_of_small: "0 \<le> i \<Longrightarrow> i < 2 ^ 64 \<Longrightarrow> size_t_of i = nat i"
  by (simp add: size_t_of_def unat_eq_nat_uint uint_word_of_int)

lemma drop_eq_Cons:
  assumes "drop ip xs = x # ys"
  shows "ip < length xs" "xs ! ip = x" "drop (ip + 1) xs = ys" "ip + 1 + length ys = length xs"
proof -
  show ip: "ip < length xs" using assms by (metis drop_eq_Nil list.distinct(1) not_le)
  with assms show "xs ! ip = x" "drop (ip + 1) xs = ys" by (simp_all add: Cons_nth_drop_Suc [symmetric])
  with ip show "ip + 1 + length ys = length xs" by auto
qed

lemma read_long_length_ext:
  assumes "drop ip source = bs @ rest" "ext_len bs = Some (k, r)"
  shows "\<exists>ip'. read_long_length_no_check source ip l = Some (l + k, ip') \<and> drop ip' source = r @ rest \<and>
    ip' + length r = ip + length bs"
  using assms
proof (induction bs arbitrary: ip l k)
  case (Cons b bs)
  from Cons.prems(1) have ip: "ip < length source" "source ! ip = b" and next_ip: "drop (ip + 1) source = bs @ rest"
    using drop_eq_Cons [of ip source b "bs @ rest"] by simp_all
  show ?case
  proof (cases "b = 255")
    case True
    with Cons.prems(2) obtain k' where k: "ext_len bs = Some (k', r)" "k = 255 + k'" by auto
    from Cons.IH [OF next_ip k(1), of "l + 255"] ip True k(2) show ?thesis
      by (subst read_long_length_no_check.simps) (simp add: add.assoc)
  next
    case False
    with Cons.prems(2) ip next_ip show ?thesis
      by (subst read_long_length_no_check.simps) simp
  qed
qed simp

lemma unsafe_length_varlen:
  assumes "drop ip source = bs @ rest" "varlen n bs = Some (k, r)"
  shows "\<exists>ip'. unsafe_length source n ip = Some (k, ip') \<and> drop ip' source = r @ rest \<and>
    ip' + length r = ip + length bs"
proof (cases "n = 15")
  case True
  with assms(2) obtain j where j: "ext_len bs = Some (j, r)" "k = 15 + j" by (auto simp: varlen_def)
  from read_long_length_ext [OF assms(1) j(1), of 0] True j(2) show ?thesis
    by (auto simp: unsafe_length_def)
qed (use assms in \<open>auto simp: varlen_def unsafe_length_def\<close>)

lemma copy_bytes_near:
  assumes "reaches ps de ds op m hist" "0 < off" "off \<le> min 65535 (length hist)" "int off \<le> int op - ps"
    "apart ps de ds lo hi" "lo \<le> int op" "int (op + n) \<le> hi" "op + n \<le> length m"
  shows "copy_bytes_to m op (int op - int off) (op + n) = Some (put m op (matched_bytes hist off n))"
  using assms
proof (induction n arbitrary: op m hist)
  case 0
  then show ?case
    by (subst copy_bytes_to.simps) (simp add: matched_bytes_def)
next
  case (Suc n)
  let ?x = "[hist ! (length hist - off)]"
  have near: "off \<le> op" "m ! (op - off) = hist ! (length hist - off)"
    using reaches_near [OF Suc.prems(1-4)] by auto
  have "mem_ld m (int (op - off)) 1 = Some ?x"
    using near Suc.prems(2,8) by (subst mem_ld_in) (simp_all add: take_Suc_conv_app_nth)
  then have step: "copy_byte m op (int op - int off) = Some (put m op ?x)"
    using near(1) Suc.prems(8) by (simp add: copy_byte_def of_nat_diff mem_st_put del: mem_st_in mem_ld_in)
  have "reaches ps de ds (op + length ?x) (put m op ?x) (hist @ ?x)"
    using Suc.prems by (intro reaches_put [where lo = lo and hi = hi]) simp_all
  then have "copy_bytes_to (put m op ?x) (op + 1) (int (op + 1) - int off) (op + 1 + n) =
      Some (put (put m op ?x) (op + 1) (matched_bytes (hist @ ?x) off n))"
    using Suc.prems by (intro Suc.IH) (auto simp: min_def split: if_splits)
  also have "put (put m op ?x) (op + 1) (matched_bytes (hist @ ?x) off n) =
      put m op (?x @ matched_bytes (hist @ ?x) off n)"
    using put_put [of op ?x "matched_bytes (hist @ ?x) off n" m] Suc.prems(8) by simp
  also have "?x @ matched_bytes (hist @ ?x) off n = matched_bytes hist off (Suc n)"
  proof -
    have "matched_bytes hist off 1 = ?x" "lz_copy hist off 1 = hist @ ?x"
      using Suc.prems(2,3) lz_copy_Suc [of off hist 0] by (simp_all add: matched_bytes_def)
    then show ?thesis using matched_add [of off hist 1 n] Suc.prems(2,3) by simp
  qed
  finally show ?case
    using step by (subst copy_bytes_to.simps) (simp add: algebra_simps)
qed

lemma unsafe_copy_ok:
  assumes "reaches (u_prefix c) (u_dict c + int (u_dict_size c)) (u_dict_size c) op m hist"
    and "0 < off" "off \<le> min 65535 (length hist)"
    and "apart (u_prefix c) (u_dict c + int (u_dict_size c)) (u_dict_size c) lo hi" "lo \<le> int op"
    and "int (op + ml) \<le> hi" "op + ml \<le> length m" "int op - u_prefix c < 2 ^ 64"
  shows "unsafe_copy c off ml op m = Some (put m op (matched_bytes hist off ml), op + ml)"
proof -
  have ps: "u_prefix c \<le> int op" using assms(1) by (simp add: reaches_def)
  define before where "before = nat (int op - u_prefix c)"
  have b: "size_t_of (int op - u_prefix c) = before"
    using ps assms(8) by (simp add: size_t_of_small before_def)
  note near = copy_bytes_near [where lo = lo and hi = hi]
  show ?thesis
  proof (cases "before < off")
    case False
    then have "int off \<le> int op - u_prefix c" using ps by (simp add: before_def)
    from near [OF assms(1-3) this assms(4-7)] False show ?thesis
      by (simp add: unsafe_copy_def b)
  next
    case far: True
    define e where "e = off - before"
    have move: "LZ4_memmove m op (u_dict c + int (u_dict_size c) - int e) n =
        Some (put m op (matched_bytes hist off n))" if "n \<le> e" "op + n \<le> length m" for n
      using reaches_far [OF assms(1,3) before_def far, of n] that assms(2,3)
      by (simp add: LZ4_memmove_def e_def mem_st_put matched_short del: mem_st_in)
    show ?thesis
    proof (cases "ml < e")
      case True
      with move [of ml] far b assms(7) show ?thesis
        by (simp add: unsafe_copy_def e_def Let_def copy_bytes_to.simps)
    next
      case False
      then have ml: "ml = e + (ml - e)" by simp
      let ?x = "matched_bytes hist off e"
      have len: "op + length ?x \<le> length m" using assms(7) False by simp
      have r: "reaches (u_prefix c) (u_dict c + int (u_dict_size c)) (u_dict_size c) (op + e) (put m op ?x) (hist @ ?x)"
        using reaches_put [OF assms(1,4,5) _ len] assms(6) False by simp
      have pre: "u_prefix c = int (op + e) - int off"
        using far ps by (simp add: e_def before_def)
      have "copy_bytes_to (put m op ?x) (op + e) (u_prefix c) (op + e + (ml - e)) =
          Some (put (put m op ?x) (op + e) (matched_bytes (hist @ ?x) off (ml - e)))"
        unfolding pre using assms(2-7) len False pre
        by (intro near [OF r]) simp_all
      also have "put (put m op ?x) (op + e) (matched_bytes (hist @ ?x) off (ml - e)) =
          put m op (matched_bytes hist off ml)"
        using put_put [of op ?x "matched_bytes (hist @ ?x) off (ml - e)" m] assms(2,3,7) False
          matched_add [of off hist e "ml - e"] ml by (simp add: append_matched)
      finally show ?thesis
        using move [of e] far b len False by (simp add: unsafe_copy_def e_def Let_def)
    qed
  qed
qed

section \<open>The loop\<close>

text \<open>
  What holds at the top of the loop and between its stages. \<open>tot\<close> is the size of the history once
  the output is complete, \<open>lo\<close> the start of the output.
\<close>

definition fast_inv :: "unsafe_ctx \<Rightarrow> int \<Rightarrow> nat \<Rightarrow> nat \<Rightarrow> bytes \<Rightarrow> bytes \<Rightarrow> bool" where
  "fast_inv c lo tot op m hist \<longleftrightarrow>
     reaches (u_prefix c) (u_dict c + int (u_dict_size c)) (u_dict_size c) op m hist \<and>
     apart (u_prefix c) (u_dict c + int (u_dict_size c)) (u_dict_size c) lo (u_end c) \<and> lo \<le> int op \<and>
     u_end c \<le> int (length m) \<and> u_end c - int op = int tot - int (length hist) \<and>
     u_end c - u_prefix c + int (u_dict_size c) < 2 ^ 64"

lemma fast_inv_room:
  assumes "fast_inv c lo tot op m hist" "length hist \<le> tot"
  shows "size_t_of (u_end c - int op) = tot - length hist"
    and "size_t_of (int op - u_prefix c + int (u_dict_size c)) = nat (int op - u_prefix c + int (u_dict_size c))"
    and "int (min 65535 (length hist)) \<le> int op - u_prefix c + int (u_dict_size c)"
proof -
  note inv = assms(1) [unfolded fast_inv_def reaches_def]
  from inv assms(2) have "0 \<le> u_end c - int op" "u_end c - int op < 2 ^ 64"
    "0 \<le> int op - u_prefix c + int (u_dict_size c)" "int op - u_prefix c + int (u_dict_size c) < 2 ^ 64"
    by linarith+
  with inv assms(2) show "size_t_of (u_end c - int op) = tot - length hist"
    "size_t_of (int op - u_prefix c + int (u_dict_size c)) = nat (int op - u_prefix c + int (u_dict_size c))"
    "int (min 65535 (length hist)) \<le> int op - u_prefix c + int (u_dict_size c)"
    by (simp_all add: size_t_of_small nat_diff_distrib')
qed

lemma fast_inv_put:
  assumes "fast_inv c lo tot op m hist" "length hist + length bs \<le> tot"
  shows "op + length bs \<le> length m" "fast_inv c lo tot (op + length bs) (put m op bs) (hist @ bs)"
proof -
  from assms have le: "int (op + length bs) \<le> u_end c" "u_end c \<le> int (length m)"
    by (auto simp: fast_inv_def)
  then show "op + length bs \<le> length m" by linarith
  with reaches_put [of _ _ _ op m hist lo "u_end c" bs] assms le
  show "fast_inv c lo tot (op + length bs) (put m op bs) (hist @ bs)"
    by (auto simp: fast_inv_def)
qed

lemma copy_lit_put:
  assumes "drop ip source = bs @ rest" "ip \<le> length source" "n \<le> length bs" "op + n \<le> length m"
  shows "copy_lit source m op (int ip) n = Some (put m op (take n bs))"
proof -
  have "length (bs @ rest) = length source - ip" by (simp flip: assms(1))
  with assms(2,3) have "ip + n \<le> length source" by simp
  with assms show ?thesis by (simp add: copy_lit_def put_def)
qed

lemma unsafe_match_ok:
  assumes inv: "fast_inv c lo tot op m hist" and src: "drop ip (u_src c) = b0 # b1 # r @ rest"
    and off: "off = unat b0 + 256 * unat b1" "0 < off" "off \<le> length hist"
    and ml: "varlen (match_nibble token) r = Some (ml, r')" "length hist + (ml + 4) + 5 \<le> tot"
  shows "\<exists>ip'. unsafe_match c token ip op m =
      Some (Unsafe_Next ip' (op + (ml + 4)) (put m op (matched_bytes hist off (ml + 4)))) \<and>
    drop ip' (u_src c) = r' @ rest \<and> ip' + length r' = ip + 2 + length r \<and>
    fast_inv c lo tot (op + (ml + 4)) (put m op (matched_bytes hist off (ml + 4))) (lz_copy hist off (ml + 4))"
proof -
  have "ip + 2 \<le> length (u_src c)" using arg_cong [OF src, of length] by simp
  moreover have "drop (ip + 2) (u_src c) = r @ rest"
    using arg_cong [OF src, of "drop 2"] by (simp add: add.commute)
  ultimately have le16: "LZ4_readLE16 (u_src c) ip = Some off" and r: "drop (ip + 2) (u_src c) = r @ rest"
    using src off(1) by (simp_all add: LZ4_readLE16_def)
  from unsafe_length_varlen [OF r ml(1)] obtain ip' where ip': "drop ip' (u_src c) = r' @ rest"
    "unsafe_length (u_src c) (match_nibble token) (ip + 2) = Some (ml, ip')"
    "ip' + length r' = ip + 2 + length r" by auto
  have small: "off \<le> min 65535 (length hist)"
    using off unat_u8_le [of b0] unat_u8_le [of b1] by simp
  have hist: "length hist \<le> tot" using ml(2) by simp
  note room = fast_inv_room [OF inv hist]
  have next_inv: "op + (ml + 4) \<le> length m"
    "fast_inv c lo tot (op + (ml + 4)) (put m op (matched_bytes hist off (ml + 4))) (lz_copy hist off (ml + 4))"
    using fast_inv_put [OF inv, of "matched_bytes hist off (ml + 4)"] ml(2) by (simp_all add: append_matched)
  have "\<not> nat (int op - u_prefix c + int (u_dict_size c)) < off" using room(3) small by linarith
  moreover have "unsafe_copy c off (ml + 4) op m =
      Some (put m op (matched_bytes hist off (ml + 4)), op + (ml + 4))"
    using inv off(2) small next_inv(1) ml(2)
    by (intro unsafe_copy_ok [where lo = lo and hi = "u_end c"]) (auto simp: fast_inv_def reaches_def)
  moreover have "size_t_of (u_end c - int (op + (ml + 4))) = tot - (length hist + (ml + 4))"
    using fast_inv_room(1) [OF next_inv(2)] ml(2) by simp
  moreover have "\<not> tot - (length hist + (ml + 4)) < 5" "\<not> tot - length hist < ml + 4"
    using ml(2) by linarith+
  ultimately show ?thesis
    using le16 ip' room(1,2) next_inv(2) by (simp add: unsafe_match_def Let_def add.assoc)
qed

lemma unsafe_loop_ok:
  assumes "fast_inv c lo tot op m hist" "drop ip (u_src c) = bs @ rest"
    and "lz4_strict tot bs (length hist)" "lz4_distances bs"
  shows "\<exists>data. lz4_decode bs hist = Some (hist @ data) \<and> length hist + length data = tot \<and>
    unsafe_loop c ip op m = Some (to_int (int (ip + length bs)), put m op data)"
  using assms
proof (induction "length bs" arbitrary: bs ip op m hist rule: less_induct)
  case less
  note inv = less.prems(1)
  obtain token r0 where bs: "bs = token # r0"
    using less.prems(3) by (cases bs) (auto simp: lz4_strict.simps)
  with less.prems(3) obtain ll r1 where v: "varlen (lit_nibble token) r0 = Some (ll, r1)"
    and lit: "strict_lit tot token ll r1 (length hist)"
    by (auto simp: lz4_strict_Cons split: option.splits)
  then have ll: "ll \<le> length r1" by (simp add: strict_lit_def)
  have ip: "ip < length (u_src c)" "u_src c ! ip = token" "drop (ip + 1) (u_src c) = r0 @ rest"
    "ip + length bs \<le> length (u_src c)"
    using less.prems(2) bs drop_eq_Cons [of ip "u_src c" token "r0 @ rest"] by simp_all
  from unsafe_length_varlen [OF ip(3) v] obtain ip1 where
    ip1: "unsafe_length (u_src c) (lit_nibble token) (ip + 1) = Some (ll, ip1)"
      "drop ip1 (u_src c) = r1 @ rest" "ip1 + length r1 = ip + length bs" using bs by auto
  let ?lits = "take ll r1" and ?m = "put m op (take ll r1)"
  have dec: "lz4_decode bs hist = decode_lit token ll r1 hist"
    using bs v by (simp add: lz4_decode_Cons)
  have tot: "length hist + ll \<le> tot"
    using lit by (auto simp: strict_lit_def strict_match_def split: list.splits)
  have inv1: "op + ll \<le> length m" "fast_inv c lo tot (op + ll) ?m (hist @ ?lits)"
    using fast_inv_put [OF inv, of ?lits] ll tot by simp_all
  have copy: "copy_lit (u_src c) m op (int ip1) ll = Some ?m"
    using copy_lit_put [OF ip1(2) _ ll inv1(1)] ip1(3) ip(4) by simp
  have room: "size_t_of (u_end c - int op) = tot - length hist"
    "size_t_of (u_end c - int (op + ll)) = tot - (length hist + ll)"
    using fast_inv_room(1) [OF inv] fast_inv_room(1) [OF inv1(2)] tot ll by simp_all
  have fits: "\<not> tot - length hist < ll" using tot by linarith
  have iter: "unsafe_iter c ip op m =
      (if tot - (length hist + ll) < 12 then
         Some (if int (op + ll) = u_end c then Unsafe_End (ip1 + ll) ?m else Unsafe_Error ?m)
       else unsafe_match c token (ip1 + ll) (op + ll) ?m)"
    using ip ip1(1) copy room fits by (simp add: unsafe_iter_def byte_at_def Let_def)
  have after: "drop (ip1 + ll) (u_src c) = drop ll r1 @ rest"
    using arg_cong [OF ip1(2), of "drop ll"] ll by (simp add: add.commute)
  show ?case
  proof (cases "drop ll r1")
    case Nil
    then have lits: "ll = length r1" using ll by simp
    with Nil lit have n: "length hist + ll = tot" by (simp add: strict_lit_def)
    with inv have "int (op + ll) = u_end c" by (auto simp: fast_inv_def)
    with iter n have "unsafe_loop c ip op m = Some (to_int (int (ip1 + ll)), ?m)"
      by (subst unsafe_loop.simps) simp
    with Nil lits n ip1(3) show ?thesis unfolding dec by (simp add: decode_lit_def)
  next
    case (Cons b0 tail)
    with lit obtain b1 r3 ml r4 where d: "drop ll r1 = b0 # b1 # r3"
      and off: "unat b0 + 256 * unat b1 \<le> length hist + ll" "length hist + ll + 12 \<le> tot"
      and m: "varlen (match_nibble token) r3 = Some (ml, r4)"
        "length hist + ll + (ml + 4) + 5 \<le> tot" "lz4_strict tot r4 (length hist + ll + (ml + 4))"
      by (auto simp: strict_lit_def strict_match_def split: list.splits option.splits)
    define off where "off = unat b0 + 256 * unat b1"
    have dist: "0 < off" "lz4_distances r4"
      using less.prems(4) bs v d m(1) by (simp_all add: lz4_distances.simps(2) off_def)
    let ?h = "hist @ ?lits"
    have h: "length ?h = length hist + ll" using ll by simp
    from after d have "drop (ip1 + ll) (u_src c) = b0 # b1 # r3 @ rest" by simp
    from unsafe_match_ok [OF inv1(2) this off_def dist(1) _ m(1)] h off(1) m(2)
    obtain ip2 where ip2: "unsafe_match c token (ip1 + ll) (op + ll) ?m =
        Some (Unsafe_Next ip2 (op + ll + (ml + 4)) (put ?m (op + ll) (matched_bytes ?h off (ml + 4))))"
      "drop ip2 (u_src c) = r4 @ rest" "ip2 + length r4 = ip1 + ll + 2 + length r3"
      "fast_inv c lo tot (op + ll + (ml + 4)) (put ?m (op + ll) (matched_bytes ?h off (ml + 4)))
        (lz_copy ?h off (ml + 4))" by (auto simp: off_def)
    have "length r4 < length bs"
      using varlen_shorter [OF v] varlen_shorter [OF m(1)] arg_cong [OF d, of length] bs by simp
    from less.hyps [OF this ip2(4,2) _ dist(2)] m(3) h obtain data where
      IH: "lz4_decode r4 (lz_copy ?h off (ml + 4)) = Some (lz_copy ?h off (ml + 4) @ data)"
        "length hist + ll + (ml + 4) + length data = tot"
        "unsafe_loop c ip2 (op + ll + (ml + 4)) (put ?m (op + ll) (matched_bytes ?h off (ml + 4))) =
         Some (to_int (int (ip2 + length r4)),
           put (put ?m (op + ll) (matched_bytes ?h off (ml + 4))) (op + ll + (ml + 4)) data)" by auto
    let ?data = "?lits @ matched_bytes ?h off (ml + 4) @ data"
    have "u_end c = int op + int (tot - length hist)" "u_end c \<le> int (length m)"
      using inv tot by (auto simp: fast_inv_def)
    then have room2: "op + length ?data \<le> length m" using IH(2) ll by simp
    have "put (put ?m (op + ll) (matched_bytes ?h off (ml + 4))) (op + ll + (ml + 4)) data = put m op ?data"
      using put_put [of op ?lits "matched_bytes ?h off (ml + 4)" m] put_put [of op "?lits @ matched_bytes ?h off (ml + 4)" data m]
        room2 ll by (simp add: add.assoc)
    moreover have "ip2 + length r4 = ip + length bs"
      using ip2(3) ip1(3) arg_cong [OF d, of length] ll by simp
    moreover have "\<not> tot - (length hist + ll) < 12" using off(2) by linarith
    ultimately have "unsafe_loop c ip op m = Some (to_int (int (ip + length bs)), put m op ?data)"
      using iter ip2(1) IH(3) by (subst unsafe_loop.simps) simp
    moreover have "lz4_decode bs hist = Some (hist @ ?data)"
      unfolding dec using ll d off(1) m(1) IH(1) h
      by (simp add: decode_lit_def decode_match_def off_def flip: append_matched)
    ultimately show ?thesis using IH(2) ll by (intro exI [of _ ?data]) simp
  qed
qed

section \<open>The decoder on a block\<close>

lemma unsafe_generic_ok:
  assumes "reaches (int dest - int prefixSize) (dict + int dictSize) dictSize dest m hist"
    and "apart (int dest - int prefixSize) (dict + int dictSize) dictSize (int dest) (int (dest + n))"
    and "dest + n \<le> length m" "n + prefixSize + dictSize < 2 ^ 64" "length blk < 2 ^ 31"
    and "lz4_strict (length hist + n) blk (length hist)" "lz4_distances blk"
  shows "\<exists>data. lz4_decode blk hist = Some (hist @ data) \<and> length data = n \<and>
    LZ4_decompress_unsafe_generic (blk @ rest) m dest (int n) prefixSize dict dictSize =
      Some (int (length blk), put m dest data)"
proof -
  let ?c = "\<lparr>u_src = blk @ rest, u_end = int dest + int n, u_prefix = int dest - int prefixSize,
    u_dict = dict, u_dict_size = dictSize\<rparr>"
  have "fast_inv ?c (int dest) (length hist + n) dest m hist"
    using assms(1-4) by (simp add: fast_inv_def)
  from unsafe_loop_ok [OF this _ assms(6,7), of 0 rest] assms(5) show ?thesis
    by (auto simp: LZ4_decompress_unsafe_generic_def to_int_small)
qed

text \<open>Without a dictionary.\<close>

lemma reaches_Nil: "dest \<le> length m \<Longrightarrow> reaches (int dest) de ds dest m []"
  by (simp add: reaches_def)

lemma LZ4_decompress_fast_ok:
  assumes "dest + n \<le> length m" "n < 2 ^ 64" "length blk < 2 ^ 31" "lz4_strict n blk 0" "lz4_distances blk"
  shows "\<exists>data. lz4_decode blk [] = Some data \<and> length data = n \<and>
    LZ4_decompress_fast (blk @ rest) m dest (int n) = Some (int (length blk), put m dest data)"
  using unsafe_generic_ok [of dest 0 0 0 m "[]" n blk rest] assms reaches_Nil [of dest m 0 0]
  by (simp add: LZ4_decompress_fast_def apart_def)

text \<open>The 64 KB prefix is a dictionary that ends at the destination.\<close>

lemma withPrefix64k_usingDict: "LZ4_decompress_fast_withPrefix64k source m dest n =
    LZ4_decompress_fast_usingDict source m dest n (int dest - 65536) 65536"
  by (simp add: LZ4_decompress_fast_withPrefix64k_def LZ4_decompress_fast_usingDict_def size_t_of_small)

section \<open>Properties\<close>

text \<open>
  C20. The two decoders agree. On a block that keeps to the format, \<open>LZ4_decompress_fast\<close> returns the
  size of the block, whatever follows it in the source, and stores at its destination, and nowhere
  else, the bytes that \<open>LZ4_decompress_safe\<close> decodes.
\<close>

theorem lz4_decoders_agree:
  assumes "lz4_strict n blk 0" "lz4_distances blk" "0 < n" "length blk < 2 ^ 31"
    and "n \<le> cap" "cap \<le> length dst" "src_at + length blk < 2 ^ 64" "dst_at + cap < 2 ^ 64"
    and "dest + n \<le> length m"
  shows "\<exists>dst'. LZ4_decompress_safe blk src_at dst dst_at (int cap) = Some (int n, dst') \<and>
    LZ4_decompress_fast (blk @ rest) m dest (int n) =
      Some (int (length blk), take dest m @ take n dst' @ drop (dest + n) m)"
proof -
  obtain dst' where safe: "LZ4_decompress_safe blk src_at dst dst_at (int cap) = Some (int n, dst')"
    "lz4_decode blk [] = Some (take n dst')"
    using lz4_decompress_safe_complete [OF assms(6-8,1,3,5)] by blast
  have "n < 2 ^ 64" using assms(5,8) by simp
  with LZ4_decompress_fast_ok [OF assms(9) _ assms(4,1,2), of rest] safe show ?thesis
    by (auto simp: put_def)
qed

theorem lz4_decoders_agree_witness:
  "\<exists>dst'. LZ4_decompress_safe [0x20, 65, 66] 1000 (replicate 8 7) 5000 (int 8) = Some (int 2, dst') \<and>
    LZ4_decompress_fast ([0x20, 65, 66] @ [1, 2, 3]) (replicate 6 0) 3 (int 2) =
      Some (int (length [0x20, 65, 66 :: u8]), take 3 (replicate 6 0) @ take 2 dst' @ drop (3 + 2) (replicate 6 0))"
  by (rule lz4_decoders_agree)
    (simp_all add: lz4_strict.simps lz4_distances.simps(2) varlen_def lit_nibble_div)

text \<open>
  \<open>LZ4_decompress_fast\<close> too inverts \<open>LZ4_compress_default\<close>: it finds the end of the block by
  itself and stores the source.
\<close>

theorem lz4_fast_round_trip:
  assumes "LZ4_compress_default source dst (int (length source)) cap = Some (r, dst1)" "0 < r"
    and "int (length source) \<le> 0x7E000000" "nat cap \<le> length dst" "cap < 2 ^ 31"
    and "dest + length source \<le> length m"
  shows "LZ4_decompress_fast (take (nat r) dst1 @ rest) m dest (int (length source)) =
    Some (r, take dest m @ source @ drop (dest + length source) m)"
proof -
  from LZ4_compress_default_ok [OF assms(3,4)] assms(1,2)
  have r: "is_block source (take (nat r) dst1)" "length dst1 = length dst" "r \<le> cap" by auto
  then have len: "length (take (nat r) dst1) = nat r" "nat r < 2 ^ 31" using assms(4,5) by auto
  have "length source < 2 ^ 64" using assms(3) by simp
  with LZ4_decompress_fast_ok [OF assms(6), of "take (nat r) dst1" rest] r(1) len assms(2) show ?thesis
    by (auto simp: is_block_def put_def)
qed

end
