(* ===== verification/Lz4_Fast_Safe.thy ===== *)
theory Lz4_Fast_Safe
  imports Lz4_Fast_Proof
begin

text \<open>
  \<open>LZ4_decompress_unsafe_generic\<close> on any input, valid or not. It trusts the source to be long
  enough and nothing else: distances and lengths are checked, so that it reads only the prefix, the
  dictionary and the output, and writes only the output. How much source it can read is bounded once
  the source is followed by zero bytes.
\<close>

section \<open>Copies anywhere\<close>

definition same_outside :: "nat \<Rightarrow> nat \<Rightarrow> bytes \<Rightarrow> bytes \<Rightarrow> bool" where
  "same_outside lo hi m m' \<longleftrightarrow> length m' = length m \<and>
     (\<forall>j < length m. j < lo \<or> hi \<le> j \<longrightarrow> m' ! j = m ! j)"

lemma same_outside_refl: "same_outside lo hi m m"
  by (simp add: same_outside_def)

lemma same_outside_mono: "same_outside a b m m' \<Longrightarrow> lo \<le> a \<Longrightarrow> b \<le> hi \<Longrightarrow> same_outside lo hi m m'"
  by (auto simp: same_outside_def)

lemma same_outside_trans:
  "same_outside a b m m1 \<Longrightarrow> same_outside c d m1 m2 \<Longrightarrow> lo \<le> a \<Longrightarrow> lo \<le> c \<Longrightarrow> b \<le> hi \<Longrightarrow> d \<le> hi \<Longrightarrow>
    same_outside lo hi m m2"
  by (auto simp: same_outside_def)

lemma same_outside_put: "op + length bs \<le> length m \<Longrightarrow> same_outside op (op + length bs) m (put m op bs)"
  by (auto simp: same_outside_def nth_put)

lemma LZ4_memmove_any:
  assumes "0 \<le> s" "s + int n \<le> int (length m)" "d + n \<le> length m"
  shows "\<exists>m'. LZ4_memmove m d s n = Some m' \<and> same_outside d (d + n) m m'"
proof -
  let ?bs = "take n (drop (nat s) m)"
  from assms have len: "length ?bs = n" by simp
  with assms have "LZ4_memmove m d s n = Some (put m d ?bs)"
    by (simp add: LZ4_memmove_def mem_ld_def mem_st_put del: mem_st_in)
  with same_outside_put [of d ?bs m] len assms(3) show ?thesis by auto
qed

lemma copy_bytes_any:
  assumes "0 \<le> s" "s + int n \<le> int (length m)" "d + n \<le> length m"
  shows "\<exists>m'. copy_bytes_to m d s (d + n) = Some m' \<and> same_outside d (d + n) m m'"
  using assms
proof (induction n arbitrary: m d s)
  case 0
  then show ?case by (subst copy_bytes_to.simps) (simp add: same_outside_refl)
next
  case (Suc n)
  have "copy_byte m d s = LZ4_memmove m d s 1" by (simp add: copy_byte_def LZ4_memmove_def)
  with LZ4_memmove_any [of s 1 m d] Suc.prems obtain m1 where
    m1: "copy_byte m d s = Some m1" "same_outside d (d + 1) m m1" by auto
  then have "length m1 = length m" by (simp add: same_outside_def)
  with Suc.IH [of "s + 1" m1 "d + 1"] Suc.prems obtain m2 where
    m2: "copy_bytes_to m1 (d + 1) (s + 1) (d + 1 + n) = Some m2" "same_outside (d + 1) (d + 1 + n) m1 m2"
    by auto
  have "same_outside d (d + Suc n) m m2"
    by (rule same_outside_trans [OF m1(2) m2(2)]) simp_all
  with m1(1) m2(1) show ?case by (subst copy_bytes_to.simps) simp
qed

section \<open>The stages\<close>

text \<open>The prefix and the dictionary lie in the memory.\<close>

definition in_memory :: "unsafe_ctx \<Rightarrow> nat \<Rightarrow> bool" where
  "in_memory c N \<longleftrightarrow> 0 \<le> u_prefix c \<and> 0 \<le> u_dict c \<and> u_dict c + int (u_dict_size c) \<le> int N \<and>
     u_end c \<le> int N \<and> u_end c - u_prefix c + int (u_dict_size c) < 2 ^ 64"

lemma unsafe_copy_any:
  assumes "in_memory c (length m)" "u_prefix c \<le> int op" "int off \<le> int op - u_prefix c + int (u_dict_size c)"
    and "int (op + ml) \<le> u_end c"
  shows "\<exists>m'. unsafe_copy c off ml op m = Some (m', op + ml) \<and> same_outside op (op + ml) m m'"
proof -
  note mem = assms(1) [unfolded in_memory_def]
  define before where "before = nat (int op - u_prefix c)"
  have b: "size_t_of (int op - u_prefix c) = before" "int before = int op - u_prefix c"
    using assms(2,4) mem by (auto simp: size_t_of_small before_def)
  have fit: "op + ml \<le> length m" using assms(4) mem by linarith
  show ?thesis
  proof (cases "before < off")
    case False
    then have "0 \<le> int op - int off" "int op - int off + int ml \<le> int (length m)"
      using b(2) mem fit by linarith+
    from copy_bytes_any [OF this fit] False b(1) show ?thesis by (auto simp: unsafe_copy_def)
  next
    case far: True
    define e where "e = off - before"
    have e: "int e \<le> int (u_dict_size c)" using assms(3) b(2) far by (simp add: e_def)
    let ?s = "u_dict c + int (u_dict_size c) - int e"
    have move: "\<exists>m'. LZ4_memmove m op ?s n = Some m' \<and> same_outside op (op + n) m m'"
      if "n \<le> e" "n \<le> ml" for n
      by (rule LZ4_memmove_any) (use that e mem fit in linarith)+
    show ?thesis
    proof (cases "ml < e")
      case True
      with move [of ml] far b(1) show ?thesis
        by (auto simp: unsafe_copy_def e_def Let_def copy_bytes_to.simps)
    next
      case False
      with move [of e] obtain m1 where m1: "LZ4_memmove m op ?s e = Some m1" "same_outside op (op + e) m m1"
        by auto
      have len: "length m1 = length m" using m1(2) by (simp add: same_outside_def)
      have "u_prefix c + int (ml - e) \<le> int (length m1)" using False assms(2) fit len by linarith
      with copy_bytes_any [of "u_prefix c" "ml - e" m1 "op + e"] False fit len mem obtain m2 where
        m2: "copy_bytes_to m1 (op + e) (u_prefix c) (op + e + (ml - e)) = Some m2"
          "same_outside (op + e) (op + e + (ml - e)) m1 m2" by auto
      have "same_outside op (op + ml) m m2"
        by (rule same_outside_trans [OF m1(2) m2(2)]) (use False in simp_all)
      with m1(1) m2(1) far b(1) False show ?thesis by (simp add: unsafe_copy_def e_def Let_def)
    qed
  qed
qed

text \<open>A source of which everything from \<open>L\<close> on is zero: a length read there ends at its first byte.\<close>

definition padded :: "bytes \<Rightarrow> nat \<Rightarrow> bool" where
  "padded source L \<longleftrightarrow> (\<forall>i. L \<le> i \<and> i < length source \<longrightarrow> source ! i = 0)"

lemma read_long_length_any:
  assumes "padded source L" "max ip L < length source"
  shows "\<exists>k ip'. read_long_length_no_check source ip l = Some (k, ip') \<and> ip' \<le> max ip L + 1"
  using assms
proof (induction source ip l rule: read_long_length_no_check.induct)
  case (1 source ip l)
  then have ip: "ip < length source" by simp
  show ?case
  proof (cases "source ! ip = 255")
    case True
    then have "source ! ip \<noteq> 0" by simp
    with "1.prems"(1) ip have "ip < L" unfolding padded_def by (meson not_le)
    then have top: "max (ip + 1) L = max ip L" by simp
    from "1.IH" [OF ip refl True "1.prems"(1)] "1.prems"(2) ip True show ?thesis
      unfolding top by (subst read_long_length_no_check.simps) simp
  next
    case False
    with ip show ?thesis by (subst read_long_length_no_check.simps) simp
  qed
qed

lemma unsafe_length_any:
  assumes "padded source L" "max ip L < length source"
  obtains k ip' where "unsafe_length source nibble ip = Some (k, ip')" "ip' \<le> max ip L + 1"
proof (cases "nibble = 15")
  case True
  from read_long_length_any [OF assms, of 0] obtain k ip' where
    "read_long_length_no_check source ip 0 = Some (k, ip')" "ip' \<le> max ip L + 1" by blast
  with True show ?thesis by (intro that [of "nibble + k" ip']) (simp_all add: unsafe_length_def)
next
  case False
  then show ?thesis by (intro that [of nibble ip]) (simp_all add: unsafe_length_def)
qed

text \<open>
  One turn of the loop. The source that is certainly left, \<open>2 * room + 8\<close> bytes beyond both \<open>ip\<close> and
  \<open>L\<close>, is enough for it and is left again for the smaller room after it.
\<close>

definition turn_ok :: "unsafe_ctx \<Rightarrow> nat \<Rightarrow> nat \<Rightarrow> nat \<Rightarrow> nat \<Rightarrow> bytes \<Rightarrow> unsafe_step \<Rightarrow> bool" where
  "turn_ok c L e ip op m step \<longleftrightarrow>
     (case step of
        Unsafe_Next ip' op' m' \<Rightarrow> same_outside op e m m' \<and> op < op' \<and> op' \<le> e \<and>
          max ip' L + 2 * (e - op') \<le> max ip L + 2 * (e - op)
      | Unsafe_End ip' m' \<Rightarrow> same_outside op e m m'
      | Unsafe_Error m' \<Rightarrow> same_outside op e m m')"

lemma unsafe_match_any:
  assumes "in_memory c (length m)" "u_end c = int e" "u_prefix c \<le> int op" "op \<le> e"
    and "padded (u_src c) L" "max ip L + 4 \<le> length (u_src c)"
  shows "\<exists>step. unsafe_match c token ip op m = Some step \<and>
    (case step of
       Unsafe_Next ip' op' m' \<Rightarrow> same_outside op e m m' \<and> op + 4 \<le> op' \<and> op' \<le> e \<and> ip' \<le> max ip L + 3
     | Unsafe_End _ _ \<Rightarrow> False
     | Unsafe_Error m' \<Rightarrow> same_outside op e m m')"
proof -
  have le16: "LZ4_readLE16 (u_src c) ip = Some (unat (u_src c ! ip) + 256 * unat (u_src c ! (ip + 1)))"
    using assms(6) by (simp add: LZ4_readLE16_def)
  define off where "off = unat (u_src c ! ip) + 256 * unat (u_src c ! (ip + 1))"
  have "max (ip + 2) L < length (u_src c)" using assms(6) by linarith
  from unsafe_length_any [OF assms(5) this] obtain k ip' where
    len: "unsafe_length (u_src c) (match_nibble token) (ip + 2) = Some (k, ip')" "ip' \<le> max (ip + 2) L + 1"
    by blast
  note mem = assms(1) [unfolded in_memory_def]
  have room: "size_t_of (u_end c - int op') = e - op'" if "op \<le> op'" "op' \<le> e" for op'
    using that assms(2,3) mem by (subst size_t_of_small) auto
  have reach: "size_t_of (int op - u_prefix c + int (u_dict_size c)) = nat (int op - u_prefix c + int (u_dict_size c))"
    using assms(2-4) mem by (intro size_t_of_small) auto
  show ?thesis
  proof (cases "e - op < k + 4 \<or> nat (int op - u_prefix c + int (u_dict_size c)) < off")
    case True
    with le16 len(1) room [of op] reach assms(4) show ?thesis
      by (auto simp: unsafe_match_def Let_def off_def same_outside_refl)
  next
    case False
    then have near: "int off \<le> int op - u_prefix c + int (u_dict_size c)" "op + (k + 4) \<le> e"
      using assms(3,4) by linarith+
    from unsafe_copy_any [OF assms(1,3) near(1), of "k + 4"] near(2) assms(2) obtain m' where
      m': "unsafe_copy c off (k + 4) op m = Some (m', op + (k + 4))" "same_outside op (op + (k + 4)) m m'"
      by auto
    have out: "same_outside op e m m'" by (rule same_outside_mono [OF m'(2)]) (use near(2) in simp_all)
    have "unsafe_match c token ip op m =
        Some (if e - (op + (k + 4)) < 5 then Unsafe_Error m' else Unsafe_Next ip' (op + (k + 4)) m')"
      using le16 len(1) room [of op] room [of "op + (k + 4)"] reach m'(1) False near(2) assms(4)
      by (simp add: unsafe_match_def Let_def off_def)
    with out near(2) len(2) show ?thesis by auto
  qed
qed

lemma unsafe_iter_any:
  assumes "in_memory c (length m)" "u_end c = int e" "u_prefix c \<le> int op" "op \<le> e"
    and "padded (u_src c) L" "max ip L + 2 * (e - op) + 8 \<le> length (u_src c)"
  shows "\<exists>step. unsafe_iter c ip op m = Some step \<and> turn_ok c L e ip op m step"
proof -
  have tok: "byte_at (u_src c) ip = Some (u_src c ! ip)" using assms(6) by (simp add: byte_at_def)
  have "max (ip + 1) L < length (u_src c)" using assms(6) by linarith
  from unsafe_length_any [OF assms(5) this] obtain ll ip1 where
    len: "unsafe_length (u_src c) (lit_nibble (u_src c ! ip)) (ip + 1) = Some (ll, ip1)" "ip1 \<le> max (ip + 1) L + 1"
    by blast
  note mem = assms(1) [unfolded in_memory_def]
  have room: "size_t_of (u_end c - int op') = e - op'" if "op \<le> op'" "op' \<le> e" for op'
    using that assms(2,3) mem by (subst size_t_of_small) auto
  show ?thesis
  proof (cases "e - op < ll")
    case True
    with tok len(1) room [of op] assms(4) show ?thesis
      by (simp add: unsafe_iter_def turn_ok_def same_outside_refl)
  next
    case False
    then have fit: "op + ll \<le> e" "e \<le> length m" using assms(2,4) mem by linarith+
    let ?bs = "take ll (drop ip1 (u_src c))"
    have src: "ip1 + ll \<le> length (u_src c)" using len(2) False assms(6) by linarith
    define m1 where "m1 = put m op ?bs"
    have copy: "copy_lit (u_src c) m op (int ip1) ll = Some m1"
      using src fit by (simp add: copy_lit_def put_def m1_def)
    have out1: "same_outside op (op + ll) m m1"
      using same_outside_put [of op ?bs m] src fit by (simp add: m1_def)
    then have len1: "length m1 = length m" by (simp add: same_outside_def)
    have out: "same_outside op e m m1"
      by (rule same_outside_mono [OF out1]) (use fit in simp_all)
    have iter: "unsafe_iter c ip op m =
        (if e - (op + ll) < 12 then Some (if op + ll = e then Unsafe_End (ip1 + ll) m1 else Unsafe_Error m1)
         else unsafe_match c (u_src c ! ip) (ip1 + ll) (op + ll) m1)"
      using tok len(1) copy room [of op] room [of "op + ll"] False fit(1) assms(2,4)
      by (auto simp: unsafe_iter_def Let_def)
    show ?thesis
    proof (cases "e - (op + ll) < 12")
      case True
      with iter out show ?thesis by (simp add: turn_ok_def)
    next
      case far: False
      have "max (ip1 + ll) L + 4 \<le> length (u_src c)" using len(2) assms(6) far fit(1) by simp
      from unsafe_match_any [of c m1 e "op + ll" L "ip1 + ll" "u_src c ! ip"] this assms(1-3,5) fit(1) len1
      obtain step where step: "unsafe_match c (u_src c ! ip) (ip1 + ll) (op + ll) m1 = Some step"
        "case step of
           Unsafe_Next ip' op' m' \<Rightarrow> same_outside (op + ll) e m1 m' \<and> op + ll + 4 \<le> op' \<and> op' \<le> e \<and>
             ip' \<le> max (ip1 + ll) L + 3
         | Unsafe_End _ _ \<Rightarrow> False
         | Unsafe_Error m' \<Rightarrow> same_outside (op + ll) e m1 m'" by auto
      have trans: "same_outside (op + ll) e m1 m2 \<Longrightarrow> same_outside op e m m2" for m2
        using fit(1) same_outside_trans [OF out1, of "op + ll" e m2 op e] by simp
      have "turn_ok c L e ip op m step"
        using step(2) trans len(2) by (auto simp: turn_ok_def split: unsafe_step.splits)
      with iter far step(1) show ?thesis by simp
    qed
  qed
qed

lemma unsafe_loop_any:
  assumes "in_memory c (length m)" "u_end c = int e" "u_prefix c \<le> int op" "op \<le> e"
    and "padded (u_src c) L" "max ip L + 2 * (e - op) + 8 \<le> length (u_src c)"
  shows "\<exists>r m'. unsafe_loop c ip op m = Some (r, m') \<and> same_outside op e m m'"
  using assms
proof (induction "e - op" arbitrary: ip op m rule: less_induct)
  case less
  from unsafe_iter_any [OF less.prems] obtain step where
    step: "unsafe_iter c ip op m = Some step" "turn_ok c L e ip op m step" by blast
  show ?case
  proof (cases step)
    case (Unsafe_Next ip' op' m')
    with step(2) have t: "same_outside op e m m'" "op < op'" "op' \<le> e"
      "max ip' L + 2 * (e - op') \<le> max ip L + 2 * (e - op)" by (simp_all add: turn_ok_def)
    have "length m' = length m" "e - op' < e - op" using t by (auto simp: same_outside_def)
    with less.hyps [of op' m' ip'] less.prems t obtain r m2 where
      rest: "unsafe_loop c ip' op' m' = Some (r, m2)" "same_outside op' e m' m2" by auto
    have "same_outside op e m m2"
      by (rule same_outside_trans [OF t(1) rest(2)]) (use t in simp_all)
    with rest(1) step(1) Unsafe_Next show ?thesis by (subst unsafe_loop.simps) simp
  qed (use step in \<open>subst unsafe_loop.simps, simp add: turn_ok_def\<close>)+
qed

section \<open>Properties\<close>

text \<open>
  C21. The decoder of the \<open>LZ4_decompress_fast\<close> family on any input. With a prefix and a dictionary in
  the memory, and a source followed by \<open>2 n + 8\<close> zero bytes or more, it returns, every access stays in
  the source and the memory, and no byte outside the \<open>n\<close> bytes of the output changes. So what it trusts
  is only that the source is long enough.
\<close>

theorem lz4_unsafe_confined:
  assumes "prefixSize \<le> dest" "dest + n \<le> length m" "dictStart + dictSize \<le> length m" "length m < 2 ^ 62"
    and "2 * n + 8 \<le> k"
  shows "\<exists>r m'. LZ4_decompress_unsafe_generic (source @ replicate k 0) m dest (int n) prefixSize
      (int dictStart) dictSize = Some (r, m') \<and>
    length m' = length m \<and> (\<forall>j < length m. j < dest \<or> dest + n \<le> j \<longrightarrow> m' ! j = m ! j)"
proof -
  let ?c = "\<lparr>u_src = source @ replicate k 0, u_end = int dest + int n, u_prefix = int dest - int prefixSize,
    u_dict = int dictStart, u_dict_size = dictSize\<rparr>"
  have "padded (u_src ?c) (length source)" by (auto simp: padded_def nth_append)
  with unsafe_loop_any [of ?c m "dest + n" dest "length source" 0] assms show ?thesis
    by (auto simp: in_memory_def LZ4_decompress_unsafe_generic_def same_outside_def)
qed

theorem lz4_unsafe_confined_witness:
  "\<exists>r m'. LZ4_decompress_unsafe_generic ([0xF4, 0xFF, 9] @ replicate 12 0) (replicate 8 5) 4 (int 2) 3
      (int 0) 2 = Some (r, m') \<and>
    length m' = 8 \<and> (\<forall>j < length (replicate 8 (5 :: u8)). j < 4 \<or> 4 + 2 \<le> j \<longrightarrow> m' ! j = replicate 8 5 ! j)"
  using lz4_unsafe_confined [of 3 4 2 "replicate 8 5" 0 2 12 "[0xF4, 0xFF, 9]"] by simp

end
