(* ===== verification/Lz4_Stream.thy ===== *)
theory Lz4_Stream
  imports Lz4_Fast_Proof
begin

text \<open>
  Streaming decompression with \<open>LZ4_decompress_fast_continue\<close> (\<open>lib/lz4.c\<close>): blocks that refer
  back to earlier ones. The context remembers where the bytes decoded so far lie, as a prefix of
  the next block and an older segment elsewhere. \<open>NULL\<close> is address 0.
\<close>

section \<open>The context\<close>

record stream_decode =
  sd_externalDict :: int
  sd_prefixEnd :: int
  sd_extDictSize :: nat
  sd_prefixSize :: nat

definition LZ4_setStreamDecode :: "stream_decode \<Rightarrow> int \<Rightarrow> int \<Rightarrow> int \<times> stream_decode" where
  "LZ4_setStreamDecode lz4sd dictionary dictSize =
     (1, lz4sd\<lparr>sd_prefixSize := size_t_of dictSize,
       sd_prefixEnd := (if dictSize \<noteq> 0 then dictionary + dictSize else dictionary),
       sd_externalDict := 0, sd_extDictSize := 0\<rparr>)"

definition LZ4_decoderRingBufferSize :: "int \<Rightarrow> int" where
  "LZ4_decoderRingBufferSize maxBlockSize =
     (if maxBlockSize < 0 then 0
      else if LZ4_MAX_INPUT_SIZE < maxBlockSize then 0
      else 65536 + 14 + (if maxBlockSize < 16 then 16 else maxBlockSize))"

text \<open>The return value, the context and the memory.\<close>

definition LZ4_decompress_fast_continue ::
    "stream_decode \<Rightarrow> bytes \<Rightarrow> bytes \<Rightarrow> nat \<Rightarrow> int \<Rightarrow> (int \<times> stream_decode \<times> bytes) option" where
  "LZ4_decompress_fast_continue lz4sd source m dest originalSize =
     (if sd_prefixSize lz4sd = 0 then
        do {
          (result, m) \<leftarrow> LZ4_decompress_fast source m dest originalSize;
          Some (result,
            if result \<le> 0 then lz4sd
            else lz4sd\<lparr>sd_prefixSize := size_t_of originalSize, sd_prefixEnd := int dest + originalSize\<rparr>,
            m) }
      else if sd_prefixEnd lz4sd = int dest then
        do {
          (result, m) \<leftarrow> LZ4_decompress_unsafe_generic source m dest originalSize
            (sd_prefixSize lz4sd) (sd_externalDict lz4sd) (sd_extDictSize lz4sd);
          Some (result,
            if result \<le> 0 then lz4sd
            else lz4sd\<lparr>sd_prefixSize := size_t_of (int (sd_prefixSize lz4sd) + originalSize),
              sd_prefixEnd := sd_prefixEnd lz4sd + originalSize\<rparr>,
            m) }
      else
        (let lz4sd = lz4sd\<lparr>sd_extDictSize := sd_prefixSize lz4sd,
               sd_externalDict := sd_prefixEnd lz4sd - int (sd_prefixSize lz4sd)\<rparr>
         in do {
          (result, m) \<leftarrow> LZ4_decompress_fast_extDict source m dest originalSize
            (sd_externalDict lz4sd) (sd_extDictSize lz4sd);
          Some (result,
            if result \<le> 0 then lz4sd
            else lz4sd\<lparr>sd_prefixSize := size_t_of originalSize, sd_prefixEnd := int dest + originalSize\<rparr>,
            m) }))"

section \<open>One block\<close>

text \<open>The context finds the history: all that was decoded since the stream began.\<close>

definition stream_at :: "stream_decode \<Rightarrow> bytes \<Rightarrow> bytes \<Rightarrow> bool" where
  "stream_at sd m hist \<longleftrightarrow>
     (if sd_prefixSize sd = 0 then hist = [] \<and> sd_extDictSize sd = 0 \<and> sd_externalDict sd = 0
      else 0 \<le> sd_prefixEnd sd \<and>
        reaches (sd_prefixEnd sd - int (sd_prefixSize sd)) (sd_externalDict sd + int (sd_extDictSize sd))
          (sd_extDictSize sd) (nat (sd_prefixEnd sd)) m hist)"

text \<open>A destination that leaves intact what the next block may refer to.\<close>

definition stream_room :: "stream_decode \<Rightarrow> nat \<Rightarrow> nat \<Rightarrow> bytes \<Rightarrow> bool" where
  "stream_room sd dest n hist \<longleftrightarrow> sd_prefixSize sd = 0 \<or>
     (if sd_prefixEnd sd = int dest then
        apart (sd_prefixEnd sd - int (sd_prefixSize sd)) (sd_externalDict sd + int (sd_extDictSize sd))
          (sd_extDictSize sd) (int dest) (int (dest + n))
      else min 65535 (length hist) \<le> sd_prefixSize sd \<and>
        apart (int dest) (sd_prefixEnd sd) (sd_prefixSize sd) (int dest) (int (dest + n)))"

definition stream_small :: "stream_decode \<Rightarrow> nat \<Rightarrow> bool" where
  "stream_small sd n \<longleftrightarrow> n + sd_prefixSize sd + sd_extDictSize sd < 2 ^ 64"

text \<open>The context after a block of \<open>n\<close> bytes at \<open>dest\<close>.\<close>

definition stream_next :: "stream_decode \<Rightarrow> nat \<Rightarrow> nat \<Rightarrow> stream_decode" where
  "stream_next sd dest n =
     (if sd_prefixSize sd = 0 then sd\<lparr>sd_prefixSize := n, sd_prefixEnd := int (dest + n)\<rparr>
      else if sd_prefixEnd sd = int dest then
        sd\<lparr>sd_prefixSize := sd_prefixSize sd + n, sd_prefixEnd := int (dest + n)\<rparr>
      else
        \<lparr>sd_externalDict = sd_prefixEnd sd - int (sd_prefixSize sd), sd_prefixEnd = int (dest + n),
          sd_extDictSize = sd_prefixSize sd, sd_prefixSize = n\<rparr>)"

text \<open>The prefix becomes the dictionary of a block elsewhere.\<close>

lemma reaches_elsewhere:
  assumes "reaches (pe - int ps) de ds (nat pe) m hist" "0 \<le> pe" "min 65535 (length hist) \<le> ps" "dest \<le> length m"
  shows "reaches (int dest) pe ps dest m hist"
proof -
  have "origin (int dest) pe dest k = origin (pe - int ps) de (nat pe) k"
    if "0 < k" "k \<le> min 65535 (length hist)" for k
    using that assms(2,3) by (auto simp: origin_def)
  with assms show ?thesis by (simp add: reaches_def)
qed

definition block_of :: "bytes \<Rightarrow> bytes \<Rightarrow> bytes \<Rightarrow> bool" where
  "block_of hist blk data \<longleftrightarrow> lz4_decode blk hist = Some (hist @ data) \<and> 0 < length data \<and> length blk < 2 ^ 31 \<and>
     lz4_strict (length hist + length data) blk (length hist) \<and> lz4_distances blk"

lemma continue_ok:
  assumes "stream_at sd m hist" "stream_room sd dest (length data) hist" "stream_small sd (length data)"
    and "block_of hist blk data" "dest + length data \<le> length m"
  shows "LZ4_decompress_fast_continue sd (blk @ rest) m dest (int (length data)) =
      Some (int (length blk), stream_next sd dest (length data), put m dest data)"
    and "stream_at (stream_next sd dest (length data)) (put m dest data) (hist @ data)"
proof -
  let ?n = "length data"
  note b = assms(4) [unfolded block_of_def]
  have "blk \<noteq> []" using b by (auto simp: lz4_strict.simps)
  then have pos: "\<not> int (length blk) \<le> 0" by simp
  have n: "0 < ?n" "?n < 2 ^ 64" using b assms(3) by (auto simp: stream_small_def)
  have sz: "size_t_of (int k) = k" if "k < 2 ^ 64" for k using that by (simp add: size_t_of_small)
  have dec: "LZ4_decompress_unsafe_generic (blk @ rest) m dest (int ?n) ps ext es =
        Some (int (length blk), put m dest data) \<and>
      reaches (int dest - int ps) (ext + int es) es (dest + ?n) (put m dest data) (hist @ data)"
    if "reaches (int dest - int ps) (ext + int es) es dest m hist"
      and "apart (int dest - int ps) (ext + int es) es (int dest) (int (dest + ?n))" "?n + ps + es < 2 ^ 64"
    for ps ext es
    using unsafe_generic_ok [OF that(1,2) assms(5) that(3), of blk rest] b
      reaches_put [OF that(1,2) order_refl _ assms(5)] by auto
  have "LZ4_decompress_fast_continue sd (blk @ rest) m dest (int ?n) =
        Some (int (length blk), stream_next sd dest ?n, put m dest data) \<and>
      stream_at (stream_next sd dest ?n) (put m dest data) (hist @ data)"
  proof (cases "sd_prefixSize sd = 0")
    case True
    with assms(1) have h: "hist = []" "sd_extDictSize sd = 0" "sd_externalDict sd = 0"
      by (auto simp: stream_at_def)
    have "reaches (int dest) 0 0 dest m []" using reaches_Nil assms(5) by simp
    with dec [of 0 0 0] h(1) n(2) True pos sz [OF n(2)] h n(1) show ?thesis
      by (simp add: LZ4_decompress_fast_continue_def LZ4_decompress_fast_def stream_next_def stream_at_def
        apart_def nat_int_add)
  next
    case started: False
    with assms(1) have at: "0 \<le> sd_prefixEnd sd"
      "reaches (sd_prefixEnd sd - int (sd_prefixSize sd)) (sd_externalDict sd + int (sd_extDictSize sd))
        (sd_extDictSize sd) (nat (sd_prefixEnd sd)) m hist"
      by (simp_all add: stream_at_def)
    show ?thesis
    proof (cases "sd_prefixEnd sd = int dest")
      case True
      have "size_t_of (int (sd_prefixSize sd) + int ?n) = sd_prefixSize sd + ?n"
        using sz [of "sd_prefixSize sd + ?n"] assms(3) by (simp add: stream_small_def)
      moreover have "int (dest + ?n) - int (sd_prefixSize sd + ?n) = int dest - int (sd_prefixSize sd)" by simp
      ultimately show ?thesis
        using dec [of "sd_prefixSize sd" "sd_externalDict sd" "sd_extDictSize sd"] at True started assms(2,3) pos
        by (simp add: LZ4_decompress_fast_continue_def stream_next_def stream_at_def stream_room_def
          stream_small_def nat_int_add ac_simps)
    next
      case False
      with assms(2) started have room: "min 65535 (length hist) \<le> sd_prefixSize sd"
        "apart (int dest) (sd_prefixEnd sd) (sd_prefixSize sd) (int dest) (int (dest + ?n))"
        by (simp_all add: stream_room_def)
      have "reaches (int dest) (sd_prefixEnd sd) (sd_prefixSize sd) dest m hist"
        using reaches_elsewhere [OF at(2,1) room(1)] assms(5) by simp
      with dec [of 0 "sd_prefixEnd sd - int (sd_prefixSize sd)" "sd_prefixSize sd"] room(2) started False
        sz [OF n(2)] n(1) pos assms(3)
      show ?thesis
        by (simp add: LZ4_decompress_fast_continue_def LZ4_decompress_fast_extDict_def stream_next_def
          stream_at_def stream_small_def Let_def nat_int_add)
    qed
  qed
  then show "LZ4_decompress_fast_continue sd (blk @ rest) m dest (int ?n) =
      Some (int (length blk), stream_next sd dest ?n, put m dest data)"
    "stream_at (stream_next sd dest ?n) (put m dest data) (hist @ data)" by blast+
qed

section \<open>A ring buffer\<close>

text \<open>
  The use the library documents: blocks are decompressed next to each other, and from the start of
  the buffer again when less than the maximal block size is left. The result has for each block the
  return value and the bytes found at its destination. A failure ends the stream.
\<close>

fun ring_decode :: "nat \<Rightarrow> nat \<Rightarrow> nat \<Rightarrow> stream_decode \<Rightarrow> bytes \<Rightarrow> nat \<Rightarrow> (bytes \<times> nat) list \<Rightarrow>
    (int \<times> bytes) list option" where
  "ring_decode base ring maxb sd m pos [] = Some []"
| "ring_decode base ring maxb sd m pos ((source, n) # jobs) =
     (let pos = if ring < pos + maxb then 0 else pos in
      do {
        (r, sd, m) \<leftarrow> LZ4_decompress_fast_continue sd source m (base + pos) (int n);
        rs \<leftarrow> (if 0 < r then ring_decode base ring maxb sd m (pos + n) jobs else Some []);
        Some ((r, take n (drop (base + pos) m)) # rs) })"

text \<open>A stream of blocks: each refers to all the data before it.\<close>

primrec stream_of :: "nat \<Rightarrow> bytes \<Rightarrow> (bytes \<times> bytes) list \<Rightarrow> bool" where
  "stream_of maxb hist [] = True"
| "stream_of maxb hist (b # bs) \<longleftrightarrow>
     (case b of (blk, data) \<Rightarrow> block_of hist blk data \<and> length data \<le> maxb \<and> stream_of maxb (hist @ data) bs)"

text \<open>Where a stream in the ring stands: at \<open>pos\<close>, with a lap behind it or none.\<close>

definition in_ring :: "nat \<Rightarrow> nat \<Rightarrow> nat \<Rightarrow> stream_decode \<Rightarrow> nat \<Rightarrow> bool" where
  "in_ring base ring maxb sd pos \<longleftrightarrow> sd_prefixSize sd = pos \<and> pos \<le> ring \<and> sd_extDictSize sd \<le> ring \<and>
     (0 < pos \<longrightarrow> sd_prefixEnd sd = int (base + pos)) \<and>
     (sd_externalDict sd = 0 \<and> sd_extDictSize sd = 0 \<or>
      int base + 65535 \<le> sd_externalDict sd + int (sd_extDictSize sd))"

lemma in_ring_step:
  assumes "in_ring base ring maxb sd pos" "65536 + 14 + maxb \<le> ring" "0 < n" "n \<le> maxb" "ring < 2 ^ 62"
    and "pos' = (if ring < pos + maxb then 0 else pos)"
  shows "stream_room sd (base + pos') n hist" "stream_small sd n"
    "in_ring base ring maxb (stream_next sd (base + pos') n) (pos' + n)"
proof -
  show "stream_small sd n" using assms by (simp add: in_ring_def stream_small_def)
  show "stream_room sd (base + pos') n hist"
    using assms by (auto simp: in_ring_def stream_room_def apart_def)
  show "in_ring base ring maxb (stream_next sd (base + pos') n) (pos' + n)"
    using assms by (auto simp: in_ring_def stream_next_def)
qed

lemma ring_decode_ok:
  assumes "in_ring base ring maxb sd pos" "stream_at sd m hist" "stream_of maxb hist bs"
    and "65536 + 14 + maxb \<le> ring" "ring < 2 ^ 62" "base + ring \<le> length m"
  shows "ring_decode base ring maxb sd m pos (map (\<lambda>(blk, data). (blk, length data)) bs) =
    Some (map (\<lambda>(blk, data). (int (length blk), data)) bs)"
  using assms
proof (induction bs arbitrary: sd pos m hist)
  case (Cons b bs)
  obtain blk data where b: "b = (blk, data)" by fastforce
  with Cons.prems(3) have blk: "block_of hist blk data" "length data \<le> maxb" "stream_of maxb (hist @ data) bs"
    by simp_all
  then have n: "0 < length data" "blk \<noteq> []" by (auto simp: block_of_def lz4_strict.simps)
  define pos' where "pos' = (if ring < pos + maxb then 0 else pos)"
  note step = in_ring_step [OF Cons.prems(1,4) n(1) blk(2) Cons.prems(5) pos'_def]
  have fits: "base + pos' + length data \<le> length m"
    using Cons.prems(4,6) blk(2) by (simp add: pos'_def)
  note cont = continue_ok [OF Cons.prems(2) step(1,2) blk(1) fits]
  from Cons.IH [OF step(3) cont(2) blk(3) Cons.prems(4,5)] Cons.prems(6) fits
  have "ring_decode base ring maxb (stream_next sd (base + pos') (length data)) (put m (base + pos') data)
      (pos' + length data) (map (\<lambda>(blk, data). (blk, length data)) bs) =
    Some (map (\<lambda>(blk, data). (int (length blk), data)) bs)" by simp
  with cont(1) [of "[]"] n(2) fits take_drop_put [OF fits] show ?case
    by (simp add: b flip: pos'_def)
qed simp

section \<open>A dictionary given to the context or to the call\<close>

lemma setStreamDecode_at:
  assumes "dict + n \<le> length m" "n < 2 ^ 64"
  shows "stream_at (snd (LZ4_setStreamDecode sd (int dict) (int n))) m (take n (drop dict m))"
proof -
  have "size_t_of (int n) = n" using assms(2) by (simp add: size_t_of_small)
  then show ?thesis
    using assms(1)
    by (auto simp: LZ4_setStreamDecode_def stream_at_def reaches_def origin_def nat_int_add of_nat_diff
      nat_diff_distrib' algebra_simps)
qed

text \<open>
  \<open>LZ4_decompress_fast_usingDict\<close> is the context set to the dictionary followed by one call of
  \<open>LZ4_decompress_fast_continue\<close>, on any input.
\<close>

lemma usingDict_continue:
  assumes "0 \<le> dictSize" "dictSize < 2 ^ 31"
  shows "LZ4_decompress_fast_usingDict source m dest originalSize dictStart dictSize =
    map_option (\<lambda>(r, sd', m'). (r, m'))
      (LZ4_decompress_fast_continue (snd (LZ4_setStreamDecode sd dictStart dictSize)) source m dest originalSize)"
proof -
  have size: "size_t_of dictSize = nat dictSize" using assms by (simp add: size_t_of_small)
  have proj: "map_option (\<lambda>(r, sd', m'). (r, m')) (do { (r, m') \<leftarrow> x; Some (r, f r m', m') }) = x"
    for x :: "(int \<times> bytes) option" and f :: "int \<Rightarrow> bytes \<Rightarrow> stream_decode"
    by (cases x) auto
  show ?thesis
  proof (cases "dictSize = 0")
    case True
    then show ?thesis
      by (simp add: LZ4_decompress_fast_usingDict_def LZ4_decompress_fast_continue_def LZ4_setStreamDecode_def
        LZ4_decompress_fast_def size_t_of_def proj)
  next
    case False
    with assms size show ?thesis
      by (cases "dictStart + dictSize = int dest")
        (simp_all add: LZ4_decompress_fast_usingDict_def LZ4_decompress_fast_continue_def LZ4_setStreamDecode_def
          LZ4_decompress_fast_extDict_def Let_def proj)
  qed
qed

text \<open>
  An empty block decoded elsewhere leaves a context that the next call takes for a fresh one: the
  prefix is empty and the dictionary is not, which the code asserts cannot be.
\<close>

lemma empty_block_forgets:
  assumes "sd_prefixSize sd \<noteq> 0" "sd_prefixEnd sd \<noteq> int dest" "dest \<le> length m"
  shows "\<exists>sd'. LZ4_decompress_fast_continue sd [0] m dest 0 = Some (1, sd', m) \<and>
    sd_prefixSize sd' = 0 \<and> sd_extDictSize sd' = sd_prefixSize sd"
proof -
  have "LZ4_decompress_unsafe_generic [0] m dest 0 0 d n = Some (1, m)" for d n
    using assms(3)
    by (simp add: LZ4_decompress_unsafe_generic_def unsafe_loop.simps unsafe_iter_def byte_at_def Let_def
      unsafe_length_def lit_nibble_div size_t_of_def copy_lit_def mem_ld_def mem_st_def to_int_def)
  with assms(1,2) show ?thesis
    by (simp add: LZ4_decompress_fast_continue_def LZ4_decompress_fast_extDict_def Let_def size_t_of_def)
qed

section \<open>Properties\<close>

text \<open>
  C12. A stream of any length decompressed in a ring buffer. With the size that
  \<open>LZ4_decoderRingBufferSize\<close> gives for the largest block, or more, \<open>LZ4_decompress_fast_continue\<close>
  returns for every block its size and leaves at its destination the data that the format decodes it
  to on the whole history, although the buffer has been overwritten many times.
\<close>

theorem lz4_ring_stream:
  assumes "stream_of maxb [] blocks" "maxb \<le> 0x7E000000" "LZ4_decoderRingBufferSize (int maxb) \<le> int ring"
    and "ring < 2 ^ 62" "base + ring \<le> length m"
  shows "ring_decode base ring maxb (snd (LZ4_setStreamDecode sd 0 0)) m 0
      (map (\<lambda>(blk, data). (blk, length data)) blocks) =
    Some (map (\<lambda>(blk, data). (int (length blk), data)) blocks)"
proof -
  have "65536 + 14 + maxb \<le> ring"
    using assms(2,3) by (auto simp: LZ4_decoderRingBufferSize_def split: if_splits)
  moreover have "in_ring base ring maxb (snd (LZ4_setStreamDecode sd 0 0)) 0"
    "stream_at (snd (LZ4_setStreamDecode sd 0 0)) m []"
    by (simp_all add: in_ring_def stream_at_def LZ4_setStreamDecode_def size_t_of_def)
  ultimately show ?thesis
    using assms by (intro ring_decode_ok)
qed

text \<open>Two blocks, of which the second copies four bytes of the first.\<close>

theorem lz4_ring_stream_witness:
  "ring_decode 10 66000 16 (snd (LZ4_setStreamDecode
      \<lparr>sd_externalDict = 5, sd_prefixEnd = 6, sd_extDictSize = 7, sd_prefixSize = 8\<rparr> 0 0)) (replicate 70000 0) 0
      [([0x20, 65, 66], 2), ([0, 2, 0, 0x80, 1, 2, 3, 4, 5, 6, 7, 8], 12)] =
    Some [(3, [65, 66]), (12, [65, 66, 65, 66, 1, 2, 3, 4, 5, 6, 7, 8])]"
proof -
  let ?blocks = "[([0x20, 65, 66], [65, 66]), ([0, 2, 0, 0x80, 1, 2, 3, 4, 5, 6, 7, 8],
    [65, 66, 65, 66, 1, 2, 3, 4, 5, 6, 7, 8])] :: (bytes \<times> bytes) list"
  have "stream_of 16 [] ?blocks"
    by (simp add: block_of_def lz4_strict.simps lz4_distances.simps(2) lz4_decode.simps varlen_def
      lit_nibble_div match_nibble_def lz_copy_def lz_byte_def upt_rec le_mod_geq)
  then have "ring_decode 10 66000 16 (snd (LZ4_setStreamDecode
      \<lparr>sd_externalDict = 5, sd_prefixEnd = 6, sd_extDictSize = 7, sd_prefixSize = 8\<rparr> 0 0)) (replicate 70000 0) 0
      (map (\<lambda>(blk, data). (blk, length data)) ?blocks) = Some (map (\<lambda>(blk, data). (int (length blk), data)) ?blocks)"
    by (rule lz4_ring_stream) (simp_all add: LZ4_decoderRingBufferSize_def)
  moreover have "length [65, 66 :: u8] = 2" "length [65, 66, 65, 66, 1, 2, 3, 4, 5, 6, 7, 8 :: u8] = 12"
    "int (length [0x20, 65, 66 :: u8]) = 3" "int (length [0, 2, 0, 0x80, 1, 2, 3, 4, 5, 6, 7, 8 :: u8]) = 12"
    by simp_all
  ultimately show ?thesis by (simp only: list.map prod.case)
qed

end
